(* ===== verification/Prelude.thy ===== *)
theory Prelude
  imports Main "HOL-Library.Word" "HOL-Library.Monad_Syntax" "HOL-Library.AList"
begin

text \<open>
  Shared material of the order book development: the rule collections, the comparator
  contract every ordered container relies on, and the finite binary floating-point numbers
  the code computes with (\<^verbatim>\<open>float\<close> and \<^verbatim>\<open>double\<close>).

  A finite \<^verbatim>\<open>float\<close> is an integer multiple of \<open>2 ^ (-149)\<close>, the smallest subnormal, so it is
  represented by that integer. Comparisons are then exact integer comparisons, and an
  arithmetic operation is the exact integer operation followed by rounding to 24 significant
  bits, ties to even. Every \<^verbatim>\<open>double\<close> of the program is a sum or difference of \<^verbatim>\<open>float\<close>s, hence
  a multiple of the same unit, and its operations round to 53 significant bits. Infinities and
  NaN are outside the model.
\<close>

section \<open>Rule collections\<close>

named_theorems float_simps \<open>rewriting of rounded arithmetic on exactly representable values\<close>
named_theorems heap_simps \<open>reads and writes of the node heap\<close>
named_theorems tree_simps \<open>symbolic execution of the tree operations on represented trees\<close>
named_theorems book_simps \<open>selectors of order book states after the book operations\<close>

section \<open>Comparators\<close>

text \<open>
  The contract of a \<^verbatim>\<open>Compare\<close> object: a strict weak order. Elements that are incomparable
  (neither is less than the other) count as equal for the container.
\<close>

locale comparator =
  fixes lt :: "'k \<Rightarrow> 'k \<Rightarrow> bool"
  assumes irrefl: "\<not> lt x x"
    and trans: "lt x y \<Longrightarrow> lt y z \<Longrightarrow> lt x z"
    and neg_trans: "\<not> lt x y \<Longrightarrow> \<not> lt y z \<Longrightarrow> \<not> lt x z"
begin

lemma asym: "lt x y \<Longrightarrow> \<not> lt y x"
  using irrefl trans by blast

lemma lt_equiv_trans: "lt x y \<Longrightarrow> \<not> lt z y \<Longrightarrow> lt x z"
  using neg_trans by blast

lemma equiv_lt_trans: "\<not> lt y x \<Longrightarrow> lt y z \<Longrightarrow> lt x z"
  using neg_trans by blast

end

section \<open>Finite binary floating-point numbers\<close>

text \<open>
  \<open>excess_bits p m\<close> is the number of low-order bits by which the magnitude \<open>m\<close> exceeds
  \<open>p\<close> significant bits; \<open>half_even m d\<close> is the integer nearest to \<open>m / d\<close>, ties to even.
\<close>

function excess_bits :: "nat \<Rightarrow> int \<Rightarrow> nat" where
  "excess_bits p m = (if m < 2 ^ p then 0 else Suc (excess_bits p (m div 2)))"
  by pat_completeness auto
termination
proof (relation "measure (\<lambda>(p, m). nat m)")
  fix p :: nat and m :: int
  assume "\<not> m < 2 ^ p"
  moreover have "(1::int) \<le> 2 ^ p" by simp
  ultimately have "1 \<le> m" by linarith
  then show "((p, m div 2), p, m) \<in> measure (\<lambda>(p, m). nat m)" by simp
qed simp

declare excess_bits.simps [simp del]

definition half_even :: "int \<Rightarrow> int \<Rightarrow> int" where
  "half_even m d =
     (let q = m div d; r = m mod d in
      if 2 * r < d then q else if d < 2 * r then q + 1 else if even q then q else q + 1)"

definition round_mag :: "nat \<Rightarrow> int \<Rightarrow> int" where
  "round_mag p m = (let k = excess_bits p m in half_even m (2 ^ k) * 2 ^ k)"

definition round_sig :: "nat \<Rightarrow> int \<Rightarrow> int" where
  "round_sig p m = sgn m * round_mag p \<bar>m\<bar>"

type_synonym f32 = int
type_synonym f64 = int

definition rnd32 :: "int \<Rightarrow> f32" where
  "rnd32 = round_sig 24"

definition rnd64 :: "int \<Rightarrow> f64" where
  "rnd64 = round_sig 53"

text \<open>\<^verbatim>\<open>float\<close> subtraction and addition, \<^verbatim>\<open>double\<close> addition and subtraction, narrowing.\<close>

definition fsub32 :: "f32 \<Rightarrow> f32 \<Rightarrow> f32" where
  "fsub32 a b = rnd32 (a - b)"

definition fadd32 :: "f32 \<Rightarrow> f32 \<Rightarrow> f32" where
  "fadd32 a b = rnd32 (a + b)"

definition fadd64 :: "f64 \<Rightarrow> f64 \<Rightarrow> f64" where
  "fadd64 a b = rnd64 (a + b)"

definition fsub64 :: "f64 \<Rightarrow> f64 \<Rightarrow> f64" where
  "fsub64 a b = rnd64 (a - b)"

definition to_f32 :: "f64 \<Rightarrow> f32" where
  "to_f32 = rnd32"

text \<open>The \<^verbatim>\<open>float\<close> with the given integer value.\<close>

definition fl :: "int \<Rightarrow> f32" where
  "fl n = n * 2 ^ 149"

subsection \<open>Rounding\<close>

lemma excess_bits_0: "m < 2 ^ p \<Longrightarrow> excess_bits p m = 0"
  by (simp add: excess_bits.simps)

lemma excess_bits_upper: "m < 2 ^ (p + excess_bits p m)"
proof (induction p m rule: excess_bits.induct)
  case (1 p m)
  show ?case
  proof (cases "m < 2 ^ p")
    case True
    then show ?thesis by (simp add: excess_bits_0)
  next
    case False
    with 1 have "m div 2 < 2 ^ (p + excess_bits p (m div 2))" by simp
    then have "m < 2 * 2 ^ (p + excess_bits p (m div 2))" by linarith
    with False show ?thesis by (simp add: excess_bits.simps [of p m])
  qed
qed

lemma excess_bits_lower: "0 < excess_bits p m \<Longrightarrow> 2 ^ (p + excess_bits p m - 1) \<le> m"
proof (induction p m rule: excess_bits.induct)
  case (1 p m)
  then have big: "\<not> m < 2 ^ p" by (auto simp: excess_bits_0)
  then have eq: "excess_bits p m = Suc (excess_bits p (m div 2))"
    by (simp add: excess_bits.simps [of p m])
  show ?case
  proof (cases "excess_bits p (m div 2)")
    case 0
    with eq big show ?thesis by simp
  next
    case (Suc j)
    with 1(1) [OF big] have "2 ^ (p + j) \<le> m div 2" by simp
    then have "2 * 2 ^ (p + j) \<le> m" by linarith
    with eq Suc show ?thesis by simp
  qed
qed

lemma half_even_mono:
  assumes "0 < d" "m \<le> m'"
  shows "half_even m d \<le> half_even m' d"
proof -
  have q: "m div d \<le> m' div d" using assms by (simp add: zdiv_mono1)
  show ?thesis
  proof (cases "m div d = m' div d")
    case True
    then have "m mod d \<le> m' mod d"
      using assms by (metis add_le_cancel_left div_mult_mod_eq)
    with True show ?thesis by (auto simp: half_even_def Let_def)
  next
    case False
    with q have "m div d + 1 \<le> m' div d" by simp
    then show ?thesis by (auto simp: half_even_def Let_def)
  qed
qed

lemma half_even_exact: "0 < d \<Longrightarrow> half_even (c * d) d = c"
  by (simp add: half_even_def Let_def)

lemma round_mag_small: "0 \<le> m \<Longrightarrow> m < 2 ^ p \<Longrightarrow> round_mag p m = m"
  using half_even_exact [of 1 m] by (simp add: round_mag_def excess_bits_0)

lemma round_mag_upper:
  assumes "0 \<le> m"
  shows "round_mag p m \<le> 2 ^ (p + excess_bits p m)"
proof -
  let ?k = "excess_bits p m"
  have "m \<le> 2 ^ p * 2 ^ ?k"
    using excess_bits_upper [of m p] by (simp add: power_add)
  then have "half_even m (2 ^ ?k) \<le> half_even (2 ^ p * 2 ^ ?k) (2 ^ ?k)"
    by (intro half_even_mono) auto
  then have "half_even m (2 ^ ?k) \<le> 2 ^ p" by (simp add: half_even_exact)
  then show ?thesis by (simp add: round_mag_def Let_def power_add)
qed

lemma round_mag_lower:
  assumes "0 < excess_bits p m" "0 < p"
  shows "2 ^ (p + excess_bits p m - 1) \<le> round_mag p m"
proof -
  let ?k = "excess_bits p m"
  have split: "(2::int) ^ (p + ?k - 1) = 2 ^ (p - 1) * 2 ^ ?k"
    using assms by (cases p) (simp_all add: power_add)
  then have "2 ^ (p - 1) * 2 ^ ?k \<le> m"
    using excess_bits_lower [OF assms(1)] by simp
  then have "half_even (2 ^ (p - 1) * 2 ^ ?k) (2 ^ ?k) \<le> half_even m (2 ^ ?k)"
    by (intro half_even_mono) auto
  then have "2 ^ (p - 1) \<le> half_even m (2 ^ ?k)" by (simp add: half_even_exact)
  then show ?thesis by (simp only: round_mag_def Let_def split) (rule mult_right_mono, auto)
qed

lemma round_mag_nonneg: "0 \<le> m \<Longrightarrow> 0 \<le> round_mag p m"
proof -
  assume "0 \<le> m"
  then have "half_even 0 (2 ^ excess_bits p m) \<le> half_even m (2 ^ excess_bits p m)"
    by (intro half_even_mono) auto
  then show ?thesis by (simp add: round_mag_def Let_def half_even_def)
qed

lemma excess_bits_mono: "m \<le> m' \<Longrightarrow> excess_bits p m \<le> excess_bits p m'"
proof (induction p m arbitrary: m' rule: excess_bits.induct)
  case (1 p m)
  show ?case
  proof (cases "m < 2 ^ p")
    case True
    then show ?thesis by (simp add: excess_bits_0)
  next
    case False
    with 1 have "excess_bits p (m div 2) \<le> excess_bits p (m' div 2)"
      by (simp add: zdiv_mono1)
    with False 1 show ?thesis
      by (simp add: excess_bits.simps [of p m] excess_bits.simps [of p m'])
  qed
qed

lemma round_mag_mono:
  assumes "0 \<le> m" "m \<le> m'" "0 < p"
  shows "round_mag p m \<le> round_mag p m'"
proof (cases "excess_bits p m = excess_bits p m'")
  case True
  then show ?thesis
    using assms by (simp add: round_mag_def Let_def half_even_mono mult_right_mono)
next
  case False
  with excess_bits_mono [OF assms(2), of p]
  have less: "excess_bits p m < excess_bits p m'" by simp
  have "round_mag p m \<le> 2 ^ (p + excess_bits p m)"
    by (rule round_mag_upper [OF assms(1)])
  also have "\<dots> \<le> 2 ^ (p + excess_bits p m' - 1)"
    using less by (intro power_increasing) auto
  also have "\<dots> \<le> round_mag p m'"
    using less assms by (intro round_mag_lower) auto
  finally show ?thesis .
qed

lemma round_mag_multiple:
  assumes "0 \<le> c" "c < 2 ^ p"
  shows "round_mag p (c * 2 ^ k) = c * 2 ^ k"
proof -
  let ?j = "excess_bits p (c * 2 ^ k)"
  have "?j \<le> k"
  proof (rule ccontr)
    assume "\<not> ?j \<le> k"
    then have "0 < ?j" "k < ?j" by auto
    have "2 ^ (p + k) \<le> (2::int) ^ (p + ?j - 1)"
      using \<open>k < ?j\<close> by (intro power_increasing) auto
    also have "\<dots> \<le> c * 2 ^ k" by (rule excess_bits_lower [OF \<open>0 < ?j\<close>])
    finally show False using assms by (simp add: power_add)
  qed
  then have "c * 2 ^ k = (c * 2 ^ (k - ?j)) * 2 ^ ?j"
    by (simp add: power_add [symmetric])
  then have "half_even (c * 2 ^ k) (2 ^ ?j) = c * 2 ^ (k - ?j)"
    by (metis half_even_exact zero_less_numeral zero_less_power)
  with \<open>c * 2 ^ k = (c * 2 ^ (k - ?j)) * 2 ^ ?j\<close> show ?thesis
    by (simp only: round_mag_def Let_def)
qed

lemma round_mag_idem:
  assumes "0 \<le> m" "0 < p"
  shows "round_mag p (round_mag p m) = round_mag p m"
proof -
  let ?k = "excess_bits p m" let ?q = "half_even m (2 ^ ?k)"
  have r: "round_mag p m = ?q * 2 ^ ?k" by (simp add: round_mag_def Let_def)
  have q0: "0 \<le> ?q" using round_mag_nonneg [OF assms(1), of p] r by (simp add: zero_le_mult_iff)
  have "?q \<le> 2 ^ p"
    using round_mag_upper [OF assms(1), of p] r by (simp add: power_add)
  then consider "?q < 2 ^ p" | "?q = 2 ^ p" by linarith
  then show ?thesis
  proof cases
    case 1
    then show ?thesis using q0 by (simp add: r round_mag_multiple)
  next
    case 2
    then have "?q * 2 ^ ?k = 2 ^ (p - 1) * 2 ^ (Suc ?k)"
      using assms by (cases p) simp_all
    moreover have "(2::int) ^ (p - 1) < 2 ^ p"
      using assms by (intro power_strict_increasing) auto
    ultimately show ?thesis by (simp only: r) (rule round_mag_multiple, simp_all)
  qed
qed

text \<open>
  What the order book needs of a rounding function: it is monotone, odd, idempotent and keeps
  the smallest positive value.
\<close>

locale float_format =
  fixes rnd :: "int \<Rightarrow> int"
  assumes rnd_mono: "m \<le> m' \<Longrightarrow> rnd m \<le> rnd m'"
    and rnd_minus: "rnd (- m) = - rnd m"
    and rnd_idem: "rnd (rnd m) = rnd m"
    and rnd_one: "rnd 1 = 1"
begin

definition representable :: "int \<Rightarrow> bool" where
  "representable m \<longleftrightarrow> rnd m = m"

lemma rnd_0 [simp]: "rnd 0 = 0"
  using rnd_minus [of 0] by simp

lemma rnd_pos: "0 < m \<Longrightarrow> 0 < rnd m"
  using rnd_mono [of 1 m] rnd_one by simp

lemma rnd_nonneg: "0 \<le> m \<Longrightarrow> 0 \<le> rnd m"
  using rnd_mono [of 0 m] by simp

lemma rnd_eq_0_iff [simp]: "rnd m = 0 \<longleftrightarrow> m = 0"
proof
  assume "rnd m = 0"
  then show "m = 0"
    using rnd_pos [of m] rnd_pos [of "- m"] rnd_minus [of m] by (cases "m < 0") fastforce+
qed simp

text \<open>A rounded difference vanishes exactly when the operands agree, and never overshoots.\<close>

lemma sub_eq_0_iff: "rnd (a - b) = 0 \<longleftrightarrow> a = b"
  by simp

lemma sub_nonneg: "b \<le> a \<Longrightarrow> 0 \<le> rnd (a - b)"
  by (simp add: rnd_nonneg)

lemma sub_le: "rnd a = a \<Longrightarrow> 0 \<le> b \<Longrightarrow> rnd (a - b) \<le> a"
  using rnd_mono [of "a - b" a] by simp

lemma add_ge: "rnd b = b \<Longrightarrow> 0 \<le> a \<Longrightarrow> b \<le> rnd (a + b)"
  using rnd_mono [of b "a + b"] by simp

end

lemma round_sig_minus: "round_sig p (- m) = - round_sig p m"
  by (simp add: round_sig_def sgn_minus)

lemma round_sig_nonneg_eq: "0 \<le> m \<Longrightarrow> round_sig p m = round_mag p m"
  by (cases "m = 0") (simp_all add: round_sig_def round_mag_small)

lemma round_sig_mono:
  assumes "m \<le> m'" "0 < p"
  shows "round_sig p m \<le> round_sig p m'"
proof -
  have pos: "round_sig p a \<le> round_sig p b" if "0 \<le> a" "a \<le> b" for a b :: int
    using that assms(2) by (simp add: round_sig_nonneg_eq round_mag_mono)
  have nonneg: "0 \<le> round_sig p a" if "0 \<le> a" for a :: int
    using that by (simp add: round_sig_nonneg_eq round_mag_nonneg)
  consider "0 \<le> m" | "m < 0" "0 \<le> m'" | "m' < 0" by linarith
  then show ?thesis
  proof cases
    case 1
    then show ?thesis using pos assms by simp
  next
    case 2
    then show ?thesis
      using nonneg [of "- m"] nonneg [of m'] round_sig_minus [of p m] by simp
  next
    case 3
    then show ?thesis
      using pos [of "- m'" "- m"] assms by (simp add: round_sig_minus)
  qed
qed

lemma round_sig_idem: "0 < p \<Longrightarrow> round_sig p (round_sig p m) = round_sig p m"
proof -
  assume p: "0 < p"
  have pos: "round_sig p (round_sig p a) = round_sig p a" if "0 \<le> a" for a :: int
    using that p by (simp add: round_sig_nonneg_eq round_mag_nonneg round_mag_idem)
  show ?thesis
    using pos [of m] pos [of "- m"] by (cases "0 \<le> m") (simp_all add: round_sig_minus)
qed

lemma round_sig_small: "\<bar>m\<bar> < 2 ^ p \<Longrightarrow> round_sig p m = m"
  by (simp add: round_sig_def round_mag_small sgn_mult_abs)

interpretation f32: float_format rnd32
  by unfold_locales
     (simp_all add: rnd32_def round_sig_mono round_sig_minus round_sig_idem round_sig_small)

interpretation f64: float_format rnd64
  by unfold_locales
     (simp_all add: rnd64_def round_sig_mono round_sig_minus round_sig_idem round_sig_small)

lemma round_sig_multiple:
  assumes "\<bar>c\<bar> < 2 ^ p"
  shows "round_sig p (c * 2 ^ k) = c * 2 ^ k"
  using assms round_mag_multiple [of "\<bar>c\<bar>" p k]
  by (simp add: round_sig_def abs_mult sgn_mult mult.assoc [symmetric] sgn_mult_abs)

lemma rnd32_fl [float_simps]: "\<bar>n\<bar> < 2 ^ 24 \<Longrightarrow> rnd32 (fl n) = fl n"
  unfolding rnd32_def fl_def by (rule round_sig_multiple)

lemma rnd64_fl [float_simps]: "\<bar>n\<bar> < 2 ^ 53 \<Longrightarrow> rnd64 (fl n) = fl n"
  unfolding rnd64_def fl_def by (rule round_sig_multiple)

lemma fl_diff: "fl a - fl b = fl (a - b)" and fl_add: "fl a + fl b = fl (a + b)"
  by (simp_all add: fl_def algebra_simps)

lemma fl_less_iff [simp]: "fl a < fl b \<longleftrightarrow> a < b"
  and fl_le_iff [simp]: "fl a \<le> fl b \<longleftrightarrow> a \<le> b"
  and fl_eq_iff [simp]: "fl a = fl b \<longleftrightarrow> a = b"
  by (simp_all add: fl_def)

lemma fl_0 [simp]: "fl 0 = 0"
  by (simp add: fl_def)

end
