(* ===== verification/RBTree.thy ===== *)
theory RBTree
  imports Prelude
begin

text \<open>
  The pointer-based red-black tree of \<^verbatim>\<open>src/storage/rbtree.hpp\<close>. Nodes live in a heap, a
  partial map from addresses to node records; address 0 is \<^verbatim>\<open>nullptr\<close> and is never allocated.
  Every dereference goes through the heap and yields \<open>None\<close> when the address is not allocated
  (a null or dangling pointer). A result \<open>None\<close> of an operation therefore means that the
  execution has no defined result: it dereferences a null or freed node, or a loop does not
  end. \<^verbatim>\<open>new\<close> takes addresses from a counter, \<^verbatim>\<open>delete\<close> removes the node from the heap.
  The comparator is the first argument of the operations that compare keys.
\<close>

section \<open>Nodes, trees and the heap\<close>

record 'a node =
  key :: 'a
  is_black :: bool
  parent :: nat
  left :: nat
  right :: nat

record 'a rbtree =
  nodes :: "nat \<rightharpoonup> 'a node"
  fresh :: nat
  nil :: nat
  root :: nat
  first_node :: nat
  last_node :: nat
  tsize :: "64 word"

text \<open>Field reads and writes through a pointer.\<close>

definition get_key :: "'a rbtree \<Rightarrow> nat \<Rightarrow> 'a option" where
  "get_key t p = map_option key (nodes t p)"

definition get_black :: "'a rbtree \<Rightarrow> nat \<Rightarrow> bool option" where
  "get_black t p = map_option is_black (nodes t p)"

definition get_parent :: "'a rbtree \<Rightarrow> nat \<Rightarrow> nat option" where
  "get_parent t p = map_option parent (nodes t p)"

definition get_left :: "'a rbtree \<Rightarrow> nat \<Rightarrow> nat option" where
  "get_left t p = map_option left (nodes t p)"

definition get_right :: "'a rbtree \<Rightarrow> nat \<Rightarrow> nat option" where
  "get_right t p = map_option right (nodes t p)"

definition upd_node :: "('a node \<Rightarrow> 'a node) \<Rightarrow> 'a rbtree \<Rightarrow> nat \<Rightarrow> 'a rbtree option" where
  "upd_node f t p =
     (case nodes t p of None \<Rightarrow> None | Some n \<Rightarrow> Some (t\<lparr>nodes := (nodes t)(p \<mapsto> f n)\<rparr>))"

definition set_key :: "'a rbtree \<Rightarrow> nat \<Rightarrow> 'a \<Rightarrow> 'a rbtree option" where
  "set_key t p k = upd_node (\<lambda>n. n\<lparr>key := k\<rparr>) t p"

definition set_black :: "'a rbtree \<Rightarrow> nat \<Rightarrow> bool \<Rightarrow> 'a rbtree option" where
  "set_black t p b = upd_node (\<lambda>n. n\<lparr>is_black := b\<rparr>) t p"

definition set_parent :: "'a rbtree \<Rightarrow> nat \<Rightarrow> nat \<Rightarrow> 'a rbtree option" where
  "set_parent t p q = upd_node (\<lambda>n. n\<lparr>parent := q\<rparr>) t p"

definition set_left :: "'a rbtree \<Rightarrow> nat \<Rightarrow> nat \<Rightarrow> 'a rbtree option" where
  "set_left t p q = upd_node (\<lambda>n. n\<lparr>left := q\<rparr>) t p"

definition set_right :: "'a rbtree \<Rightarrow> nat \<Rightarrow> nat \<Rightarrow> 'a rbtree option" where
  "set_right t p q = upd_node (\<lambda>n. n\<lparr>right := q\<rparr>) t p"

definition new_node :: "'a rbtree \<Rightarrow> 'a node \<Rightarrow> nat \<times> 'a rbtree" where
  "new_node t n = (fresh t, t\<lparr>nodes := (nodes t)(fresh t \<mapsto> n), fresh := Suc (fresh t)\<rparr>)"

definition delete_node :: "'a rbtree \<Rightarrow> nat \<Rightarrow> 'a rbtree option" where
  "delete_node t p =
     (if nodes t p = None then None else Some (t\<lparr>nodes := (nodes t)(p := None)\<rparr>))"

section \<open>Construction and simple queries\<close>

text \<open>
  The constructor allocates the sentinel \<^verbatim>\<open>_nil\<close> with the default constructor of \<^verbatim>\<open>Node\<close>: null
  links and a default-initialised key, here the parameter \<open>d\<close>.
\<close>

definition new_rbtree :: "'a \<Rightarrow> 'a rbtree" where
  "new_rbtree d =
     \<lparr>nodes = Map.empty(1 \<mapsto> \<lparr>key = d, is_black = True, parent = 0, left = 0, right = 0\<rparr>),
      fresh = 2, nil = 1, root = 1, first_node = 1, last_node = 1, tsize = 0\<rparr>"

definition get_root :: "'a rbtree \<Rightarrow> nat" where
  "get_root t = (if root t = nil t then nil t else root t)"

definition rb_first :: "'a rbtree \<Rightarrow> 'a option option" where
  "rb_first t =
     (if first_node t = nil t then Some None else map_option Some (get_key t (first_node t)))"

definition rb_last :: "'a rbtree \<Rightarrow> 'a option option" where
  "rb_last t =
     (if last_node t = nil t then Some None else map_option Some (get_key t (last_node t)))"

definition rb_size :: "'a rbtree \<Rightarrow> 64 word" where
  "rb_size t = tsize t"

partial_function (option) most_left :: "'a rbtree \<Rightarrow> nat \<Rightarrow> nat option" where
  "most_left t node =
     do {
       l \<leftarrow> get_left t node;
       if l \<noteq> nil t then most_left t l else Some node
     }"

partial_function (option) most_right :: "'a rbtree \<Rightarrow> nat \<Rightarrow> nat option" where
  "most_right t node =
     do {
       r \<leftarrow> get_right t node;
       if r \<noteq> nil t then most_right t r else Some node
     }"

partial_function (option) search_tree ::
    "('a \<Rightarrow> 'a \<Rightarrow> bool) \<Rightarrow> 'a rbtree \<Rightarrow> nat \<Rightarrow> 'a \<Rightarrow> nat option" where
  "search_tree lt t node v =
     (if node \<noteq> nil t then
        do {
          k \<leftarrow> get_key t node;
          if lt v k then do { l \<leftarrow> get_left t node; search_tree lt t l v }
          else if lt k v then do { r \<leftarrow> get_right t node; search_tree lt t r v }
          else Some node
        }
      else Some (nil t))"

definition rb_find :: "('a \<Rightarrow> 'a \<Rightarrow> bool) \<Rightarrow> 'a rbtree \<Rightarrow> 'a \<Rightarrow> 'a option option" where
  "rb_find lt t v =
     do {
       found_node \<leftarrow> search_tree lt t (root t) v;
       if found_node = nil t then Some None else map_option Some (get_key t found_node)
     }"

definition rb_contains :: "('a \<Rightarrow> 'a \<Rightarrow> bool) \<Rightarrow> 'a rbtree \<Rightarrow> 'a \<Rightarrow> bool option" where
  "rb_contains lt t v = map_option (\<lambda>r. r \<noteq> None) (rb_find lt t v)"

section \<open>Rotations\<close>

definition rotate_right :: "'a rbtree \<Rightarrow> nat \<Rightarrow> 'a rbtree option" where
  "rotate_right t node =
     do {
       child_left \<leftarrow> get_left t node;
       clr \<leftarrow> get_right t child_left;
       t \<leftarrow> set_left t node clr;
       t \<leftarrow> (if clr \<noteq> nil t then set_parent t clr node else Some t);
       np \<leftarrow> get_parent t node;
       t \<leftarrow> set_parent t child_left np;
       t \<leftarrow> (if np = nil t then Some (t\<lparr>root := child_left\<rparr>)
            else do {
              npr \<leftarrow> get_right t np;
              if node = npr then set_right t np child_left else set_left t np child_left
            });
       t \<leftarrow> set_right t child_left node;
       set_parent t node child_left
     }"

definition rotate_left :: "'a rbtree \<Rightarrow> nat \<Rightarrow> 'a rbtree option" where
  "rotate_left t node =
     do {
       child_right \<leftarrow> get_right t node;
       crl \<leftarrow> get_left t child_right;
       t \<leftarrow> set_right t node crl;
       t \<leftarrow> (if crl \<noteq> nil t then set_parent t crl node else Some t);
       np \<leftarrow> get_parent t node;
       t \<leftarrow> set_parent t child_right np;
       t \<leftarrow> (if np = nil t then Some (t\<lparr>root := child_right\<rparr>)
            else do {
              npl \<leftarrow> get_left t np;
              if node = npl then set_left t np child_right else set_right t np child_right
            });
       t \<leftarrow> set_left t child_right node;
       set_parent t node child_right
     }"

section \<open>Insertion\<close>

text \<open>
  One iteration of the loop of \<^verbatim>\<open>rebalance_insert\<close> for a node whose parent is a right child
  (\<open>rebalance_insert_right\<close>, lines 515 to 530) and for one whose parent is a left child
  (\<open>rebalance_insert_left\<close>, lines 531 to 548). The result is the new tree and the node the
  loop continues with.
\<close>

definition rebalance_insert_right :: "'a rbtree \<Rightarrow> nat \<Rightarrow> ('a rbtree \<times> nat) option" where
  "rebalance_insert_right t node =
     do {
       p \<leftarrow> get_parent t node;
       g \<leftarrow> get_parent t p;
       u \<leftarrow> get_left t g;
       ub \<leftarrow> get_black t u;
       if \<not> ub then
         do {
           t \<leftarrow> set_black t u True;
           t \<leftarrow> set_black t p True;
           t \<leftarrow> set_black t g False;
           Some (t, g)
         }
       else
         do {
           pl \<leftarrow> get_left t p;
           (t, node) \<leftarrow> (if node = pl then do { t \<leftarrow> rotate_right t p; Some (t, p) }
                         else Some (t, node));
           p \<leftarrow> get_parent t node;
           t \<leftarrow> set_black t p True;
           g \<leftarrow> get_parent t p;
           t \<leftarrow> set_black t g False;
           t \<leftarrow> rotate_left t g;
           Some (t, node)
         }
     }"

definition rebalance_insert_left :: "'a rbtree \<Rightarrow> nat \<Rightarrow> ('a rbtree \<times> nat) option" where
  "rebalance_insert_left t node =
     do {
       p \<leftarrow> get_parent t node;
       g \<leftarrow> get_parent t p;
       u \<leftarrow> get_right t g;
       ub \<leftarrow> get_black t u;
       if \<not> ub then
         do {
           t \<leftarrow> set_black t u True;
           t \<leftarrow> set_black t p True;
           t \<leftarrow> set_black t g False;
           Some (t, g)
         }
       else
         do {
           pr \<leftarrow> get_right t p;
           (t, node) \<leftarrow> (if node = pr then do { t \<leftarrow> rotate_left t p; Some (t, p) }
                         else Some (t, node));
           p \<leftarrow> get_parent t node;
           t \<leftarrow> set_black t p True;
           g \<leftarrow> get_parent t p;
           t \<leftarrow> set_black t g False;
           t \<leftarrow> rotate_right t g;
           Some (t, node)
         }
     }"

partial_function (option) rebalance_insert_loop :: "'a rbtree \<Rightarrow> nat \<Rightarrow> 'a rbtree option" where
  "rebalance_insert_loop t node =
     (if node = root t then Some t
      else do {
        p \<leftarrow> get_parent t node;
        pb \<leftarrow> get_black t p;
        if pb then Some t
        else do {
          g \<leftarrow> get_parent t p;
          gr \<leftarrow> get_right t g;
          (t, node) \<leftarrow> (if p = gr then rebalance_insert_right t node
                        else rebalance_insert_left t node);
          rebalance_insert_loop t node
        }
      })"

definition rebalance_insert :: "'a rbtree \<Rightarrow> nat \<Rightarrow> 'a rbtree option" where
  "rebalance_insert t node =
     do { t \<leftarrow> rebalance_insert_loop t node; set_black t (root t) True }"

text \<open>
  The descent of \<^verbatim>\<open>insert\<close>: \<open>Inl n\<close> when an equal key was met at node \<open>n\<close>, otherwise
  \<open>Inr (parent, is_less)\<close>.
\<close>

partial_function (option) insert_descend ::
    "('a \<Rightarrow> 'a \<Rightarrow> bool) \<Rightarrow> 'a rbtree \<Rightarrow> 'a \<Rightarrow> nat \<Rightarrow> nat \<Rightarrow> bool \<Rightarrow> (nat + nat \<times> bool) option" where
  "insert_descend lt t v par current is_less =
     (if current \<noteq> nil t then
        do {
          k \<leftarrow> get_key t current;
          if lt v k then do { l \<leftarrow> get_left t current; insert_descend lt t v current l True }
          else if lt k v then do { r \<leftarrow> get_right t current; insert_descend lt t v current r False }
          else Some (Inl current)
        }
      else Some (Inr (par, is_less)))"

definition link_new_node :: "'a rbtree \<Rightarrow> 'a \<Rightarrow> nat \<Rightarrow> bool \<Rightarrow> ('a rbtree \<times> nat) option" where
  "link_new_node t v par is_less =
     do {
       (n, t) \<leftarrow> Some (new_node t \<lparr>key = v, is_black = False, parent = par,
                                   left = nil t, right = nil t\<rparr>);
       t \<leftarrow> (if par = nil t then Some (t\<lparr>root := n, first_node := n, last_node := n\<rparr>)
            else if is_less then set_left t par n
            else set_right t par n);
       fl \<leftarrow> get_left t (first_node t);
       t \<leftarrow> Some (if fl \<noteq> nil t then t\<lparr>first_node := fl\<rparr> else t);
       lr \<leftarrow> get_right t (last_node t);
       t \<leftarrow> Some (if lr \<noteq> nil t then t\<lparr>last_node := lr\<rparr> else t);
       Some (t, n)
     }"

definition rb_insert :: "('a \<Rightarrow> 'a \<Rightarrow> bool) \<Rightarrow> 'a rbtree \<Rightarrow> 'a \<Rightarrow> 'a rbtree option" where
  "rb_insert lt t v =
     do {
       d \<leftarrow> insert_descend lt t v (nil t) (root t) True;
       (case d of
          Inl current \<Rightarrow> set_key t current v
        | Inr (par, is_less) \<Rightarrow>
            do {
              (t, n) \<leftarrow> link_new_node t v par is_less;
              t \<leftarrow> rebalance_insert t n;
              Some (t\<lparr>tsize := tsize t + 1\<rparr>)
            })
     }"

section \<open>Removal\<close>

definition transplant :: "'a rbtree \<Rightarrow> nat \<Rightarrow> nat \<Rightarrow> 'a rbtree option" where
  "transplant t u v =
     do {
       up \<leftarrow> get_parent t u;
       t \<leftarrow> (if up = nil t then Some (t\<lparr>root := v\<rparr>)
            else do {
              upl \<leftarrow> get_left t up;
              if u = upl then set_left t up v else set_right t up v
            });
       up \<leftarrow> get_parent t u;
       set_parent t v up
     }"

text \<open>
  One iteration of the loop of \<^verbatim>\<open>rebalance_delete\<close> for a left child (lines 555 to 580) and for a
  right child (lines 581 to 607).
\<close>

definition rebalance_delete_left :: "'a rbtree \<Rightarrow> nat \<Rightarrow> ('a rbtree \<times> nat) option" where
  "rebalance_delete_left t node =
     do {
       p \<leftarrow> get_parent t node;
       parent_right \<leftarrow> get_right t p;
       sb \<leftarrow> get_black t parent_right;
       (t, parent_right) \<leftarrow>
         (if \<not> sb then
            do {
              t \<leftarrow> set_black t parent_right True;
              p \<leftarrow> get_parent t node;
              t \<leftarrow> set_black t p False;
              t \<leftarrow> rotate_left t p;
              p \<leftarrow> get_parent t node;
              s \<leftarrow> get_right t p;
              Some (t, s)
            }
          else Some (t, parent_right));
       sl \<leftarrow> get_left t parent_right;
       slb \<leftarrow> get_black t sl;
       sr \<leftarrow> get_right t parent_right;
       srb \<leftarrow> get_black t sr;
       if slb \<and> srb then
         do {
           t \<leftarrow> set_black t parent_right False;
           p \<leftarrow> get_parent t node;
           Some (t, p)
         }
       else
         do {
           (t, parent_right) \<leftarrow>
             (if srb then
                do {
                  t \<leftarrow> set_black t sl True;
                  t \<leftarrow> set_black t parent_right False;
                  t \<leftarrow> rotate_right t parent_right;
                  p \<leftarrow> get_parent t node;
                  s \<leftarrow> get_right t p;
                  Some (t, s)
                }
              else Some (t, parent_right));
           p \<leftarrow> get_parent t node;
           pb \<leftarrow> get_black t p;
           t \<leftarrow> set_black t parent_right pb;
           t \<leftarrow> set_black t p True;
           sr \<leftarrow> get_right t parent_right;
           t \<leftarrow> set_black t sr True;
           p \<leftarrow> get_parent t node;
           t \<leftarrow> rotate_left t p;
           Some (t, root t)
         }
     }"

definition rebalance_delete_right :: "'a rbtree \<Rightarrow> nat \<Rightarrow> ('a rbtree \<times> nat) option" where
  "rebalance_delete_right t node =
     do {
       p \<leftarrow> get_parent t node;
       parent_left \<leftarrow> get_left t p;
       sb \<leftarrow> get_black t parent_left;
       (t, parent_left) \<leftarrow>
         (if \<not> sb then
            do {
              t \<leftarrow> set_black t parent_left True;
              p \<leftarrow> get_parent t node;
              t \<leftarrow> set_black t p False;
              t \<leftarrow> rotate_right t p;
              p \<leftarrow> get_parent t node;
              s \<leftarrow> get_left t p;
              Some (t, s)
            }
          else Some (t, parent_left));
       sr \<leftarrow> get_right t parent_left;
       srb \<leftarrow> get_black t sr;
       sl \<leftarrow> get_left t parent_left;
       slb \<leftarrow> get_black t sl;
       if srb \<and> slb then
         do {
           t \<leftarrow> set_black t parent_left False;
           p \<leftarrow> get_parent t node;
           Some (t, p)
         }
       else
         do {
           (t, parent_left) \<leftarrow>
             (if slb then
                do {
                  t \<leftarrow> set_black t sr True;
                  t \<leftarrow> set_black t parent_left False;
                  t \<leftarrow> rotate_left t parent_left;
                  p \<leftarrow> get_parent t node;
                  s \<leftarrow> get_left t p;
                  Some (t, s)
                }
              else Some (t, parent_left));
           p \<leftarrow> get_parent t node;
           pb \<leftarrow> get_black t p;
           t \<leftarrow> set_black t parent_left pb;
           t \<leftarrow> set_black t p True;
           sl \<leftarrow> get_left t parent_left;
           t \<leftarrow> set_black t sl True;
           p \<leftarrow> get_parent t node;
           t \<leftarrow> rotate_right t p;
           Some (t, root t)
         }
     }"

partial_function (option) rebalance_delete_loop ::
    "'a rbtree \<Rightarrow> nat \<Rightarrow> ('a rbtree \<times> nat) option" where
  "rebalance_delete_loop t node =
     (if node = root t then Some (t, node)
      else do {
        b \<leftarrow> get_black t node;
        if \<not> b then Some (t, node)
        else do {
          p \<leftarrow> get_parent t node;
          pl \<leftarrow> get_left t p;
          (t, node) \<leftarrow> (if node = pl then rebalance_delete_left t node
                        else rebalance_delete_right t node);
          rebalance_delete_loop t node
        }
      })"

definition rebalance_delete :: "'a rbtree \<Rightarrow> nat \<Rightarrow> 'a rbtree option" where
  "rebalance_delete t node =
     do { (t, node) \<leftarrow> rebalance_delete_loop t node; set_black t node True }"

text \<open>The update of \<^verbatim>\<open>_first\<close> and \<^verbatim>\<open>_last\<close> at the start of \<^verbatim>\<open>remove(Node*)\<close> (lines 449 to 462).\<close>

definition remove_ends :: "'a rbtree \<Rightarrow> nat \<Rightarrow> 'a rbtree option" where
  "remove_ends t node =
     (if node = first_node t then
        do {
          r \<leftarrow> get_right t node;
          if r \<noteq> nil t then Some (t\<lparr>first_node := r\<rparr>)
          else do { p \<leftarrow> get_parent t node; Some (t\<lparr>first_node := p\<rparr>) }
        }
      else if node = last_node t then
        do {
          l \<leftarrow> get_left t node;
          if l \<noteq> nil t then Some (t\<lparr>last_node := l\<rparr>)
          else do { p \<leftarrow> get_parent t node; Some (t\<lparr>last_node := p\<rparr>) }
        }
      else Some t)"

text \<open>
  Unlinking the node (lines 465 to 489); the result carries the colour that left the tree and
  the node where the black height may be short.
\<close>

definition unlink_node :: "'a rbtree \<Rightarrow> nat \<Rightarrow> ('a rbtree \<times> bool \<times> nat) option" where
  "unlink_node t node =
     do {
       original_color \<leftarrow> get_black t node;
       l \<leftarrow> get_left t node;
       r \<leftarrow> get_right t node;
       if l = nil t then
         do { t \<leftarrow> transplant t node r; Some (t, original_color, r) }
       else if r = nil t then
         do { t \<leftarrow> transplant t node l; Some (t, original_color, l) }
       else
         do {
           pom \<leftarrow> most_left t r;
           original_color \<leftarrow> get_black t pom;
           fix_node \<leftarrow> get_right t pom;
           pp \<leftarrow> get_parent t pom;
           t \<leftarrow> (if pp = node then set_parent t fix_node pom
                else do {
                  t \<leftarrow> transplant t pom fix_node;
                  nr \<leftarrow> get_right t node;
                  t \<leftarrow> set_right t pom nr;
                  set_parent t nr pom
                });
           t \<leftarrow> transplant t node pom;
           nl \<leftarrow> get_left t node;
           t \<leftarrow> set_left t pom nl;
           t \<leftarrow> set_parent t nl pom;
           nb \<leftarrow> get_black t node;
           t \<leftarrow> set_black t pom nb;
           Some (t, original_color, fix_node)
         }
     }"

definition remove_node :: "'a rbtree \<Rightarrow> nat \<Rightarrow> 'a rbtree option" where
  "remove_node t node =
     do {
       t \<leftarrow> remove_ends t node;
       (t, original_color, fix_node) \<leftarrow> unlink_node t node;
       t \<leftarrow> delete_node t node;
       if original_color then rebalance_delete t fix_node else Some t
     }"

definition rb_remove ::
    "('a \<Rightarrow> 'a \<Rightarrow> bool) \<Rightarrow> 'a rbtree \<Rightarrow> 'a \<Rightarrow> ('a rbtree \<times> bool) option" where
  "rb_remove lt t k =
     do {
       node \<leftarrow> search_tree lt t (root t) k;
       if node = nil t then Some (t, False)
       else do {
         t \<leftarrow> remove_node t node;
         Some (t\<lparr>tsize := tsize t - 1\<rparr>, True)
       }
     }"

partial_function (option) clear_from :: "'a rbtree \<Rightarrow> nat \<Rightarrow> 'a rbtree option" where
  "clear_from t node =
     (if node = nil t then Some t
      else do {
        l \<leftarrow> get_left t node;
        t \<leftarrow> clear_from t l;
        r \<leftarrow> get_right t node;
        t \<leftarrow> clear_from t r;
        t \<leftarrow> delete_node t node;
        Some (t\<lparr>tsize := tsize t - 1\<rparr>)
      })"

definition rb_clear :: "'a rbtree \<Rightarrow> 'a rbtree option" where
  "rb_clear t = do { t \<leftarrow> clear_from t (root t); Some (t\<lparr>root := nil t\<rparr>) }"

section \<open>Iteration and bounds\<close>

partial_function (option) successor_up :: "'a rbtree \<Rightarrow> nat \<Rightarrow> nat \<Rightarrow> nat option" where
  "successor_up t node successor_node =
     (if successor_node \<noteq> 0 \<and> successor_node \<noteq> nil t then
        do {
          r \<leftarrow> get_right t successor_node;
          if node = r then
            do { p \<leftarrow> get_parent t successor_node; successor_up t successor_node p }
          else Some successor_node
        }
      else Some successor_node)"

definition successor :: "'a rbtree \<Rightarrow> nat \<Rightarrow> nat option" where
  "successor t node =
     do {
       r \<leftarrow> get_right t node;
       if r \<noteq> nil t then most_left t r
       else do { p \<leftarrow> get_parent t node; successor_up t node p }
     }"

partial_function (option) predecessor_up :: "'a rbtree \<Rightarrow> nat \<Rightarrow> nat \<Rightarrow> nat option" where
  "predecessor_up t node predecessor_node =
     (if predecessor_node \<noteq> nil t then
        do {
          l \<leftarrow> get_left t predecessor_node;
          if node = l then
            do { p \<leftarrow> get_parent t predecessor_node; predecessor_up t predecessor_node p }
          else Some predecessor_node
        }
      else Some predecessor_node)"

definition predecessor :: "'a rbtree \<Rightarrow> nat \<Rightarrow> nat option" where
  "predecessor t node =
     do {
       l \<leftarrow> get_left t node;
       if l \<noteq> nil t then most_right t l
       else do { p \<leftarrow> get_parent t node; predecessor_up t node p }
     }"

text \<open>
  An iterator is the address it holds. \<^verbatim>\<open>ForwardRBTreeIterator\<close> increments with \<open>successor\<close> and
  decrements with \<open>predecessor\<close>, \<^verbatim>\<open>ReverseRBTreeIterator\<close> the other way round. A postfix operator
  returns the old iterator besides the moved one. The order of the keys, \<^verbatim>\<open>operator>\<close> of the key
  type, is an argument of \<open>it_greater\<close>.
\<close>

definition forward_inc :: "'a rbtree \<Rightarrow> nat \<Rightarrow> nat option" where
  "forward_inc t it = successor t it"

definition forward_post_inc :: "'a rbtree \<Rightarrow> nat \<Rightarrow> (nat \<times> nat) option" where
  "forward_post_inc t it = do { moved \<leftarrow> forward_inc t it; Some (it, moved) }"

definition forward_dec :: "'a rbtree \<Rightarrow> nat \<Rightarrow> nat option" where
  "forward_dec t it = predecessor t it"

definition forward_post_dec :: "'a rbtree \<Rightarrow> nat \<Rightarrow> (nat \<times> nat) option" where
  "forward_post_dec t it = do { moved \<leftarrow> forward_dec t it; Some (it, moved) }"

definition reverse_inc :: "'a rbtree \<Rightarrow> nat \<Rightarrow> nat option" where
  "reverse_inc t it = predecessor t it"

definition reverse_post_inc :: "'a rbtree \<Rightarrow> nat \<Rightarrow> (nat \<times> nat) option" where
  "reverse_post_inc t it = do { moved \<leftarrow> reverse_inc t it; Some (it, moved) }"

definition reverse_dec :: "'a rbtree \<Rightarrow> nat \<Rightarrow> nat option" where
  "reverse_dec t it = successor t it"

definition reverse_post_dec :: "'a rbtree \<Rightarrow> nat \<Rightarrow> (nat \<times> nat) option" where
  "reverse_post_dec t it = do { moved \<leftarrow> reverse_dec t it; Some (it, moved) }"

definition it_deref :: "'a rbtree \<Rightarrow> nat \<Rightarrow> 'a option" where
  "it_deref t it = get_key t it"

definition it_equal :: "nat \<Rightarrow> nat \<Rightarrow> bool" where
  "it_equal it other \<longleftrightarrow> it = other"

definition it_not_equal :: "nat \<Rightarrow> nat \<Rightarrow> bool" where
  "it_not_equal it other \<longleftrightarrow> it \<noteq> other"

definition it_greater :: "('a \<Rightarrow> 'a \<Rightarrow> bool) \<Rightarrow> 'a rbtree \<Rightarrow> nat \<Rightarrow> nat \<Rightarrow> bool option" where
  "it_greater gt t it other = do { k \<leftarrow> get_key t it; j \<leftarrow> get_key t other; Some (gt k j) }"

definition begin_it :: "'a rbtree \<Rightarrow> nat" where
  "begin_it t = first_node t"

definition rbegin_it :: "'a rbtree \<Rightarrow> nat" where
  "rbegin_it t = last_node t"

definition valid_it :: "'a rbtree \<Rightarrow> nat \<Rightarrow> bool" where
  "valid_it t it \<longleftrightarrow> it \<noteq> nil t"

partial_function (option) iterate :: "'a rbtree \<Rightarrow> nat \<Rightarrow> 'a list \<Rightarrow> 'a list option" where
  "iterate t it acc =
     (if valid_it t it then
        do { k \<leftarrow> get_key t it; it' \<leftarrow> successor t it; iterate t it' (acc @ [k]) }
      else Some acc)"

partial_function (option) lower_bound_loop ::
    "('a \<Rightarrow> 'a \<Rightarrow> bool) \<Rightarrow> 'a rbtree \<Rightarrow> 'a \<Rightarrow> nat \<Rightarrow> nat \<Rightarrow> nat option" where
  "lower_bound_loop lt t from node result =
     (if node \<noteq> nil t then
        do {
          k \<leftarrow> get_key t node;
          if lt k from then do { r \<leftarrow> get_right t node; lower_bound_loop lt t from r result }
          else do { l \<leftarrow> get_left t node; lower_bound_loop lt t from l node }
        }
      else Some result)"

definition lower_bound :: "('a \<Rightarrow> 'a \<Rightarrow> bool) \<Rightarrow> 'a rbtree \<Rightarrow> 'a \<Rightarrow> nat option" where
  "lower_bound lt t from = lower_bound_loop lt t from (root t) (last_node t)"

partial_function (option) upper_bound_loop ::
    "('a \<Rightarrow> 'a \<Rightarrow> bool) \<Rightarrow> 'a rbtree \<Rightarrow> 'a \<Rightarrow> nat \<Rightarrow> nat \<Rightarrow> nat option" where
  "upper_bound_loop lt t to node result =
     (if node \<noteq> nil t then
        do {
          k \<leftarrow> get_key t node;
          if \<not> lt to k then do { r \<leftarrow> get_right t node; upper_bound_loop lt t to r result }
          else do { l \<leftarrow> get_left t node; upper_bound_loop lt t to l node }
        }
      else Some result)"

definition upper_bound :: "('a \<Rightarrow> 'a \<Rightarrow> bool) \<Rightarrow> 'a rbtree \<Rightarrow> 'a \<Rightarrow> nat option" where
  "upper_bound lt t to = upper_bound_loop lt t to (root t) (last_node t)"

definition rb_range ::
    "('a \<Rightarrow> 'a \<Rightarrow> bool) \<Rightarrow> 'a rbtree \<Rightarrow> 'a \<Rightarrow> 'a \<Rightarrow> (nat \<times> nat) option" where
  "rb_range lt t from to =
     do { a \<leftarrow> lower_bound lt t from; b \<leftarrow> upper_bound lt t to; Some (a, b) }"

text \<open>The three print functions; their result is the sequence of keys they write.\<close>

partial_function (option) pre_order_print_from :: "'a rbtree \<Rightarrow> nat \<Rightarrow> 'a list option" where
  "pre_order_print_from t node =
     (if node \<noteq> nil t then
        do {
          k \<leftarrow> get_key t node;
          l \<leftarrow> get_left t node;
          out_l \<leftarrow> pre_order_print_from t l;
          r \<leftarrow> get_right t node;
          out_r \<leftarrow> pre_order_print_from t r;
          Some ([k] @ out_l @ out_r)
        }
      else Some [])"

partial_function (option) in_order_print_from :: "'a rbtree \<Rightarrow> nat \<Rightarrow> 'a list option" where
  "in_order_print_from t node =
     (if node \<noteq> nil t then
        do {
          l \<leftarrow> get_left t node;
          out_l \<leftarrow> in_order_print_from t l;
          k \<leftarrow> get_key t node;
          r \<leftarrow> get_right t node;
          out_r \<leftarrow> in_order_print_from t r;
          Some (out_l @ [k] @ out_r)
        }
      else Some [])"

partial_function (option) post_order_print_from :: "'a rbtree \<Rightarrow> nat \<Rightarrow> 'a list option" where
  "post_order_print_from t node =
     (if node \<noteq> nil t then
        do {
          l \<leftarrow> get_left t node;
          out_l \<leftarrow> post_order_print_from t l;
          r \<leftarrow> get_right t node;
          out_r \<leftarrow> post_order_print_from t r;
          k \<leftarrow> get_key t node;
          Some (out_l @ out_r @ [k])
        }
      else Some [])"

definition pre_order_print :: "'a rbtree \<Rightarrow> 'a list option" where
  "pre_order_print t = pre_order_print_from t (root t)"

definition in_order_print :: "'a rbtree \<Rightarrow> 'a list option" where
  "in_order_print t = in_order_print_from t (root t)"

definition post_order_print :: "'a rbtree \<Rightarrow> 'a list option" where
  "post_order_print t = post_order_print_from t (root t)"

text \<open>The equations of the partial functions serve evaluation.\<close>

declare most_left.simps [code] most_right.simps [code] search_tree.simps [code]
declare rebalance_insert_loop.simps [code] insert_descend.simps [code]
declare rebalance_delete_loop.simps [code] clear_from.simps [code]
declare successor_up.simps [code] predecessor_up.simps [code] iterate.simps [code]
declare lower_bound_loop.simps [code] upper_bound_loop.simps [code]
declare pre_order_print_from.simps [code] in_order_print_from.simps [code] post_order_print_from.simps [code]

end
