(* ===== verification/RBTree_Shape.thy ===== *)
theory RBTree_Shape
  imports RBTree
begin

text \<open>
  What a node heap represents. A \<open>shape\<close> is the tree of colours, addresses and keys the
  pointers describe; a path of \<open>frame\<close>s is the way from a subtree up to the root, so that
  \<open>plug fs s\<close> is the whole tree with the subtree \<open>s\<close> in focus. The theory relates field
  writes, rotations and transplants on the heap to the tree with the same focus.
\<close>

section \<open>Shapes and paths\<close>

datatype 'a shape = Tip | Br bool "'a shape" nat 'a "'a shape"

datatype 'a frame = InL bool nat 'a "'a shape" | InR bool "'a shape" nat 'a

fun entries :: "'a shape \<Rightarrow> (nat \<times> 'a) list" where
  "entries Tip = []"
| "entries (Br c l a k r) = entries l @ (a, k) # entries r"

fun addrs :: "'a shape \<Rightarrow> nat list" where
  "addrs Tip = []"
| "addrs (Br c l a k r) = addrs l @ a # addrs r"

fun topaddr :: "nat \<Rightarrow> 'a shape \<Rightarrow> nat" where
  "topaddr n Tip = n"
| "topaddr n (Br c l a k r) = a"

fun plug1 :: "'a frame \<Rightarrow> 'a shape \<Rightarrow> 'a shape" where
  "plug1 (InL c a k r) s = Br c s a k r"
| "plug1 (InR c l a k) s = Br c l a k s"

fun plug :: "'a frame list \<Rightarrow> 'a shape \<Rightarrow> 'a shape" where
  "plug [] s = s"
| "plug (f # fs) s = plug fs (plug1 f s)"

fun faddr :: "'a frame \<Rightarrow> nat" where
  "faddr (InL c a k r) = a"
| "faddr (InR c l a k) = a"

fun above :: "nat \<Rightarrow> 'a frame list \<Rightarrow> nat" where
  "above n [] = n"
| "above n (f # fs) = faddr f"

fun before :: "'a frame list \<Rightarrow> (nat \<times> 'a) list" where
  "before [] = []"
| "before (InL c a k r # fs) = before fs"
| "before (InR c l a k # fs) = before fs @ entries l @ [(a, k)]"

fun after :: "'a frame list \<Rightarrow> (nat \<times> 'a) list" where
  "after [] = []"
| "after (InL c a k r # fs) = (a, k) # entries r @ after fs"
| "after (InR c l a k # fs) = after fs"

text \<open>The addresses on a path, left of the focus and right of it.\<close>

fun addrs_before :: "'a frame list \<Rightarrow> nat list" where
  "addrs_before [] = []"
| "addrs_before (InL c a k r # fs) = addrs_before fs"
| "addrs_before (InR c l a k # fs) = addrs_before fs @ addrs l @ [a]"

fun addrs_after :: "'a frame list \<Rightarrow> nat list" where
  "addrs_after [] = []"
| "addrs_after (InL c a k r # fs) = a # addrs r @ addrs_after fs"
| "addrs_after (InR c l a k # fs) = addrs_after fs"

definition path_addrs :: "'a frame list \<Rightarrow> nat set" where
  "path_addrs fs = set (addrs_before fs) \<union> set (addrs_after fs)"

lemma path_addrs_simps [simp]:
  "path_addrs [] = {}"
  "path_addrs (InL c a k r # fs) = insert a (set (addrs r) \<union> path_addrs fs)"
  "path_addrs (InR c l a k # fs) = insert a (set (addrs l) \<union> path_addrs fs)"
  by (auto simp: path_addrs_def)

lemma map_fst_entries: "map fst (entries s) = addrs s"
  by (induction s) auto

lemma addrs_plug [simp]: "addrs (plug fs s) = addrs_before fs @ addrs s @ addrs_after fs"
proof (induction fs arbitrary: s)
  case (Cons f fs)
  then show ?case by (cases f) auto
qed simp

lemma entries_plug [simp]: "entries (plug fs s) = before fs @ entries s @ after fs"
proof (induction fs arbitrary: s)
  case (Cons f fs)
  then show ?case by (cases f) auto
qed simp

lemma top_plug_cong: "topaddr n s = topaddr n s' \<Longrightarrow> topaddr n (plug fs s) = topaddr n (plug fs s')"
proof (induction fs arbitrary: s s')
  case (Cons f fs)
  then show ?case by (cases f) auto
qed simp

lemma top_plug_neq_Nil: "fs \<noteq> [] \<Longrightarrow> topaddr n (plug fs s) = topaddr n (plug fs s')"
proof (induction fs arbitrary: s s')
  case (Cons f fs)
  show ?case by (cases f) (auto intro: top_plug_cong)
qed simp

section \<open>Representation\<close>

fun repr :: "(nat \<rightharpoonup> 'a node) \<Rightarrow> nat \<Rightarrow> nat \<Rightarrow> 'a shape \<Rightarrow> bool" where
  "repr h n p Tip \<longleftrightarrow> True"
| "repr h n p (Br c l a k r) \<longleftrightarrow>
     h a = Some \<lparr>key = k, is_black = c, parent = p, left = topaddr n l, right = topaddr n r\<rparr> \<and>
     repr h n a l \<and> repr h n a r"

fun repr_path :: "(nat \<rightharpoonup> 'a node) \<Rightarrow> nat \<Rightarrow> nat \<Rightarrow> 'a frame list \<Rightarrow> bool" where
  "repr_path h n x [] \<longleftrightarrow> True"
| "repr_path h n x (InL c a k r # fs) \<longleftrightarrow>
     h a = Some \<lparr>key = k, is_black = c, parent = above n fs, left = x, right = topaddr n r\<rparr> \<and>
     repr h n a r \<and> repr_path h n a fs"
| "repr_path h n x (InR c l a k # fs) \<longleftrightarrow>
     h a = Some \<lparr>key = k, is_black = c, parent = above n fs, left = topaddr n l, right = x\<rparr> \<and>
     repr h n a l \<and> repr_path h n a fs"

lemma repr_plug:
  "repr h n n (plug fs s) \<longleftrightarrow> repr h n (above n fs) s \<and> repr_path h n (topaddr n s) fs"
proof (induction fs arbitrary: s)
  case (Cons f fs)
  then show ?case by (cases f) auto
qed simp

lemma repr_upd [simp]: "a \<notin> set (addrs s) \<Longrightarrow> repr (h(a := v)) n p s = repr h n p s"
  by (induction h n p s rule: repr.induct) auto

lemma repr_path_upd [simp]:
  "a \<notin> path_addrs fs \<Longrightarrow> repr_path (h(a := v)) n x fs = repr_path h n x fs"
  by (induction h n x fs rule: repr_path.induct) auto

text \<open>Only the topmost frame records which address hangs below it.\<close>

fun rehang :: "nat \<Rightarrow> nat \<Rightarrow> 'a frame list \<Rightarrow> (nat \<rightharpoonup> 'a node) \<Rightarrow> (nat \<rightharpoonup> 'a node)" where
  "rehang n y [] h = h"
| "rehang n y (InL c a k r # fs) h =
     h(a \<mapsto> \<lparr>key = k, is_black = c, parent = above n fs, left = y, right = topaddr n r\<rparr>)"
| "rehang n y (InR c l a k # fs) h =
     h(a \<mapsto> \<lparr>key = k, is_black = c, parent = above n fs, left = topaddr n l, right = y\<rparr>)"

lemma repr_cong:
  "(\<And>a. a \<in> set (addrs s) \<Longrightarrow> h a = h' a) \<Longrightarrow> repr h n p s = repr h' n p s"
  by (induction h n p s rule: repr.induct) auto

lemma repr_path_cong:
  assumes "\<And>a. a \<in> path_addrs fs \<Longrightarrow> h a = h' a"
  shows "repr_path h n x fs = repr_path h' n x fs"
  using assms
proof (induction fs arbitrary: x)
  case (Cons f fs)
  show ?case
  proof (cases f)
    case (InL c a k r)
    with Cons.prems have "repr h n a r = repr h' n a r" by (intro repr_cong) auto
    moreover from InL Cons.prems have "repr_path h n a fs = repr_path h' n a fs"
      by (intro Cons.IH) auto
    ultimately show ?thesis using InL Cons.prems by simp
  next
    case (InR c l a k)
    with Cons.prems have "repr h n a l = repr h' n a l" by (intro repr_cong) auto
    moreover from InR Cons.prems have "repr_path h n a fs = repr_path h' n a fs"
      by (intro Cons.IH) auto
    ultimately show ?thesis using InR Cons.prems by simp
  qed
qed simp

lemma repr_dom: "repr h n p s \<Longrightarrow> a \<in> set (addrs s) \<Longrightarrow> h a \<noteq> None"
  by (induction h n p s rule: repr.induct) auto

lemma repr_path_dom: "repr_path h n x fs \<Longrightarrow> a \<in> path_addrs fs \<Longrightarrow> h a \<noteq> None"
  by (induction h n x fs rule: repr_path.induct) (auto dest: repr_dom)

lemma repr_path_rehang:
  assumes "repr_path h n x fs" "distinct (addrs_before fs @ addrs_after fs)"
  shows "repr_path (rehang n y fs h) n y fs"
  using assms
  by (cases "(n, y, fs, h)" rule: rehang.cases) (auto simp: path_addrs_def)

lemma rehang_other: "a \<notin> path_addrs fs \<Longrightarrow> rehang n y fs h a = h a"
  by (cases "(n, y, fs, h)" rule: rehang.cases) auto

lemma above_in: "fs \<noteq> [] \<Longrightarrow> above n fs \<in> path_addrs fs"
  by (cases fs; cases "hd fs") auto

lemma topaddr_in: "topaddr n s \<in> insert n (set (addrs s))"
  by (cases s) auto

text \<open>A subtree hung below another node: only its root changes.\<close>

fun reparent :: "nat \<Rightarrow> nat \<Rightarrow> 'a shape \<Rightarrow> (nat \<rightharpoonup> 'a node) \<Rightarrow> (nat \<rightharpoonup> 'a node)" where
  "reparent n x Tip h = h"
| "reparent n x (Br c l a k r) h =
     h(a \<mapsto> \<lparr>key = k, is_black = c, parent = x, left = topaddr n l, right = topaddr n r\<rparr>)"

lemma repr_reparent:
  "repr h n p s \<Longrightarrow> distinct (addrs s) \<Longrightarrow> repr (reparent n x s h) n x s"
  by (cases s) auto

lemma reparent_other: "a \<notin> set (addrs s) \<Longrightarrow> reparent n x s h a = h a"
  by (cases s) auto

definition rep :: "'a rbtree \<Rightarrow> 'a shape \<Rightarrow> bool" where
  "rep t s \<longleftrightarrow>
     repr (nodes t) (nil t) (nil t) s \<and> root t = topaddr (nil t) s \<and>
     distinct (addrs s) \<and> nil t \<notin> set (addrs s) \<and>
     get_black t (nil t) = Some True \<and>
     nodes t 0 = None \<and> (\<forall>a \<ge> fresh t. nodes t a = None)"

text \<open>The parts of a tree object that rebalancing leaves alone, the sentinel included.\<close>

definition same_meta :: "'a rbtree \<Rightarrow> 'a rbtree \<Rightarrow> bool" where
  "same_meta t t' \<longleftrightarrow>
     fresh t' = fresh t \<and> nil t' = nil t \<and> first_node t' = first_node t \<and>
     last_node t' = last_node t \<and> tsize t' = tsize t \<and> nodes t' (nil t) = nodes t (nil t)"

lemma same_meta_refl [simp]: "same_meta t t"
  by (simp add: same_meta_def)

lemma same_meta_trans [trans]: "same_meta t t' \<Longrightarrow> same_meta t' t'' \<Longrightarrow> same_meta t t''"
  by (simp add: same_meta_def)

lemma same_meta_nil: "same_meta t t' \<Longrightarrow> nil t' = nil t"
  by (simp add: same_meta_def)

section \<open>Reads and writes\<close>

lemma reads [heap_simps]:
  assumes "nodes t p = Some nd"
  shows "get_key t p = Some (key nd)" "get_black t p = Some (is_black nd)"
    "get_parent t p = Some (parent nd)" "get_left t p = Some (left nd)"
    "get_right t p = Some (right nd)"
  using assms
  by (simp_all add: get_key_def get_black_def get_parent_def get_left_def get_right_def)

lemma writes [heap_simps]:
  assumes "nodes t p = Some nd"
  shows "set_key t p k = Some (t\<lparr>nodes := (nodes t)(p \<mapsto> nd\<lparr>key := k\<rparr>)\<rparr>)"
    "set_black t p b = Some (t\<lparr>nodes := (nodes t)(p \<mapsto> nd\<lparr>is_black := b\<rparr>)\<rparr>)"
    "set_parent t p q = Some (t\<lparr>nodes := (nodes t)(p \<mapsto> nd\<lparr>parent := q\<rparr>)\<rparr>)"
    "set_left t p q = Some (t\<lparr>nodes := (nodes t)(p \<mapsto> nd\<lparr>left := q\<rparr>)\<rparr>)"
    "set_right t p q = Some (t\<lparr>nodes := (nodes t)(p \<mapsto> nd\<lparr>right := q\<rparr>)\<rparr>)"
  using assms
  by (simp_all add: set_key_def set_black_def set_parent_def set_left_def set_right_def upd_node_def)

text \<open>The node in focus.\<close>

lemma rep_focus:
  assumes "rep t (plug fs (Br c l a k r))"
  shows "nodes t a = Some \<lparr>key = k, is_black = c, parent = above (nil t) fs,
                           left = topaddr (nil t) l, right = topaddr (nil t) r\<rparr>"
  using assms by (simp add: rep_def repr_plug)

lemma rep_reads:
  assumes "rep t (plug fs (Br c l a k r))"
  shows "get_key t a = Some k" "get_black t a = Some c" "get_parent t a = Some (above (nil t) fs)"
    "get_left t a = Some (topaddr (nil t) l)" "get_right t a = Some (topaddr (nil t) r)"
  using reads [OF rep_focus [OF assms]] by simp_all

lemma rep_get_black_top:
  assumes "rep t (plug fs s)"
  shows "get_black t (topaddr (nil t) s) = Some (case s of Tip \<Rightarrow> True | Br c l a k r \<Rightarrow> c)"
proof (cases s)
  case Tip
  with assms show ?thesis by (simp add: rep_def)
next
  case (Br c l a k r)
  with assms show ?thesis by (simp add: rep_reads(2))
qed

lemma rep_root: "rep t s \<Longrightarrow> root t = topaddr (nil t) s"
  by (simp add: rep_def)

lemma rep_neq_nil: "rep t (plug fs (Br c l a k r)) \<Longrightarrow> a \<noteq> nil t"
  by (auto simp: rep_def)

lemma rep_neq_0: "rep t (plug fs (Br c l a k r)) \<Longrightarrow> a \<noteq> 0"
  using rep_focus [of t fs c l a k r] by (auto simp: rep_def)

text \<open>Changing the contents of the focused node keeps the links.\<close>

lemma rep_upd_focus:
  assumes "rep t (plug fs (Br c l a k r))"
  shows "rep (t\<lparr>nodes := (nodes t)(a \<mapsto> \<lparr>key = k', is_black = c', parent = above (nil t) fs,
                 left = topaddr (nil t) l, right = topaddr (nil t) r\<rparr>)\<rparr>) (plug fs (Br c' l a k' r))"
  using assms top_plug_cong [of "nil t" "Br c l a k r" "Br c' l a k' r" fs]
    rep_neq_0 [OF assms] rep_focus [OF assms]
  by (auto simp: rep_def repr_plug get_black_def path_addrs_def)

lemma same_meta_upd: "a \<noteq> nil t \<Longrightarrow> same_meta t (t\<lparr>nodes := (nodes t)(a := v)\<rparr>)"
  by (simp add: same_meta_def)

lemma recolour:
  assumes "rep t (plug fs (Br c l a k r))"
  obtains t' where "set_black t a c' = Some t'" "rep t' (plug fs (Br c' l a k r))" "same_meta t t'"
proof
  show "set_black t a c' = Some (t\<lparr>nodes := (nodes t)(a \<mapsto> \<lparr>key = k, is_black = c',
          parent = above (nil t) fs, left = topaddr (nil t) l, right = topaddr (nil t) r\<rparr>)\<rparr>)"
    by (simp add: writes [OF rep_focus [OF assms]])
qed (use rep_upd_focus [OF assms] rep_neq_nil [OF assms] in \<open>auto intro: same_meta_upd\<close>)

lemma set_key_rep:
  assumes "rep t (plug fs (Br c l a k r))"
  obtains t' where "set_key t a k' = Some t'" "rep t' (plug fs (Br c l a k' r))" "same_meta t t'"
proof
  show "set_key t a k' = Some (t\<lparr>nodes := (nodes t)(a \<mapsto> \<lparr>key = k', is_black = c,
          parent = above (nil t) fs, left = topaddr (nil t) l, right = topaddr (nil t) r\<rparr>)\<rparr>)"
    by (simp add: writes [OF rep_focus [OF assms]])
qed (use rep_upd_focus [OF assms] rep_neq_nil [OF assms] in \<open>auto intro: same_meta_upd\<close>)

section \<open>Rotations\<close>

lemma rotate_left_exec:
  assumes x: "nodes t x = Some \<lparr>key = k, is_black = c, parent = above (nil t) fs,
                                left = topaddr (nil t) l, right = y\<rparr>"
    and y: "nodes t y = Some \<lparr>key = k', is_black = c', parent = x,
                              left = topaddr (nil t) m, right = topaddr (nil t) r\<rparr>"
    and neq: "x \<noteq> y" "x \<noteq> nil t" "y \<noteq> nil t" "topaddr (nil t) m \<noteq> x" "topaddr (nil t) m \<noteq> y"
    and m: "repr (nodes t) (nil t) y m" "nil t \<notin> set (addrs m)"
    and fs: "repr_path (nodes t) (nil t) x fs"
      "fs \<noteq> [] \<longrightarrow> above (nil t) fs \<noteq> nil t \<and> above (nil t) fs \<noteq> x \<and> above (nil t) fs \<noteq> y \<and>
         above (nil t) fs \<noteq> topaddr (nil t) m"
      "\<forall>c p k l fs'. fs = InR c l p k # fs' \<longrightarrow> topaddr (nil t) l \<noteq> x"
  shows "\<exists>t'. rotate_left t x = Some t' \<and>
     nodes t' = (rehang (nil t) y fs (reparent (nil t) x m (nodes t)))
       (x \<mapsto> \<lparr>key = k, is_black = c, parent = y, left = topaddr (nil t) l, right = topaddr (nil t) m\<rparr>,
        y \<mapsto> \<lparr>key = k', is_black = c', parent = above (nil t) fs, left = x, right = topaddr (nil t) r\<rparr>) \<and>
     root t' = (if fs = [] then y else root t) \<and> fresh t' = fresh t \<and> nil t' = nil t \<and>
     first_node t' = first_node t \<and> last_node t' = last_node t \<and> tsize t' = tsize t"
proof -
  note n = neq neq [symmetric]
  show ?thesis
  proof (cases fs)
    case Nil
    show ?thesis
    proof (cases m)
      case Tip
      with Nil x y n show ?thesis by (simp add: rotate_left_def heap_simps fun_eq_iff)
    next
      case (Br mc ml ma mk mr)
      then have "ma \<noteq> nil t" "nil t \<noteq> ma" using m by auto
      with Br Nil x y n m(1) show ?thesis
        by (auto simp: rotate_left_def heap_simps fun_eq_iff)
    qed
  next
    case (Cons f fs')
    then have p: "faddr f \<noteq> nil t" "faddr f \<noteq> x" "faddr f \<noteq> y" "faddr f \<noteq> topaddr (nil t) m"
      using fs(2) by auto
    note p = p p [symmetric]
    show ?thesis
    proof (cases m)
      case Tip
      with Cons x y n p fs(1,3) show ?thesis
        by (cases f) (auto simp: rotate_left_def heap_simps fun_eq_iff)
    next
      case (Br mc ml ma mk mr)
      then have "ma \<noteq> nil t" "nil t \<noteq> ma" using m by auto
      with Br Cons x y n p m(1) fs(1,3) show ?thesis
        by (cases f) (auto simp: rotate_left_def heap_simps fun_eq_iff)
    qed
  qed
qed

lemma rotate_right_exec:
  assumes x: "nodes t x = Some \<lparr>key = k, is_black = c, parent = y,
                                left = topaddr (nil t) l, right = topaddr (nil t) m\<rparr>"
    and y: "nodes t y = Some \<lparr>key = k', is_black = c', parent = above (nil t) fs,
                              left = x, right = topaddr (nil t) r\<rparr>"
    and neq: "x \<noteq> y" "x \<noteq> nil t" "y \<noteq> nil t" "topaddr (nil t) m \<noteq> x" "topaddr (nil t) m \<noteq> y"
    and m: "repr (nodes t) (nil t) x m" "nil t \<notin> set (addrs m)"
    and fs: "repr_path (nodes t) (nil t) y fs"
      "fs \<noteq> [] \<longrightarrow> above (nil t) fs \<noteq> nil t \<and> above (nil t) fs \<noteq> x \<and> above (nil t) fs \<noteq> y \<and>
         above (nil t) fs \<noteq> topaddr (nil t) m"
      "\<forall>c p k l fs'. fs = InL c p k l # fs' \<longrightarrow> topaddr (nil t) l \<noteq> y"
  shows "\<exists>t'. rotate_right t y = Some t' \<and>
     nodes t' = (rehang (nil t) x fs (reparent (nil t) y m (nodes t)))
       (x \<mapsto> \<lparr>key = k, is_black = c, parent = above (nil t) fs, left = topaddr (nil t) l, right = y\<rparr>,
        y \<mapsto> \<lparr>key = k', is_black = c', parent = x, left = topaddr (nil t) m, right = topaddr (nil t) r\<rparr>) \<and>
     root t' = (if fs = [] then x else root t) \<and> fresh t' = fresh t \<and> nil t' = nil t \<and>
     first_node t' = first_node t \<and> last_node t' = last_node t \<and> tsize t' = tsize t"
proof -
  note n = neq neq [symmetric]
  show ?thesis
  proof (cases fs)
    case Nil
    show ?thesis
    proof (cases m)
      case Tip
      with Nil x y n show ?thesis by (simp add: rotate_right_def heap_simps fun_eq_iff)
    next
      case (Br mc ml ma mk mr)
      then have "ma \<noteq> nil t" "nil t \<noteq> ma" using m by auto
      with Br Nil x y n m(1) show ?thesis
        by (auto simp: rotate_right_def heap_simps fun_eq_iff)
    qed
  next
    case (Cons f fs')
    then have p: "faddr f \<noteq> nil t" "faddr f \<noteq> x" "faddr f \<noteq> y" "faddr f \<noteq> topaddr (nil t) m"
      using fs(2) by auto
    note p = p p [symmetric]
    show ?thesis
    proof (cases m)
      case Tip
      with Cons x y n p fs(1,3) show ?thesis
        by (cases f) (auto simp: rotate_right_def heap_simps fun_eq_iff)
    next
      case (Br mc ml ma mk mr)
      then have "ma \<noteq> nil t" "nil t \<noteq> ma" using m by auto
      with Br Cons x y n p m(1) fs(1,3) show ?thesis
        by (cases f) (auto simp: rotate_right_def heap_simps fun_eq_iff)
    qed
  qed
qed

text \<open>Both rotations rearrange three subtrees around two nodes; the separation they need.\<close>

lemma rot_sep:
  assumes "distinct (B @ L @ x # M @ y # R @ A)"
  shows "distinct (B @ A)" "distinct M" "x \<noteq> y" "x \<notin> set L" "x \<notin> set M" "x \<notin> set R"
    "y \<notin> set L" "y \<notin> set M" "y \<notin> set R" "x \<notin> set B \<union> set A" "y \<notin> set B \<union> set A"
    "set L \<inter> set M = {}" "set R \<inter> set M = {}" "set L \<inter> (set B \<union> set A) = {}"
    "set M \<inter> (set B \<union> set A) = {}" "set R \<inter> (set B \<union> set A) = {}"
  using assms by auto

lemma repr_rotated:
  assumes h': "h' = (rehang n z fs (reparent n w m h))(x \<mapsto> nx, y \<mapsto> ny)"
    and D: "distinct (addrs_before fs @ addrs l @ x # addrs m @ y # addrs r @ addrs_after fs)"
    and l: "repr h n p l" and m: "repr h n q m" and r: "repr h n p' r" and fs: "repr_path h n v fs"
  shows "repr h' n p l" "repr h' n w m" "repr h' n p' r" "repr_path h' n z fs"
    and "a \<notin> insert x (insert y (set (addrs m) \<union> path_addrs fs)) \<Longrightarrow> h' a = h a"
    and "h a = None \<Longrightarrow> a \<noteq> x \<Longrightarrow> a \<noteq> y \<Longrightarrow> h' a = None"
proof -
  note sep = rot_sep [OF D, folded path_addrs_def]
  show other: "h' a = h a" if "a \<notin> insert x (insert y (set (addrs m) \<union> path_addrs fs))" for a
    using that by (simp add: h' rehang_other reparent_other)
  have "h a = h' a" if "a \<in> set (addrs l)" for a
    using that sep(4,7,12,14) by (intro other [symmetric]) auto
  with l show "repr h' n p l" using repr_cong [of l h h'] by blast
  have "h a = h' a" if "a \<in> set (addrs r)" for a
    using that sep(6,9,13,16) by (intro other [symmetric]) auto
  with r show "repr h' n p' r" using repr_cong [of r h h'] by blast
  have "reparent n w m h a = h' a" if "a \<in> set (addrs m)" for a
    using that sep(5,8,15) by (auto simp: h' rehang_other disjoint_iff)
  with repr_reparent [OF m sep(2), of w] show "repr h' n w m"
    using repr_cong [of m "reparent n w m h" h'] by blast
  have "h a = reparent n w m h a" if "a \<in> path_addrs fs" for a
    using that sep(15) by (intro reparent_other [symmetric]) auto
  with fs have "repr_path (reparent n w m h) n v fs"
    using repr_path_cong [of fs h "reparent n w m h"] by blast
  then have "repr_path (rehang n z fs (reparent n w m h)) n z fs"
    using sep(1) by (rule repr_path_rehang)
  then show "repr_path h' n z fs" using sep(10,11) by (simp add: h')
  show "h' a = None" if "h a = None" "a \<noteq> x" "a \<noteq> y"
    using that repr_dom [OF m, of a] repr_path_dom [OF fs, of a] by (subst other) auto
qed

lemma rotate_left_rep:
  assumes R: "rep t (plug fs (Br c l x k (Br c' m y k' r)))"
  obtains t' where "rotate_left t x = Some t'"
    "rep t' (plug fs (Br c' (Br c l x k m) y k' r))" "same_meta t t'"
proof -
  let ?n = "nil t"
  have x: "nodes t x = Some \<lparr>key = k, is_black = c, parent = above ?n fs,
                             left = topaddr ?n l, right = y\<rparr>"
    and y: "nodes t y = Some \<lparr>key = k', is_black = c', parent = x,
                              left = topaddr ?n m, right = topaddr ?n r\<rparr>"
    and parts: "repr (nodes t) ?n x l" "repr (nodes t) ?n y m" "repr (nodes t) ?n y r"
      "repr_path (nodes t) ?n x fs"
    using R by (simp_all add: rep_def repr_plug)
  have D: "distinct (addrs_before fs @ addrs l @ x # addrs m @ y # addrs r @ addrs_after fs)"
    and N: "?n \<notin> set (addrs_before fs @ addrs l @ x # addrs m @ y # addrs r @ addrs_after fs)"
    using R by (simp_all add: rep_def)
  note sep = rot_sep [OF D, folded path_addrs_def]
  have n: "x \<noteq> ?n" "y \<noteq> ?n" "?n \<notin> set (addrs m)" "?n \<notin> path_addrs fs"
    using N by (auto simp: path_addrs_def)
  have m_top: "topaddr ?n m \<noteq> x" "topaddr ?n m \<noteq> y"
    using sep(5,8) n topaddr_in [of ?n m] by auto
  have p: "fs \<noteq> [] \<longrightarrow>
      above ?n fs \<noteq> ?n \<and> above ?n fs \<noteq> x \<and> above ?n fs \<noteq> y \<and> above ?n fs \<noteq> topaddr ?n m"
    using above_in [of fs ?n] topaddr_in [of ?n m] sep(10,11,15) n by auto
  have sib: "\<forall>c0 a0 k0 l' fs'. fs = InR c0 l' a0 k0 # fs' \<longrightarrow> topaddr ?n l' \<noteq> x"
    using sep(10) n topaddr_in [of ?n] by fastforce
  obtain t' where t': "rotate_left t x = Some t'" and root: "root t' = (if fs = [] then y else root t)"
    and h': "nodes t' = (rehang ?n y fs (reparent ?n x m (nodes t)))
       (x \<mapsto> \<lparr>key = k, is_black = c, parent = y, left = topaddr ?n l, right = topaddr ?n m\<rparr>,
        y \<mapsto> \<lparr>key = k', is_black = c', parent = above ?n fs, left = x, right = topaddr ?n r\<rparr>)"
    and meta: "fresh t' = fresh t" "nil t' = ?n" "first_node t' = first_node t"
      "last_node t' = last_node t" "tsize t' = tsize t"
    using rotate_left_exec [OF x y sep(3) n(1,2) m_top parts(2) n(3) parts(4) p sib]
    by (elim exE conjE) (rule that)
  note rotated = repr_rotated [OF h' D parts(1,2,3,4)]
  have nil: "nodes t' ?n = nodes t ?n" using n by (intro rotated(5)) auto
  have none: "nodes t' a = None" if "nodes t a = None" for a
    using that x y by (intro rotated(6)) auto
  have "topaddr ?n (plug fs (Br c' (Br c l x k m) y k' r)) = root t'"
    using rep_root [OF R] top_plug_neq_Nil [of fs] root by (cases fs) force+
  moreover have "repr (nodes t') ?n (above ?n fs) (Br c' (Br c l x k m) y k' r)"
    using rotated(1-3) sep(3) by (simp add: h')
  ultimately have "rep t' (plug fs (Br c' (Br c l x k m) y k' r))"
    using R rotated(4) D N meta nil none by (simp add: rep_def repr_plug get_black_def)
  moreover have "same_meta t t'" using meta nil by (simp add: same_meta_def)
  ultimately show ?thesis using t' that by blast
qed

lemma rotate_right_rep:
  assumes R: "rep t (plug fs (Br c' (Br c l x k m) y k' r))"
  obtains t' where "rotate_right t y = Some t'"
    "rep t' (plug fs (Br c l x k (Br c' m y k' r)))" "same_meta t t'"
proof -
  let ?n = "nil t"
  have x: "nodes t x = Some \<lparr>key = k, is_black = c, parent = y,
                             left = topaddr ?n l, right = topaddr ?n m\<rparr>"
    and y: "nodes t y = Some \<lparr>key = k', is_black = c', parent = above ?n fs,
                              left = x, right = topaddr ?n r\<rparr>"
    and parts: "repr (nodes t) ?n x l" "repr (nodes t) ?n x m" "repr (nodes t) ?n y r"
      "repr_path (nodes t) ?n y fs"
    using R by (simp_all add: rep_def repr_plug)
  have D: "distinct (addrs_before fs @ addrs l @ x # addrs m @ y # addrs r @ addrs_after fs)"
    and N: "?n \<notin> set (addrs_before fs @ addrs l @ x # addrs m @ y # addrs r @ addrs_after fs)"
    using R by (simp_all add: rep_def)
  note sep = rot_sep [OF D, folded path_addrs_def]
  have n: "x \<noteq> ?n" "y \<noteq> ?n" "?n \<notin> set (addrs m)" "?n \<notin> path_addrs fs"
    using N by (auto simp: path_addrs_def)
  have m_top: "topaddr ?n m \<noteq> x" "topaddr ?n m \<noteq> y"
    using sep(5,8) n topaddr_in [of ?n m] by auto
  have p: "fs \<noteq> [] \<longrightarrow>
      above ?n fs \<noteq> ?n \<and> above ?n fs \<noteq> x \<and> above ?n fs \<noteq> y \<and> above ?n fs \<noteq> topaddr ?n m"
    using above_in [of fs ?n] topaddr_in [of ?n m] sep(10,11,15) n by auto
  have sib: "\<forall>c0 a0 k0 r' fs'. fs = InL c0 a0 k0 r' # fs' \<longrightarrow> topaddr ?n r' \<noteq> y"
    using sep(11) n topaddr_in [of ?n] by fastforce
  obtain t' where t': "rotate_right t y = Some t'" and root: "root t' = (if fs = [] then x else root t)"
    and h': "nodes t' = (rehang ?n x fs (reparent ?n y m (nodes t)))
       (x \<mapsto> \<lparr>key = k, is_black = c, parent = above ?n fs, left = topaddr ?n l, right = y\<rparr>,
        y \<mapsto> \<lparr>key = k', is_black = c', parent = x, left = topaddr ?n m, right = topaddr ?n r\<rparr>)"
    and meta: "fresh t' = fresh t" "nil t' = ?n" "first_node t' = first_node t"
      "last_node t' = last_node t" "tsize t' = tsize t"
    using rotate_right_exec [OF x y sep(3) n(1,2) m_top parts(2) n(3) parts(4) p sib]
    by (elim exE conjE) (rule that)
  note rotated = repr_rotated [OF h' D parts(1,2,3,4)]
  have nil: "nodes t' ?n = nodes t ?n" using n by (intro rotated(5)) auto
  have none: "nodes t' a = None" if "nodes t a = None" for a
    using that x y by (intro rotated(6)) auto
  have "topaddr ?n (plug fs (Br c l x k (Br c' m y k' r))) = root t'"
    using rep_root [OF R] top_plug_neq_Nil [of fs] root by (cases fs) force+
  moreover have "repr (nodes t') ?n (above ?n fs) (Br c l x k (Br c' m y k' r))"
    using rotated(1-3) sep(3) by (simp add: h')
  ultimately have "rep t' (plug fs (Br c l x k (Br c' m y k' r)))"
    using R rotated(4) D N meta nil none by (simp add: rep_def repr_plug get_black_def)
  moreover have "same_meta t t'" using meta nil by (simp add: same_meta_def)
  ultimately show ?thesis using t' that by blast
qed

end
