(* ===== verification/RBTree_Insert.thy ===== *)
theory RBTree_Insert
  imports RBTree_Shape
begin

text \<open>
  The red-black invariants of a represented tree and the insertion fix-up
  (\<^verbatim>\<open>rebalance_insert\<close>): its loop ends, keeps the entries and restores the invariants.
\<close>

section \<open>The red-black invariants\<close>

fun black :: "'a shape \<Rightarrow> bool" where
  "black Tip = True"
| "black (Br c l a k r) = c"

fun bheight :: "'a shape \<Rightarrow> nat" where
  "bheight Tip = 0"
| "bheight (Br c l a k r) = (if c then Suc (bheight l) else bheight l)"

fun invc :: "'a shape \<Rightarrow> bool" where
  "invc Tip = True"
| "invc (Br c l a k r) = ((c \<or> black l \<and> black r) \<and> invc l \<and> invc r)"

fun invh :: "'a shape \<Rightarrow> bool" where
  "invh Tip = True"
| "invh (Br c l a k r) = (bheight l = bheight r \<and> invh l \<and> invh r)"

definition rbt :: "'a shape \<Rightarrow> bool" where
  "rbt s \<longleftrightarrow> invc s \<and> invh s \<and> black s"

fun fblack :: "'a frame \<Rightarrow> bool" where
  "fblack (InL c a k r) = c"
| "fblack (InR c l a k) = c"

text \<open>A node may be red below this path: there is a node above, and it is black.\<close>

definition red_below :: "'a frame list \<Rightarrow> bool" where
  "red_below fs \<longleftrightarrow> (case fs of [] \<Rightarrow> False | f # _ \<Rightarrow> fblack f)"

lemma red_below_simps [simp]: "\<not> red_below []" "red_below (f # fs) = fblack f"
  by (simp_all add: red_below_def)

text \<open>The path is well coloured for a subtree of black height \<open>n\<close>.\<close>

fun path_ok :: "nat \<Rightarrow> 'a frame list \<Rightarrow> bool" where
  "path_ok n [] = True"
| "path_ok n (InL c a k r # fs) =
     (invc r \<and> invh r \<and> bheight r = n \<and> (c \<or> black r \<and> red_below fs) \<and>
      path_ok (if c then Suc n else n) fs)"
| "path_ok n (InR c l a k # fs) =
     (invc l \<and> invh l \<and> bheight l = n \<and> (c \<or> black l \<and> red_below fs) \<and>
      path_ok (if c then Suc n else n) fs)"

lemma rbt_plug:
  "rbt (plug fs s) \<longleftrightarrow>
     invc s \<and> invh s \<and> path_ok (bheight s) fs \<and> (black s \<or> red_below fs)"
proof (induction fs arbitrary: s)
  case Nil
  show ?case by (auto simp: rbt_def)
next
  case (Cons f fs)
  show ?case by (cases f) (auto simp: Cons.IH)
qed

lemma rep_root_not_focus:
  assumes "rep t (plug fs (Br c l a k r))" "fs \<noteq> []"
  shows "a \<noteq> root t"
proof -
  have "topaddr n (plug fs s) \<in> path_addrs fs" if "fs \<noteq> []" for n and fs :: "'b frame list" and s
    using that
  proof (induction fs arbitrary: s)
    case (Cons f fs)
    show ?case by (cases "fs = []"; cases f) (auto simp: Cons.IH)
  qed simp
  with assms(2) have "root t \<in> path_addrs fs" using rep_root [OF assms(1)] by simp
  then show ?thesis using assms(1) by (auto simp: rep_def path_addrs_def)
qed

lemma distinct_focus:
  assumes "rep t s" "s = plug fs (Br c l a k r)"
  shows "a \<noteq> topaddr (nil t) l" "a \<noteq> topaddr (nil t) r"
    "l \<noteq> Tip \<Longrightarrow> topaddr (nil t) l \<noteq> topaddr (nil t) r"
    "r \<noteq> Tip \<Longrightarrow> topaddr (nil t) l \<noteq> topaddr (nil t) r"
  using assms by (cases l; cases r; auto simp: rep_def)+

section \<open>One step of the insertion fix-up\<close>

text \<open>
  Naming: \<open>a\<close> is the node the loop is at, \<open>pa\<close> its red parent, \<open>ga\<close> its black grandparent and
  \<open>ua\<close> the uncle.
\<close>

lemma insert_left_recolour:
  assumes R: "rep t (plug fs (Br True (Br False pl pa pk pr) ga gk (Br False ul ua uk ur)))"
    and a: "get_parent t a = Some pa"
  obtains t' where "rebalance_insert_left t a = Some (t', ga)" "same_meta t t'"
    "rep t' (plug fs (Br False (Br True pl pa pk pr) ga gk (Br True ul ua uk ur)))"
proof -
  let ?u = "Br True ul ua uk ur"
  note g = rep_reads [OF R]
  have "rep t (plug (InL True ga gk (Br False ul ua uk ur) # fs) (Br False pl pa pk pr))"
    using R by simp
  note p = rep_reads [OF this]
  have Ru: "rep t (plug (InR True (Br False pl pa pk pr) ga gk # fs) (Br False ul ua uk ur))"
    using R by simp
  note u = rep_reads [OF Ru]
  from recolour [OF Ru] obtain t1 where t1: "set_black t ua True = Some t1" "same_meta t t1"
    "rep t1 (plug (InL True ga gk ?u # fs) (Br False pl pa pk pr))" by auto
  from recolour [OF t1(3)] obtain t2 where t2: "set_black t1 pa True = Some t2" "same_meta t1 t2"
    "rep t2 (plug fs (Br True (Br True pl pa pk pr) ga gk ?u))" by auto
  from recolour [OF t2(3)] obtain t3 where t3: "set_black t2 ga False = Some t3" "same_meta t2 t3"
    "rep t3 (plug fs (Br False (Br True pl pa pk pr) ga gk ?u))" by auto
  have "rebalance_insert_left t a = Some (t3, ga)"
    using a g p u t1 t2 t3 by (simp add: rebalance_insert_left_def)
  moreover have "same_meta t t3" using t1 t2 t3 same_meta_trans by blast
  ultimately show ?thesis using t3(3) that by blast
qed

lemma insert_right_recolour:
  assumes R: "rep t (plug fs (Br True (Br False ul ua uk ur) ga gk (Br False pl pa pk pr)))"
    and a: "get_parent t a = Some pa"
  obtains t' where "rebalance_insert_right t a = Some (t', ga)" "same_meta t t'"
    "rep t' (plug fs (Br False (Br True ul ua uk ur) ga gk (Br True pl pa pk pr)))"
proof -
  let ?u = "Br True ul ua uk ur"
  note g = rep_reads [OF R]
  have "rep t (plug (InR True (Br False ul ua uk ur) ga gk # fs) (Br False pl pa pk pr))"
    using R by simp
  note p = rep_reads [OF this]
  have Ru: "rep t (plug (InL True ga gk (Br False pl pa pk pr) # fs) (Br False ul ua uk ur))"
    using R by simp
  note u = rep_reads [OF Ru]
  from recolour [OF Ru] obtain t1 where t1: "set_black t ua True = Some t1" "same_meta t t1"
    "rep t1 (plug (InR True ?u ga gk # fs) (Br False pl pa pk pr))" by auto
  from recolour [OF t1(3)] obtain t2 where t2: "set_black t1 pa True = Some t2" "same_meta t1 t2"
    "rep t2 (plug fs (Br True ?u ga gk (Br True pl pa pk pr)))" by auto
  from recolour [OF t2(3)] obtain t3 where t3: "set_black t2 ga False = Some t3" "same_meta t2 t3"
    "rep t3 (plug fs (Br False ?u ga gk (Br True pl pa pk pr)))" by auto
  have "rebalance_insert_right t a = Some (t3, ga)"
    using a g p u t1 t2 t3 by (simp add: rebalance_insert_right_def)
  moreover have "same_meta t t3" using t1 t2 t3 same_meta_trans by blast
  ultimately show ?thesis using t3(3) that by blast
qed

text \<open>The last three writes of both branches: recolour parent and grandparent, rotate.\<close>

lemma insert_left_rotate:
  assumes R: "rep t (plug fs (Br True (Br False (Br False l a k r) pa pk pr) ga gk u))"
  obtains t1 t2 t3 where "get_parent t a = Some pa" "set_black t pa True = Some t1"
    "get_parent t1 pa = Some ga" "set_black t1 ga False = Some t2"
    "rotate_right t2 ga = Some t3" "same_meta t t3"
    "rep t3 (plug fs (Br True (Br False l a k r) pa pk (Br False pr ga gk u)))"
proof -
  have Ra: "rep t (plug (InL False pa pk pr # InL True ga gk u # fs) (Br False l a k r))"
    and Rp: "rep t (plug (InL True ga gk u # fs) (Br False (Br False l a k r) pa pk pr))"
    using R by simp_all
  from recolour [OF Rp] obtain t1 where t1: "set_black t pa True = Some t1" "same_meta t t1"
    "rep t1 (plug (InL True ga gk u # fs) (Br True (Br False l a k r) pa pk pr))" by auto
  then have "rep t1 (plug fs (Br True (Br True (Br False l a k r) pa pk pr) ga gk u))" by simp
  from recolour [OF this] obtain t2 where t2: "set_black t1 ga False = Some t2" "same_meta t1 t2"
    "rep t2 (plug fs (Br False (Br True (Br False l a k r) pa pk pr) ga gk u))" by auto
  from rotate_right_rep [OF t2(3)] obtain t3 where t3: "rotate_right t2 ga = Some t3"
    "rep t3 (plug fs (Br True (Br False l a k r) pa pk (Br False pr ga gk u)))" "same_meta t2 t3" by auto
  have "same_meta t t3" using t1 t2 t3 same_meta_trans by blast
  then show ?thesis
    using that [of t1 t2 t3] t1 t2 t3 rep_reads(3) [OF Ra] rep_reads(3) [OF t1(3)] by simp
qed

lemma insert_right_rotate:
  assumes R: "rep t (plug fs (Br True u ga gk (Br False pl pa pk (Br False l a k r))))"
  obtains t1 t2 t3 where "get_parent t a = Some pa" "set_black t pa True = Some t1"
    "get_parent t1 pa = Some ga" "set_black t1 ga False = Some t2"
    "rotate_left t2 ga = Some t3" "same_meta t t3"
    "rep t3 (plug fs (Br True (Br False u ga gk pl) pa pk (Br False l a k r)))"
proof -
  have Ra: "rep t (plug (InR False pl pa pk # InR True u ga gk # fs) (Br False l a k r))"
    and Rp: "rep t (plug (InR True u ga gk # fs) (Br False pl pa pk (Br False l a k r)))"
    using R by simp_all
  from recolour [OF Rp] obtain t1 where t1: "set_black t pa True = Some t1" "same_meta t t1"
    "rep t1 (plug (InR True u ga gk # fs) (Br True pl pa pk (Br False l a k r)))" by auto
  then have "rep t1 (plug fs (Br True u ga gk (Br True pl pa pk (Br False l a k r))))" by simp
  from recolour [OF this] obtain t2 where t2: "set_black t1 ga False = Some t2" "same_meta t1 t2"
    "rep t2 (plug fs (Br False u ga gk (Br True pl pa pk (Br False l a k r))))" by auto
  from rotate_left_rep [OF t2(3)] obtain t3 where t3: "rotate_left t2 ga = Some t3"
    "rep t3 (plug fs (Br True (Br False u ga gk pl) pa pk (Br False l a k r)))" "same_meta t2 t3" by auto
  have "same_meta t t3" using t1 t2 t3 same_meta_trans by blast
  then show ?thesis
    using that [of t1 t2 t3] t1 t2 t3 rep_reads(3) [OF Ra] rep_reads(3) [OF t1(3)] by simp
qed

lemma insert_left_outer:
  assumes R: "rep t (plug fs (Br True (Br False (Br False l a k r) pa pk pr) ga gk u))"
    and u: "black u"
  obtains t' where "rebalance_insert_left t a = Some (t', a)" "same_meta t t'"
    "rep t' (plug fs (Br True (Br False l a k r) pa pk (Br False pr ga gk u)))"
proof -
  have Rp: "rep t (plug (InL True ga gk u # fs) (Br False (Br False l a k r) pa pk pr))"
    and Ru: "rep t (plug (InR True (Br False (Br False l a k r) pa pk pr) ga gk # fs) u)"
    using R by simp_all
  have "a \<noteq> topaddr (nil t) pr" using distinct_focus(3) [OF Rp refl] by simp
  moreover have "get_black t (topaddr (nil t) u) = Some True"
    using rep_get_black_top [OF Ru] u by (cases u) auto
  moreover from insert_left_rotate [OF R] obtain t1 t2 t3 where
    "get_parent t a = Some pa" "set_black t pa True = Some t1" "get_parent t1 pa = Some ga"
    "set_black t1 ga False = Some t2" "rotate_right t2 ga = Some t3" and t3: "same_meta t t3"
    "rep t3 (plug fs (Br True (Br False l a k r) pa pk (Br False pr ga gk u)))" by metis
  ultimately have "rebalance_insert_left t a = Some (t3, a)"
    using rep_reads [OF R] rep_reads [OF Rp] by (simp add: rebalance_insert_left_def)
  with t3 that show ?thesis by blast
qed

lemma insert_right_outer:
  assumes R: "rep t (plug fs (Br True u ga gk (Br False pl pa pk (Br False l a k r))))"
    and u: "black u"
  obtains t' where "rebalance_insert_right t a = Some (t', a)" "same_meta t t'"
    "rep t' (plug fs (Br True (Br False u ga gk pl) pa pk (Br False l a k r)))"
proof -
  have Rp: "rep t (plug (InR True u ga gk # fs) (Br False pl pa pk (Br False l a k r)))"
    and Ru: "rep t (plug (InL True ga gk (Br False pl pa pk (Br False l a k r)) # fs) u)"
    using R by simp_all
  have "a \<noteq> topaddr (nil t) pl" using distinct_focus(4) [OF Rp refl] by simp
  moreover have "get_black t (topaddr (nil t) u) = Some True"
    using rep_get_black_top [OF Ru] u by (cases u) auto
  moreover from insert_right_rotate [OF R] obtain t1 t2 t3 where
    "get_parent t a = Some pa" "set_black t pa True = Some t1" "get_parent t1 pa = Some ga"
    "set_black t1 ga False = Some t2" "rotate_left t2 ga = Some t3" and t3: "same_meta t t3"
    "rep t3 (plug fs (Br True (Br False u ga gk pl) pa pk (Br False l a k r)))" by metis
  ultimately have "rebalance_insert_right t a = Some (t3, a)"
    using rep_reads [OF R] rep_reads [OF Rp] by (simp add: rebalance_insert_right_def)
  with t3 that show ?thesis by blast
qed

lemma insert_left_inner:
  assumes R: "rep t (plug fs (Br True (Br False pl pa pk (Br False l a k r)) ga gk u))"
    and u: "black u"
  obtains t' where "rebalance_insert_left t a = Some (t', pa)" "same_meta t t'"
    "rep t' (plug fs (Br True (Br False pl pa pk l) a k (Br False r ga gk u)))"
proof -
  have Rp: "rep t (plug (InL True ga gk u # fs) (Br False pl pa pk (Br False l a k r)))"
    and Ra: "rep t (plug (InR False pl pa pk # InL True ga gk u # fs) (Br False l a k r))"
    and Ru: "rep t (plug (InR True (Br False pl pa pk (Br False l a k r)) ga gk # fs) u)"
    using R by simp_all
  have ub: "get_black t (topaddr (nil t) u) = Some True"
    using rep_get_black_top [OF Ru] u by (cases u) auto
  from rotate_left_rep [OF Rp] obtain t0 where t0: "rotate_left t pa = Some t0" "same_meta t t0"
    "rep t0 (plug fs (Br True (Br False (Br False pl pa pk l) a k r) ga gk u))" by auto
  from insert_left_rotate [OF t0(3)] obtain t1 t2 t3 where
    "get_parent t0 pa = Some a" "set_black t0 a True = Some t1" "get_parent t1 a = Some ga"
    "set_black t1 ga False = Some t2" "rotate_right t2 ga = Some t3" and t3: "same_meta t0 t3"
    "rep t3 (plug fs (Br True (Br False pl pa pk l) a k (Br False r ga gk u)))" by metis
  then have "rebalance_insert_left t a = Some (t3, pa)"
    using rep_reads [OF R] rep_reads [OF Rp] rep_reads [OF Ra] ub t0
    by (simp add: rebalance_insert_left_def)
  with t0 t3 that same_meta_trans show ?thesis by blast
qed

lemma insert_right_inner:
  assumes R: "rep t (plug fs (Br True u ga gk (Br False (Br False l a k r) pa pk pr)))"
    and u: "black u"
  obtains t' where "rebalance_insert_right t a = Some (t', pa)" "same_meta t t'"
    "rep t' (plug fs (Br True (Br False u ga gk l) a k (Br False r pa pk pr)))"
proof -
  have Rp: "rep t (plug (InR True u ga gk # fs) (Br False (Br False l a k r) pa pk pr))"
    and Ra: "rep t (plug (InL False pa pk pr # InR True u ga gk # fs) (Br False l a k r))"
    and Ru: "rep t (plug (InL True ga gk (Br False (Br False l a k r) pa pk pr) # fs) u)"
    using R by simp_all
  have ub: "get_black t (topaddr (nil t) u) = Some True"
    using rep_get_black_top [OF Ru] u by (cases u) auto
  from rotate_right_rep [OF Rp] obtain t0 where t0: "rotate_right t pa = Some t0" "same_meta t t0"
    "rep t0 (plug fs (Br True u ga gk (Br False l a k (Br False r pa pk pr))))" by auto
  from insert_right_rotate [OF t0(3)] obtain t1 t2 t3 where
    "get_parent t0 pa = Some a" "set_black t0 a True = Some t1" "get_parent t1 a = Some ga"
    "set_black t1 ga False = Some t2" "rotate_left t2 ga = Some t3" and t3: "same_meta t0 t3"
    "rep t3 (plug fs (Br True (Br False u ga gk l) a k (Br False r pa pk pr)))" by metis
  then have "rebalance_insert_right t a = Some (t3, pa)"
    using rep_reads [OF R] rep_reads [OF Rp] rep_reads [OF Ra] ub t0
    by (simp add: rebalance_insert_right_def)
  with t0 t3 that same_meta_trans show ?thesis by blast
qed

section \<open>The insertion fix-up loop\<close>

lemma frame_reads:
  assumes "rep t (plug (f # fs) s)"
  shows "get_black t (faddr f) = Some (fblack f)" "get_parent t (faddr f) = Some (above (nil t) fs)"
proof -
  obtain c l k r where "plug1 f s = Br c l (faddr f) k r" "c = fblack f" by (cases f) auto
  then have "rep t (plug fs (Br (fblack f) l (faddr f) k r))" using assms by simp
  from rep_reads [OF this] show "get_black t (faddr f) = Some (fblack f)"
    "get_parent t (faddr f) = Some (above (nil t) fs)" by simp_all
qed

lemma insert_loop_stop:
  assumes R: "rep t (plug fs (Br c l a k r))" and fs: "fs = [] \<or> red_below fs"
  shows "rebalance_insert_loop t a = Some t"
proof (cases fs)
  case Nil
  with R have "a = root t" by (simp add: rep_def)
  then show ?thesis by (subst rebalance_insert_loop.simps) simp
next
  case (Cons f fs')
  then have "a \<noteq> root t" using rep_root_not_focus [OF R] by simp
  with Cons fs R rep_reads(3) [OF R] frame_reads(1) [of t f fs'] show ?thesis
    by (subst rebalance_insert_loop.simps) simp
qed

lemma insert_loop_step_left:
  assumes R: "rep t (plug (f # InL gc ga gk u # fs) (Br c l a k r))" and red: "\<not> fblack f"
    and st: "rebalance_insert_left t a = Some (t', a')"
  shows "rebalance_insert_loop t a = rebalance_insert_loop t' a'"
proof -
  have neq: "a \<noteq> root t" using rep_root_not_focus [OF R] by simp
  have p: "get_parent t a = Some (faddr f)" "get_black t (faddr f) = Some False"
    "get_parent t (faddr f) = Some ga"
    using rep_reads(3) [OF R] frame_reads [OF R] red by simp_all
  obtain pc pl pk pr where P: "plug1 f (Br c l a k r) = Br pc pl (faddr f) pk pr" by (cases f) auto
  with R have Rg: "rep t (plug fs (Br gc (Br pc pl (faddr f) pk pr) ga gk u))" by simp
  then have "get_right t ga = Some (topaddr (nil t) u)" "faddr f \<noteq> topaddr (nil t) u"
    using rep_reads(5) [OF Rg] distinct_focus(3) [OF Rg refl] by simp_all
  with neq p st show ?thesis by (subst rebalance_insert_loop.simps) simp
qed

lemma insert_loop_step_right:
  assumes R: "rep t (plug (f # InR gc u ga gk # fs) (Br c l a k r))" and red: "\<not> fblack f"
    and st: "rebalance_insert_right t a = Some (t', a')"
  shows "rebalance_insert_loop t a = rebalance_insert_loop t' a'"
proof -
  have neq: "a \<noteq> root t" using rep_root_not_focus [OF R] by simp
  have p: "get_parent t a = Some (faddr f)" "get_black t (faddr f) = Some False"
    "get_parent t (faddr f) = Some ga"
    using rep_reads(3) [OF R] frame_reads [OF R] red by simp_all
  obtain pc pl pk pr where P: "plug1 f (Br c l a k r) = Br pc pl (faddr f) pk pr" by (cases f) auto
  with R have Rg: "rep t (plug fs (Br gc u ga gk (Br pc pl (faddr f) pk pr)))" by simp
  from rep_reads(5) [OF Rg] neq p st show ?thesis by (subst rebalance_insert_loop.simps) simp
qed

text \<open>What the loop leaves behind: the same entries in a tree that is red-black up to its root.\<close>

definition balanced_from :: "'a rbtree \<Rightarrow> 'a shape \<Rightarrow> 'a rbtree \<Rightarrow> bool" where
  "balanced_from t s t' \<longleftrightarrow>
     (\<exists>s'. rep t' s' \<and> same_meta t t' \<and> entries s' = entries s \<and> invc s' \<and> invh s')"

text \<open>
  One iteration at a node with a red parent: either the focus moves two levels up, or the loop
  is about to stop below a black node.
\<close>

definition insert_state :: "'a rbtree \<Rightarrow> 'a frame list \<Rightarrow> 'a shape \<Rightarrow> bool" where
  "insert_state t fs s \<longleftrightarrow>
     rep t (plug fs s) \<and> invc s \<and> invh s \<and> path_ok (bheight s) fs \<and> \<not> black s"

lemma insert_iteration_left:
  assumes S: "insert_state t (f # InL True ga gk u # fs) (Br False l a k r)" and red: "\<not> fblack f"
  obtains t' fs' l' b k' r' where
    "rebalance_insert_loop t a = rebalance_insert_loop t' b" "same_meta t t'"
    "insert_state t' fs' (Br False l' b k' r')" "length fs' < Suc (Suc (length fs)) \<or> red_below fs'"
    "entries (plug fs' (Br False l' b k' r')) =
     entries (plug (f # InL True ga gk u # fs) (Br False l a k r))"
proof -
  note R = S [unfolded insert_state_def, THEN conjunct1]
  note step = insert_loop_step_left [OF R red]
  show ?thesis
  proof (cases "black u")
    case False
    then obtain ul ua uk ur where u: "u = Br False ul ua uk ur" by (cases u) auto
    obtain pl pk pr where P: "plug1 f (Br False l a k r) = Br False pl (faddr f) pk pr"
      using red by (cases f) auto
    with R u have "rep t (plug fs (Br True (Br False pl (faddr f) pk pr) ga gk (Br False ul ua uk ur)))"
      by simp
    moreover have "get_parent t a = Some (faddr f)" using rep_reads(3) [OF R] by simp
    ultimately obtain t' where t': "rebalance_insert_left t a = Some (t', ga)" "same_meta t t'"
      "rep t' (plug fs (Br False (Br True pl (faddr f) pk pr) ga gk (Br True ul ua uk ur)))"
      by (rule insert_left_recolour)
    show ?thesis
      using that [of t' ga fs "Br True pl (faddr f) pk pr" gk "Br True ul ua uk ur"] step t' S u red P
      by (cases f) (auto simp: insert_state_def)
  next
    case True
    show ?thesis
    proof (cases f)
      case (InL c pa pk pr)
      with R red obtain t' where "rebalance_insert_left t a = Some (t', a)" "same_meta t t'"
        "rep t' (plug fs (Br True (Br False l a k r) pa pk (Br False pr ga gk u)))"
        using insert_left_outer [of t fs l a k r pa pk pr ga gk u] True by auto
      then show ?thesis
        using that [of t' a "InL True pa pk (Br False pr ga gk u) # fs" l k r] step S InL red True
        by (auto simp: insert_state_def)
    next
      case (InR c pl pa pk)
      with R red obtain t' where "rebalance_insert_left t a = Some (t', pa)" "same_meta t t'"
        "rep t' (plug fs (Br True (Br False pl pa pk l) a k (Br False r ga gk u)))"
        using insert_left_inner [of t fs pl pa pk l a k r ga gk u] True by auto
      then show ?thesis
        using that [of t' pa "InL True a k (Br False r ga gk u) # fs" pl pk l] step S InR red True
        by (auto simp: insert_state_def)
    qed
  qed
qed

lemma insert_iteration_right:
  assumes S: "insert_state t (f # InR True u ga gk # fs) (Br False l a k r)" and red: "\<not> fblack f"
  obtains t' fs' l' b k' r' where
    "rebalance_insert_loop t a = rebalance_insert_loop t' b" "same_meta t t'"
    "insert_state t' fs' (Br False l' b k' r')" "length fs' < Suc (Suc (length fs)) \<or> red_below fs'"
    "entries (plug fs' (Br False l' b k' r')) =
     entries (plug (f # InR True u ga gk # fs) (Br False l a k r))"
proof -
  note R = S [unfolded insert_state_def, THEN conjunct1]
  note step = insert_loop_step_right [OF R red]
  show ?thesis
  proof (cases "black u")
    case False
    then obtain ul ua uk ur where u: "u = Br False ul ua uk ur" by (cases u) auto
    obtain pl pk pr where P: "plug1 f (Br False l a k r) = Br False pl (faddr f) pk pr"
      using red by (cases f) auto
    with R u have "rep t (plug fs (Br True (Br False ul ua uk ur) ga gk (Br False pl (faddr f) pk pr)))"
      by simp
    moreover have "get_parent t a = Some (faddr f)" using rep_reads(3) [OF R] by simp
    ultimately obtain t' where t': "rebalance_insert_right t a = Some (t', ga)" "same_meta t t'"
      "rep t' (plug fs (Br False (Br True ul ua uk ur) ga gk (Br True pl (faddr f) pk pr)))"
      by (rule insert_right_recolour)
    show ?thesis
      using that [of t' ga fs "Br True ul ua uk ur" gk "Br True pl (faddr f) pk pr"] step t' S u red P
      by (cases f) (auto simp: insert_state_def)
  next
    case True
    show ?thesis
    proof (cases f)
      case (InR c pl pa pk)
      with R red obtain t' where "rebalance_insert_right t a = Some (t', a)" "same_meta t t'"
        "rep t' (plug fs (Br True (Br False u ga gk pl) pa pk (Br False l a k r)))"
        using insert_right_outer [of t fs u ga gk pl pa pk l a k r] True by auto
      then show ?thesis
        using that [of t' a "InR True (Br False u ga gk pl) pa pk # fs" l k r] step S InR red True
        by (auto simp: insert_state_def)
    next
      case (InL c pa pk pr)
      with R red obtain t' where "rebalance_insert_right t a = Some (t', pa)" "same_meta t t'"
        "rep t' (plug fs (Br True (Br False u ga gk l) a k (Br False r pa pk pr)))"
        using insert_right_inner [of t fs u ga gk l a k r pa pk pr] True by auto
      then show ?thesis
        using that [of t' pa "InR True (Br False u ga gk l) a k # fs" r pk pr] step S InL red True
        by (auto simp: insert_state_def)
    qed
  qed
qed

lemma insert_state_balanced:
  assumes "insert_state t fs s" "fs = [] \<or> red_below fs"
  shows "balanced_from t (plug fs s) t"
proof (cases fs)
  case Nil
  with assms show ?thesis by (auto simp: insert_state_def balanced_from_def)
next
  case (Cons f fs')
  with assms have "rbt (plug fs s)" unfolding rbt_plug by (auto simp: insert_state_def)
  with assms show ?thesis by (auto simp: insert_state_def balanced_from_def rbt_def)
qed

lemma rebalance_insert_loop_rep:
  assumes "insert_state t fs (Br False l a k r)"
  shows "\<exists>t'. rebalance_insert_loop t a = Some t' \<and> balanced_from t (plug fs (Br False l a k r)) t'"
  using assms
proof (induction "length fs" arbitrary: fs t l a k r rule: less_induct)
  case less
  note S = less.prems
  show ?case
  proof (cases "fs = [] \<or> red_below fs")
    case True
    then show ?thesis
      using insert_state_balanced [OF S] insert_loop_stop [of t fs] S
      by (auto simp: insert_state_def)
  next
    case False
    then obtain f fs1 where f: "fs = f # fs1" "\<not> fblack f" by (cases fs) auto
    with S have "red_below fs1" by (cases f) (auto simp: insert_state_def)
    then obtain g fs2 where fs: "fs = f # g # fs2" "\<not> fblack f" "fblack g"
      using f by (cases fs1) auto
    obtain t' fs' l' b k' r' where
      st: "rebalance_insert_loop t a = rebalance_insert_loop t' b" "same_meta t t'"
      and S': "insert_state t' fs' (Br False l' b k' r')"
      and len: "length fs' < length fs \<or> red_below fs'"
      and ent: "entries (plug fs' (Br False l' b k' r')) = entries (plug fs (Br False l a k r))"
    proof (cases g)
      case (InL c ga gk u)
      with S fs have "insert_state t (f # InL True ga gk u # fs2) (Br False l a k r)" by simp
      from insert_iteration_left [OF this fs(2)] show ?thesis
        using that InL fs by (metis fblack.simps(1) length_Cons)
    next
      case (InR c u ga gk)
      with S fs have "insert_state t (f # InR True u ga gk # fs2) (Br False l a k r)" by simp
      from insert_iteration_right [OF this fs(2)] show ?thesis
        using that InR fs by (metis fblack.simps(2) length_Cons)
    qed
    have "\<exists>t''. rebalance_insert_loop t' b = Some t'' \<and>
            balanced_from t' (plug fs' (Br False l' b k' r')) t''"
    proof (cases "red_below fs'")
      case True
      then show ?thesis
        using insert_state_balanced [OF S'] insert_loop_stop [of t' fs'] S'
        by (auto simp: insert_state_def)
    next
      case False
      with len less.hyps [OF _ S'] show ?thesis by blast
    qed
    with st ent show ?thesis
      by (auto simp: balanced_from_def intro: same_meta_trans)
  qed
qed

end
