(* ===== verification/RBTree_Index.thy ===== *)
theory RBTree_Index
  imports RBTree_Insert
begin

text \<open>
  The tree as an ordered index. An \<open>is_index\<close> tree is a well-formed red-black tree whose keys are
  sorted by the comparator; its contents are the list of its entries (address and key) in
  order. The theory specifies lookup and insertion on that list and proves that \<open>rb_find\<close>,
  \<open>rb_contains\<close>, \<open>rb_first\<close>, \<open>rb_last\<close> and \<open>rb_insert\<close> implement the specification.
\<close>

section \<open>Ordered entry lists\<close>

definition sorted_keys :: "('k \<Rightarrow> 'k \<Rightarrow> bool) \<Rightarrow> (nat \<times> 'k) list \<Rightarrow> bool" where
  "sorted_keys lt xs \<longleftrightarrow> sorted_wrt (\<lambda>x y. lt (snd x) (snd y)) xs"

fun find_entry :: "('k \<Rightarrow> 'k \<Rightarrow> bool) \<Rightarrow> 'k \<Rightarrow> (nat \<times> 'k) list \<Rightarrow> (nat \<times> 'k) option" where
  "find_entry lt v [] = None"
| "find_entry lt v ((b, k) # xs) =
     (if \<not> lt v k \<and> \<not> lt k v then Some (b, k) else find_entry lt v xs)"

text \<open>Insertion into the entry list: a fresh address, or the key replaced at an equal entry.\<close>

fun ins_entry :: "('k \<Rightarrow> 'k \<Rightarrow> bool) \<Rightarrow> nat \<Rightarrow> 'k \<Rightarrow> (nat \<times> 'k) list \<Rightarrow> (nat \<times> 'k) list" where
  "ins_entry lt a v [] = [(a, v)]"
| "ins_entry lt a v ((b, k) # xs) =
     (if lt v k then (a, v) # (b, k) # xs
      else if lt k v then (b, k) # ins_entry lt a v xs
      else (b, v) # xs)"

definition below :: "('k \<Rightarrow> 'k \<Rightarrow> bool) \<Rightarrow> (nat \<times> 'k) list \<Rightarrow> 'k \<Rightarrow> bool" where
  "below lt xs v \<longleftrightarrow> (\<forall>x \<in> set xs. lt (snd x) v)"

definition over :: "('k \<Rightarrow> 'k \<Rightarrow> bool) \<Rightarrow> 'k \<Rightarrow> (nat \<times> 'k) list \<Rightarrow> bool" where
  "over lt v xs \<longleftrightarrow> (\<forall>x \<in> set xs. lt v (snd x))"

lemma below_simps [simp]:
  "below lt [] v" "below lt (x # xs) v \<longleftrightarrow> lt (snd x) v \<and> below lt xs v"
  "below lt (xs @ ys) v \<longleftrightarrow> below lt xs v \<and> below lt ys v"
  by (auto simp: below_def)

lemma over_simps [simp]:
  "over lt v []" "over lt v (x # xs) \<longleftrightarrow> lt v (snd x) \<and> over lt v xs"
  "over lt v (xs @ ys) \<longleftrightarrow> over lt v xs \<and> over lt v ys"
  by (auto simp: over_def)

lemma sorted_keys_simps [simp]:
  "sorted_keys lt []" "sorted_keys lt (x # xs) \<longleftrightarrow> over lt (snd x) xs \<and> sorted_keys lt xs"
  by (auto simp: sorted_keys_def over_def)

lemma sorted_keys_append:
  "sorted_keys lt (xs @ ys) \<longleftrightarrow>
     sorted_keys lt xs \<and> sorted_keys lt ys \<and> (\<forall>x \<in> set xs. over lt (snd x) ys)"
  by (auto simp: sorted_keys_def over_def sorted_wrt_append)

lemma sorted_keys_mid:
  "sorted_keys lt (xs @ (a, k) # ys) \<Longrightarrow>
     sorted_keys lt xs \<and> sorted_keys lt ys \<and> below lt xs k \<and> over lt k ys"
  by (auto simp: sorted_keys_append below_def)

lemma find_entry_append: "find_entry lt v (xs @ ys) =
    (case find_entry lt v xs of None \<Rightarrow> find_entry lt v ys | Some e \<Rightarrow> Some e)"
  by (induction lt v xs rule: find_entry.induct) auto

context comparator
begin

lemma below_mono: "below lt xs k \<Longrightarrow> \<not> lt v k \<Longrightarrow> below lt xs v"
  unfolding below_def using lt_equiv_trans by blast

lemma over_mono: "over lt k xs \<Longrightarrow> \<not> lt k v \<Longrightarrow> over lt v xs"
  unfolding over_def using equiv_lt_trans by blast

lemma find_entry_below: "below lt xs v \<Longrightarrow> find_entry lt v xs = None"
  by (induction lt v xs rule: find_entry.induct) auto

lemma find_entry_over: "over lt v xs \<Longrightarrow> find_entry lt v xs = None"
  by (induction lt v xs rule: find_entry.induct) auto

lemma ins_entry_between:
  "below lt xs v \<Longrightarrow> over lt v ys \<Longrightarrow> ins_entry lt a v (xs @ ys) = xs @ (a, v) # ys"
proof (induction xs)
  case Nil
  then show ?case by (cases ys) (auto split: prod.splits)
next
  case (Cons x xs)
  then show ?case by (cases x) (auto dest: asym)
qed

lemma ins_entry_replace:
  "below lt xs v \<Longrightarrow> \<not> lt v k \<Longrightarrow> \<not> lt k v \<Longrightarrow>
   ins_entry lt a v (xs @ (b, k) # ys) = xs @ (b, v) # ys"
proof (induction xs)
  case (Cons x xs)
  then show ?case by (cases x) (auto dest: asym)
qed simp

lemma over_ins_entry: "over lt k xs \<Longrightarrow> lt k v \<Longrightarrow> over lt k (ins_entry lt a v xs)"
  by (induction lt a v xs rule: ins_entry.induct) auto

lemma sorted_ins_entry: "sorted_keys lt xs \<Longrightarrow> sorted_keys lt (ins_entry lt a v xs)"
proof (induction xs)
  case (Cons x xs)
  obtain b k where x: "x = (b, k)" by (cases x)
  show ?case
    using Cons over_mono [of k xs v] asym [of v k] by (auto simp: x over_ins_entry)
qed simp

section \<open>Lookup\<close>

lemma search_tree_rep:
  assumes "repr (nodes t) (nil t) p s" "nil t \<notin> set (addrs s)" "sorted_keys lt (entries s)"
  shows "search_tree lt t (topaddr (nil t) s) v =
    Some (case find_entry lt v (entries s) of None \<Rightarrow> nil t | Some e \<Rightarrow> fst e)"
  using assms
proof (induction s arbitrary: p)
  case Tip
  show ?case by (subst search_tree.simps) simp
next
  case (Br c l a k r)
  note sorted = sorted_keys_mid [OF Br.prems(3) [simplified]]
  have reads: "get_key t a = Some k" "get_left t a = Some (topaddr (nil t) l)"
    "get_right t a = Some (topaddr (nil t) r)" "a \<noteq> nil t"
    using Br.prems by (simp_all add: reads)
  consider "lt v k" | "\<not> lt v k" "lt k v" | "\<not> lt v k" "\<not> lt k v" by blast
  then show ?case
  proof cases
    case 1
    have "find_entry lt v (entries r) = None"
      using find_entry_over [OF over_mono [OF _ asym [OF 1]]] sorted by simp
    moreover have "search_tree lt t a v = search_tree lt t (topaddr (nil t) l) v"
      using 1 reads by (subst search_tree.simps) simp
    ultimately show ?thesis
      using Br.IH(1) [of a] Br.prems sorted 1 by (simp add: find_entry_append split: option.splits)
  next
    case 2
    have "find_entry lt v (entries l) = None"
      using find_entry_below [OF below_mono [OF _ 2(1)]] sorted by simp
    moreover have "search_tree lt t a v = search_tree lt t (topaddr (nil t) r) v"
      using 2 reads by (subst search_tree.simps) simp
    ultimately show ?thesis
      using Br.IH(2) [of a] Br.prems sorted 2 by (simp add: find_entry_append)
  next
    case 3
    have "find_entry lt v (entries l) = None"
      using find_entry_below [OF below_mono [OF _ 3(1)]] sorted by simp
    moreover have "search_tree lt t a v = Some a"
      using 3 reads by (subst search_tree.simps) simp
    ultimately show ?thesis using 3 by (simp add: find_entry_append)
  qed
qed

section \<open>The descent of an insertion\<close>

lemma insert_descend_rep:
  assumes "rep t (plug fs s)" "sorted_keys lt (entries (plug fs s))"
    "below lt (before fs) v" "over lt v (after fs)"
    "fs \<noteq> [] \<Longrightarrow> b = (\<exists>c a k r fs'. fs = InL c a k r # fs')"
  shows "(\<exists>fs' c l a k r. insert_descend lt t v (above (nil t) fs) (topaddr (nil t) s) b = Some (Inl a) \<and>
            plug fs s = plug fs' (Br c l a k r) \<and> below lt (before fs' @ entries l) v \<and>
            \<not> lt v k \<and> \<not> lt k v) \<or>
         (\<exists>fs' b'. insert_descend lt t v (above (nil t) fs) (topaddr (nil t) s) b =
              Some (Inr (above (nil t) fs', b')) \<and>
            plug fs s = plug fs' Tip \<and> below lt (before fs') v \<and> over lt v (after fs') \<and>
            (fs' \<noteq> [] \<longrightarrow> b' = (\<exists>c a k r fs''. fs' = InL c a k r # fs'')))"
    (is "?found fs s b \<or> ?missing fs s b")
  using assms
proof (induction s arbitrary: fs b)
  case Tip
  then have "?missing fs Tip b"
    by (intro exI [of _ fs] exI [of _ b]) (auto simp: insert_descend.simps)
  then show ?case ..
next
  case (Br c l a k r)
  note reads = rep_reads [OF Br.prems(1)] rep_neq_nil [OF Br.prems(1)]
  have sorted: "below lt (entries l) k" "over lt k (entries r)"
    using Br.prems(2) by (auto simp: sorted_keys_append below_def)
  consider "lt v k" | "\<not> lt v k" "lt k v" | "\<not> lt v k" "\<not> lt k v" by blast
  then show ?case
  proof cases
    case 1
    have "insert_descend lt t v (above (nil t) fs) a b =
        insert_descend lt t v a (topaddr (nil t) l) True"
      using 1 reads by (subst insert_descend.simps) simp
    moreover have "over lt v (entries r)" using sorted(2) asym [OF 1] by (rule over_mono)
    ultimately show ?thesis
      using Br.IH(1) [of "InL c a k r # fs" True] Br.prems 1 by simp
  next
    case 2
    have "insert_descend lt t v (above (nil t) fs) a b =
        insert_descend lt t v a (topaddr (nil t) r) False"
      using 2 reads by (subst insert_descend.simps) simp
    moreover have "below lt (entries l) v" using sorted(1) 2(1) by (rule below_mono)
    ultimately show ?thesis
      using Br.IH(2) [of "InR c l a k # fs" False] Br.prems 2 by simp
  next
    case 3
    have "insert_descend lt t v (above (nil t) fs) a b = Some (Inl a)"
      using 3 reads by (subst insert_descend.simps) simp
    moreover have "below lt (before fs @ entries l) v"
      using below_mono [OF sorted(1) 3(1)] Br.prems(3) by simp
    ultimately have "?found fs (Br c l a k r) b" using 3
      by (intro exI [of _ fs] exI [of _ c] exI [of _ l] exI [of _ a] exI [of _ k] exI [of _ r]) simp
    then show ?thesis ..
  qed
qed

end

section \<open>Both ends of a tree\<close>

definition ends_ok :: "'a rbtree \<Rightarrow> 'a shape \<Rightarrow> bool" where
  "ends_ok t s \<longleftrightarrow>
     first_node t = (if entries s = [] then nil t else fst (hd (entries s))) \<and>
     (entries s \<noteq> [] \<longrightarrow> last_node t = fst (last (entries s)))"

lemma plug_append: "plug (fs @ gs) s = plug gs (plug fs s)"
  by (induction fs arbitrary: s) auto

lemma before_append: "before (fs @ gs) = before gs @ before fs"
  by (induction fs rule: before.induct) auto

lemma after_append: "after (fs @ gs) = after fs @ after gs"
  by (induction fs rule: after.induct) auto

lemma entries_Nil_iff: "entries s = [] \<longleftrightarrow> s = Tip"
  by (cases s) auto

lemma leftmost_entry:
  "entries s \<noteq> [] \<Longrightarrow> \<exists>fs c k r. s = plug fs (Br c Tip (fst (hd (entries s))) k r) \<and> before fs = []"
proof (induction s)
  case (Br c l a k r)
  show ?case
  proof (cases "entries l = []")
    case True
    then show ?thesis by (intro exI [of _ "[]"]) (simp add: entries_Nil_iff)
  next
    case False
    then obtain fs c' k' r' where "l = plug fs (Br c' Tip (fst (hd (entries l))) k' r')" "before fs = []"
      using Br.IH(1) by blast
    with False show ?thesis
      by (intro exI [of _ "fs @ [InL c a k r]"] exI [of _ c'] exI [of _ k'] exI [of _ r'])
         (simp add: plug_append before_append)
  qed
qed simp

lemma rightmost_entry:
  "entries s \<noteq> [] \<Longrightarrow> \<exists>fs c l k. s = plug fs (Br c l (fst (last (entries s))) k Tip) \<and> after fs = []"
proof (induction s)
  case (Br c l a k r)
  show ?case
  proof (cases "entries r = []")
    case True
    then show ?thesis by (intro exI [of _ "[]"]) (simp add: entries_Nil_iff)
  next
    case False
    then obtain fs c' l' k' where "r = plug fs (Br c' l' (fst (last (entries r))) k' Tip)" "after fs = []"
      using Br.IH(2) by blast
    with False show ?thesis
      by (intro exI [of _ "fs @ [InR c l a k]"] exI [of _ c'] exI [of _ l'] exI [of _ k'])
         (simp add: plug_append after_append)
  qed
qed simp

lemma leftmost_reads:
  assumes "rep t s" "entries s \<noteq> []"
  shows "get_left t (fst (hd (entries s))) = Some (nil t)"
  using leftmost_entry [OF assms(2)] assms(1) rep_reads(4) by (metis topaddr.simps(1))

lemma rightmost_reads:
  assumes "rep t s" "entries s \<noteq> []"
  shows "get_right t (fst (last (entries s))) = Some (nil t)"
  using rightmost_entry [OF assms(2)] assms(1) rep_reads(5) by (metis topaddr.simps(1))

section \<open>Linking a new node\<close>

text \<open>The heap part of the link: allocation and the write to the parent (or the root).\<close>

definition attach :: "'a rbtree \<Rightarrow> 'a \<Rightarrow> 'a frame list \<Rightarrow> 'a rbtree" where
  "attach t v fs = t\<lparr>
     nodes := rehang (nil t) (fresh t) fs ((nodes t)(fresh t \<mapsto>
       \<lparr>key = v, is_black = False, parent = above (nil t) fs, left = nil t, right = nil t\<rparr>)),
     fresh := Suc (fresh t),
     root := (if fs = [] then fresh t else root t),
     first_node := (if fs = [] then fresh t else first_node t),
     last_node := (if fs = [] then fresh t else last_node t)\<rparr>"

lemma rep_fresh: "rep t s \<Longrightarrow> fresh t \<notin> set (addrs s)" "rep t s \<Longrightarrow> fresh t \<noteq> nil t"
  "rep t s \<Longrightarrow> 0 < fresh t"
proof -
  assume R: "rep t s"
  then have none: "nodes t (fresh t) = None" by (simp add: rep_def)
  then show "fresh t \<notin> set (addrs s)" using R repr_dom by (fastforce simp: rep_def)
  show "fresh t \<noteq> nil t" using R none by (auto simp: rep_def get_black_def)
  have "nil t \<noteq> 0" using R by (auto simp: rep_def get_black_def intro: ccontr)
  then show "0 < fresh t" using R by (auto simp: rep_def get_black_def intro: ccontr)
qed

lemma rep_attach:
  assumes R: "rep t (plug fs Tip)"
  shows "rep (attach t v fs) (plug fs (Br False Tip (fresh t) v Tip))"
proof -
  let ?n = "nil t" let ?a = "fresh t"
  let ?h = "(nodes t)(?a \<mapsto> \<lparr>key = v, is_black = False, parent = above ?n fs, left = ?n, right = ?n\<rparr>)"
  note fresh = rep_fresh [OF R]
  have fs: "?a \<notin> path_addrs fs" "?n \<notin> path_addrs fs" "distinct (addrs_before fs @ addrs_after fs)"
    using R fresh(1) by (auto simp: rep_def path_addrs_def)
  have path: "repr_path (nodes t) ?n ?n fs" using R by (simp add: rep_def repr_plug)
  then have "repr_path ?h ?n ?n fs" using fs by simp
  then have "repr_path (rehang ?n ?a fs ?h) ?n ?a fs" using fs(3) by (rule repr_path_rehang)
  moreover have other: "rehang ?n ?a fs ?h b = ?h b" if "b \<notin> path_addrs fs" for b
    using that by (rule rehang_other)
  moreover have "topaddr ?n (plug fs (Br False Tip ?a v Tip)) = root (attach t v fs)"
    using rep_root [OF R] top_plug_neq_Nil [of fs ?n "Br False Tip ?a v Tip" Tip]
    by (cases fs) (auto simp: attach_def)
  moreover have "nodes (attach t v fs) b = None" if "b = 0 \<or> Suc ?a \<le> b" for b
  proof -
    have "nodes t b = None" "b \<noteq> ?a" using that R fresh by (auto simp: rep_def)
    moreover from this have "b \<notin> path_addrs fs" using repr_path_dom [OF path] by blast
    ultimately show ?thesis using other by (simp add: attach_def)
  qed
  ultimately show ?thesis
    using R fs fresh by (auto simp: rep_def repr_plug attach_def get_black_def)
qed

lemma ends_attach:
  fixes t :: "'a rbtree" and v :: 'a
  assumes R: "rep t (plug fs Tip)" and ends: "ends_ok t (plug fs Tip)"
  defines "t1 \<equiv> attach t v fs" and "s1 \<equiv> plug fs (Br False Tip (fresh t) v Tip)"
  shows "\<exists>x. get_left t1 (first_node t1) = Some x \<and>
      fst (hd (entries s1)) = (if x \<noteq> nil t then x else first_node t1)"
    and "\<exists>x. get_right t1 (last_node t1) = Some x \<and>
      fst (last (entries s1)) = (if x \<noteq> nil t then x else last_node t1)"
proof -
  have R1: "rep t1 s1" unfolding t1_def s1_def by (rule rep_attach [OF R])
  have nil: "nil t1 = nil t" by (simp add: t1_def attach_def)
  have ne: "entries s1 \<noteq> []" by (simp add: s1_def)
  have fresh: "fresh t \<noteq> nil t" using rep_fresh [OF R] by simp
  show "\<exists>x. get_left t1 (first_node t1) = Some x \<and>
      fst (hd (entries s1)) = (if x \<noteq> nil t then x else first_node t1)"
  proof (cases "fs \<noteq> [] \<and> before fs = []")
    case True
    then obtain c a k r fs' where fs: "fs = InL c a k r # fs'" by (cases fs rule: before.cases) auto
    with R1 have "get_left t1 a = Some (fresh t)"
      using rep_reads(4) [of t1 fs' c "Br False Tip (fresh t) v Tip" a k r] by (simp add: s1_def)
    moreover have "first_node t1 = a" using ends True fs by (simp add: ends_ok_def t1_def attach_def)
    ultimately show ?thesis using True fresh by (simp add: s1_def)
  next
    case False
    then have "fst (hd (entries s1)) = first_node t1"
      using ends by (cases "fs = []") (auto simp: s1_def t1_def attach_def ends_ok_def hd_append)
    then show ?thesis using leftmost_reads [OF R1 ne] nil by simp
  qed
  show "\<exists>x. get_right t1 (last_node t1) = Some x \<and>
      fst (last (entries s1)) = (if x \<noteq> nil t then x else last_node t1)"
  proof (cases "fs \<noteq> [] \<and> after fs = []")
    case True
    then obtain c l a k fs' where fs: "fs = InR c l a k # fs'" by (cases fs rule: after.cases) auto
    with R1 have "get_right t1 a = Some (fresh t)"
      using rep_reads(5) [of t1 fs' c l a k "Br False Tip (fresh t) v Tip"] by (simp add: s1_def)
    moreover have "last_node t1 = a" using ends True fs by (simp add: ends_ok_def t1_def attach_def)
    ultimately show ?thesis using True fresh by (simp add: s1_def)
  next
    case False
    then have "fst (last (entries s1)) = last_node t1"
      using ends by (cases "fs = []") (auto simp: s1_def t1_def attach_def ends_ok_def last_append)
    then show ?thesis using rightmost_reads [OF R1 ne] nil by simp
  qed
qed

lemma link_new_node_rep:
  assumes R: "rep t (plug fs Tip)" and ends: "ends_ok t (plug fs Tip)"
    and b: "fs \<noteq> [] \<Longrightarrow> b = (\<exists>c a k r fs'. fs = InL c a k r # fs')"
  shows "\<exists>t'. link_new_node t v (above (nil t) fs) b = Some (t', fresh t) \<and>
     rep t' (plug fs (Br False Tip (fresh t) v Tip)) \<and>
     ends_ok t' (plug fs (Br False Tip (fresh t) v Tip)) \<and>
     fresh t' = Suc (fresh t) \<and> nil t' = nil t \<and> tsize t' = tsize t"
proof -
  let ?s = "plug fs (Br False Tip (fresh t) v Tip)" let ?t = "attach t v fs"
  obtain x y where x: "get_left ?t (first_node ?t) = Some x"
      "fst (hd (entries ?s)) = (if x \<noteq> nil t then x else first_node ?t)"
    and y: "get_right ?t (last_node ?t) = Some y"
      "fst (last (entries ?s)) = (if y \<noteq> nil t then y else last_node ?t)"
    using ends_attach [OF R ends] by blast
  let ?t' = "?t\<lparr>first_node := fst (hd (entries ?s)), last_node := fst (last (entries ?s))\<rparr>"
  let ?u = "t\<lparr>nodes := (nodes t)(fresh t \<mapsto> \<lparr>key = v, is_black = False, parent = above (nil t) fs,
      left = nil t, right = nil t\<rparr>), fresh := Suc (fresh t)\<rparr>"
  have link: "(if above (nil t) fs = nil t
      then Some (?u\<lparr>root := fresh t, first_node := fresh t, last_node := fresh t\<rparr>)
      else if b then set_left ?u (above (nil t) fs) (fresh t)
      else set_right ?u (above (nil t) fs) (fresh t)) = Some ?t"
  proof (cases fs)
    case Nil
    then show ?thesis by (simp add: attach_def)
  next
    case (Cons f fs')
    have "nil t \<notin> path_addrs fs" "fresh t \<notin> path_addrs fs"
      using R rep_fresh(1) [OF R] by (auto simp: rep_def path_addrs_def)
    moreover have "repr_path (nodes t) (nil t) (nil t) fs" using R by (simp add: rep_def repr_plug)
    ultimately show ?thesis using Cons b
      by (cases f) (auto simp: attach_def writes)
  qed
  have right: "get_right (?t\<lparr>first_node := z\<rparr>) (last_node ?t) = Some y" for z
    using y(1) by (simp add: get_right_def)
  have nil: "nil ?t = nil t" by (simp add: attach_def)
  have "link_new_node t v (above (nil t) fs) b = Some (?t', fresh t)"
    using link x y right by (simp add: link_new_node_def new_node_def nil)
  moreover have "rep ?t' ?s" using rep_attach [OF R, of v] by (simp add: rep_def get_black_def)
  ultimately show ?thesis by (intro exI [of _ ?t']) (simp add: ends_ok_def attach_def)
qed

section \<open>The tree invariant\<close>

definition rb_inv :: "('a \<Rightarrow> 'a \<Rightarrow> bool) \<Rightarrow> 'a rbtree \<Rightarrow> 'a shape \<Rightarrow> bool" where
  "rb_inv lt t s \<longleftrightarrow>
     rep t s \<and> rbt s \<and> sorted_keys lt (entries s) \<and> ends_ok t s \<and>
     tsize t = of_nat (length (entries s))"

definition is_index :: "('a \<Rightarrow> 'a \<Rightarrow> bool) \<Rightarrow> 'a rbtree \<Rightarrow> (nat \<times> 'a) list \<Rightarrow> bool" where
  "is_index lt t xs \<longleftrightarrow> (\<exists>s. rb_inv lt t s \<and> entries s = xs)"

lemma ends_ok_cong:
  "same_meta t t' \<Longrightarrow> map fst (entries s') = map fst (entries s) \<Longrightarrow> ends_ok t s \<Longrightarrow> ends_ok t' s'"
proof -
  assume "map fst (entries s') = map fst (entries s)"
  then have "entries s' = [] \<longleftrightarrow> entries s = []"
    and "entries s \<noteq> [] \<Longrightarrow> fst (hd (entries s')) = fst (hd (entries s))"
    and "entries s \<noteq> [] \<Longrightarrow> fst (last (entries s')) = fst (last (entries s))"
    by (metis Nil_is_map_conv, metis Nil_is_map_conv hd_map, metis Nil_is_map_conv last_map)
  moreover assume "same_meta t t'" "ends_ok t s"
  ultimately show "ends_ok t' s'" by (auto simp: ends_ok_def same_meta_def)
qed

lemma rebalance_insert_rep:
  assumes S: "insert_state t fs (Br False l a k r)"
  shows "\<exists>t' s'. rebalance_insert t a = Some t' \<and> rep t' s' \<and> rbt s' \<and> same_meta t t' \<and>
    entries s' = entries (plug fs (Br False l a k r))"
proof -
  obtain t1 s1 where t1: "rebalance_insert_loop t a = Some t1" "rep t1 s1" "same_meta t t1"
    "entries s1 = entries (plug fs (Br False l a k r))" "invc s1" "invh s1"
    using rebalance_insert_loop_rep [OF S] by (auto simp: balanced_from_def)
  from t1(4) obtain c sl b kb sr where s1: "s1 = Br c sl b kb sr" by (cases s1) auto
  with t1 have "rep t1 (plug [] (Br c sl b kb sr))" "root t1 = b" by (simp_all add: rep_def)
  from recolour [OF this(1), of True] this(2) obtain t2 where
    "set_black t1 (root t1) True = Some t2" "rep t2 (Br True sl b kb sr)" "same_meta t1 t2" by auto
  with t1 s1 show ?thesis
    by (intro exI [of _ t2] exI [of _ "Br True sl b kb sr"])
       (auto simp: rebalance_insert_def rbt_def intro: same_meta_trans)
qed

lemma new_rbtree_index: "is_index lt (new_rbtree d) []"
  unfolding is_index_def rb_inv_def
  by (intro exI [of _ Tip])
     (simp add: rep_def new_rbtree_def get_black_def ends_ok_def rbt_def)

lemma is_index_sorted: "is_index lt t xs \<Longrightarrow> sorted_keys lt xs"
  by (auto simp: is_index_def rb_inv_def)

lemma is_index_cong:
  assumes "is_index lt t xs"
    and "\<And>k j. k \<in> snd ` set xs \<Longrightarrow> j \<in> snd ` set xs \<Longrightarrow> lt' k j = lt k j"
  shows "is_index lt' t xs"
proof -
  obtain s where s: "rb_inv lt t s" "entries s = xs" using assms(1) by (auto simp: is_index_def)
  have "sorted_keys lt' xs"
    using s assms(2) unfolding rb_inv_def sorted_keys_def
    by (auto elim!: sorted_wrt_mono_rel [rotated])
  with s show ?thesis by (auto simp: is_index_def rb_inv_def)
qed

lemma is_index_size: "is_index lt t xs \<Longrightarrow> rb_size t = of_nat (length xs)"
  by (auto simp: is_index_def rb_inv_def rb_size_def)

lemma rep_distinct: "rep t s \<Longrightarrow> distinct (map fst (entries s))"
  by (simp add: rep_def map_fst_entries)

lemma is_index_distinct: "is_index lt t xs \<Longrightarrow> distinct (map fst xs)"
  by (auto simp: is_index_def rb_inv_def rep_distinct)

text \<open>Every entry is the focus of some decomposition of the tree.\<close>

lemma focus_exists:
  "(a, k) \<in> set (entries s) \<Longrightarrow> \<exists>fs c l r. s = plug fs (Br c l a k r)"
proof (induction s)
  case (Br c l b j r)
  then consider "(a, k) \<in> set (entries l)" | "a = b" "k = j" | "(a, k) \<in> set (entries r)" by auto
  then show ?case
  proof cases
    case 1
    with Br.IH(1) obtain fs c' l' r' where "l = plug fs (Br c' l' a k r')" by blast
    then show ?thesis
      by (intro exI [of _ "fs @ [InL c b j r]"] exI [of _ c'] exI [of _ l'] exI [of _ r'])
         (simp add: plug_append)
  next
    case 2
    then show ?thesis by (intro exI [of _ "[]"]) simp
  next
    case 3
    with Br.IH(2) obtain fs c' l' r' where "r = plug fs (Br c' l' a k r')" by blast
    then show ?thesis
      by (intro exI [of _ "fs @ [InR c l b j]"] exI [of _ c'] exI [of _ l'] exI [of _ r'])
         (simp add: plug_append)
  qed
qed simp

lemma entry_reads:
  assumes "rep t s" "(a, k) \<in> set (entries s)"
  shows "get_key t a = Some k" "a \<noteq> nil t"
proof -
  obtain fs c l r where "s = plug fs (Br c l a k r)" using focus_exists [OF assms(2)] by blast
  with assms(1) show "get_key t a = Some k" "a \<noteq> nil t" by (simp_all add: rep_reads rep_neq_nil)
qed

lemma is_index_first:
  assumes "is_index lt t xs"
  shows "rb_first t = Some (if xs = [] then None else Some (snd (hd xs)))"
proof -
  obtain s where s: "rep t s" "ends_ok t s" "entries s = xs"
    using assms by (auto simp: is_index_def rb_inv_def)
  show ?thesis
  proof (cases xs)
    case (Cons x ys)
    with entry_reads [OF s(1), of "fst x" "snd x"] s show ?thesis by (simp add: rb_first_def ends_ok_def)
  qed (use s in \<open>simp add: rb_first_def ends_ok_def\<close>)
qed

lemma is_index_last:
  assumes "is_index lt t xs" "xs \<noteq> []"
  shows "rb_last t = Some (Some (snd (last xs)))"
proof -
  obtain s where s: "rep t s" "ends_ok t s" "entries s = xs"
    using assms by (auto simp: is_index_def rb_inv_def)
  have "(fst (last xs), snd (last xs)) \<in> set (entries s)" using s assms by simp
  from entry_reads [OF s(1) this] s assms show ?thesis by (simp add: rb_last_def ends_ok_def)
qed

lemma find_entry_in: "find_entry lt v xs = Some e \<Longrightarrow> e \<in> set xs"
  by (induction lt v xs rule: find_entry.induct) (auto split: if_splits)

context comparator
begin

lemma rb_find_index:
  assumes "is_index lt t xs"
  shows "rb_find lt t v = Some (map_option snd (find_entry lt v xs))"
proof -
  obtain s where s: "rep t s" "entries s = xs" "sorted_keys lt (entries s)"
    using assms by (auto simp: is_index_def rb_inv_def)
  have "search_tree lt t (root t) v = Some (case find_entry lt v xs of None \<Rightarrow> nil t | Some e \<Rightarrow> fst e)"
    using search_tree_rep [of t "nil t" s v] s by (simp add: rep_def)
  moreover have "get_key t (fst e) = Some (snd e) \<and> fst e \<noteq> nil t" if "find_entry lt v xs = Some e" for e
    using entry_reads [OF s(1), of "fst e" "snd e"] find_entry_in [OF that] s by simp
  ultimately show ?thesis by (auto simp: rb_find_def split: option.splits)
qed

lemma sorted_replace:
  assumes S: "sorted_keys lt (xs @ (a, k) # ys)" and v: "\<not> lt v k" "\<not> lt k v"
  shows "sorted_keys lt (xs @ (b, v) # ys)"
proof -
  have m: "below lt xs k" "over lt k ys" using sorted_keys_mid [OF S] by simp_all
  have "below lt xs v" using m(1) v(1) by (rule below_mono)
  moreover have "over lt v ys" using m(2) v(2) by (rule over_mono)
  ultimately show ?thesis using S by (simp add: sorted_keys_append below_def)
qed

lemma rb_insert_replaces:
  assumes I: "rb_inv lt t (plug fs (Br c l a k r))" and v: "\<not> lt v k" "\<not> lt k v"
  shows "\<exists>t'. set_key t a v = Some t' \<and> rb_inv lt t' (plug fs (Br c l a v r)) \<and> fresh t' = fresh t"
proof -
  from I have R: "rep t (plug fs (Br c l a k r))" by (simp add: rb_inv_def)
  from set_key_rep [OF R] obtain t' where t': "set_key t a v = Some t'"
    "rep t' (plug fs (Br c l a v r))" "same_meta t t'" by blast
  have sorted: "sorted_keys lt (entries (plug fs (Br c l a v r)))"
    using I sorted_replace [OF _ v, of "before fs @ entries l" a "entries r @ after fs" a]
    by (simp add: rb_inv_def)
  have "ends_ok t' (plug fs (Br c l a v r))"
    using I by (intro ends_ok_cong [OF t'(3), of _ "plug fs (Br c l a k r)"]) (auto simp: rb_inv_def)
  moreover have "rbt (plug fs (Br c l a v r))" using I by (simp add: rb_inv_def rbt_plug)
  ultimately show ?thesis using t' sorted I by (simp add: rb_inv_def same_meta_def)
qed

lemma rb_insert_links:
  assumes I: "rb_inv lt t (plug fs Tip)" and v: "below lt (before fs) v" "over lt v (after fs)"
    and b: "fs \<noteq> [] \<longrightarrow> b = (\<exists>c a k r fs'. fs = InL c a k r # fs')"
  shows "\<exists>t1 t2 s'. link_new_node t v (above (nil t) fs) b = Some (t1, fresh t) \<and>
    rebalance_insert t1 (fresh t) = Some t2 \<and> rb_inv lt (t2\<lparr>tsize := tsize t2 + 1\<rparr>) s' \<and>
    entries s' = before fs @ (fresh t, v) # after fs \<and> fresh t2 = Suc (fresh t)"
proof -
  let ?s = "plug fs (Br False Tip (fresh t) v Tip)"
  have R: "rep t (plug fs Tip)" and E: "ends_ok t (plug fs Tip)" using I by (simp_all add: rb_inv_def)
  from link_new_node_rep [OF R E] b obtain t1 where
    t1: "link_new_node t v (above (nil t) fs) b = Some (t1, fresh t)" "rep t1 ?s" "ends_ok t1 ?s"
      "fresh t1 = Suc (fresh t)" "tsize t1 = tsize t" by blast
  have "insert_state t1 fs (Br False Tip (fresh t) v Tip)"
    using I t1 by (simp add: insert_state_def rb_inv_def rbt_plug)
  from rebalance_insert_rep [OF this] obtain t2 s' where
    t2: "rebalance_insert t1 (fresh t) = Some t2" "rep t2 s'" "rbt s'" "same_meta t1 t2"
      "entries s' = entries ?s" by blast
  have "ends_ok t2 s'" using t2 by (intro ends_ok_cong [OF t2(4) _ t1(3)]) simp
  moreover have "sorted_keys lt (before fs @ (fresh t, v) # after fs)"
    using I v trans by (simp add: rb_inv_def sorted_keys_append below_def)
  ultimately have "rb_inv lt (t2\<lparr>tsize := tsize t2 + 1\<rparr>) s'"
    using t1 t2 I by (simp add: rb_inv_def rep_def get_black_def ends_ok_def same_meta_def)
  with t1 t2 show ?thesis by (auto simp: same_meta_def)
qed

lemma rb_insert_index:
  assumes I: "is_index lt t xs"
  shows "\<exists>t'. rb_insert lt t v = Some t' \<and> is_index lt t' (ins_entry lt (fresh t) v xs) \<and>
    fresh t' = (if find_entry lt v xs = None then Suc (fresh t) else fresh t)"
proof -
  obtain s where s: "rb_inv lt t s" "entries s = xs" using I by (auto simp: is_index_def)
  then have "rep t (plug [] s)" "sorted_keys lt (entries (plug [] s))"
    and root: "root t = topaddr (nil t) s"
    by (simp_all add: rb_inv_def rep_def)
  from insert_descend_rep [OF this(1,2), of v True, simplified, folded root]
  show ?thesis
  proof (elim disjE exE conjE, goal_cases)
    case (1 fs c l a k r)
    then have sorted: "over lt v (entries r @ after fs)"
      using s over_mono [of k _ v] by (simp add: rb_inv_def sorted_keys_append)
    have xs: "xs = (before fs @ entries l) @ (a, k) # entries r @ after fs" using 1 s by simp
    have below: "below lt (before fs @ entries l) v" using 1 by simp
    from rb_insert_replaces [of t fs c l a k r v] s 1 obtain t' where
      t': "set_key t a v = Some t'" "rb_inv lt t' (plug fs (Br c l a v r))" "fresh t' = fresh t" by auto
    have "ins_entry lt (fresh t) v xs = entries (plug fs (Br c l a v r))"
      unfolding xs using ins_entry_replace [OF below 1(5,6)] by simp
    moreover have "find_entry lt v xs = Some (a, k)"
      unfolding xs find_entry_append [of lt v "before fs @ entries l"]
      using find_entry_below [OF below] 1(5,6) by simp
    ultimately show ?thesis using 1(1) t' unfolding is_index_def
      by (intro exI [of _ t']) (auto simp: rb_insert_def)
  next
    case (2 fs b)
    from rb_insert_links [of t fs v b] s 2 obtain t1 t2 s' where
      t2: "link_new_node t v (above (nil t) fs) b = Some (t1, fresh t)"
        "rebalance_insert t1 (fresh t) = Some t2" "rb_inv lt (t2\<lparr>tsize := tsize t2 + 1\<rparr>) s'"
        "entries s' = before fs @ (fresh t, v) # after fs" "fresh t2 = Suc (fresh t)" by auto
    have xs: "xs = before fs @ after fs" using 2 s by simp
    have "ins_entry lt (fresh t) v xs = entries s'"
      unfolding xs t2(4) by (rule ins_entry_between) (use 2 in auto)
    moreover have "find_entry lt v xs = None"
      unfolding xs using 2 by (simp add: find_entry_append find_entry_below find_entry_over)
    ultimately show ?thesis using 2(1) t2 unfolding is_index_def
      by (intro exI [of _ "t2\<lparr>tsize := tsize t2 + 1\<rparr>"]) (auto simp: rb_insert_def)
  qed
qed

end

end
