(* ===== verification/RBTree_Iter.thy ===== *)
theory RBTree_Iter
  imports RBTree_Index
begin

text \<open>
  Iteration and bounds: from the address of an entry, \<open>successor\<close> and \<open>predecessor\<close> reach the
  neighbouring entries, so that \<open>iterate\<close> visits the keys of an index in order; what
  \<open>lower_bound\<close> and \<open>upper_bound\<close> return.
\<close>

section \<open>Neighbours\<close>

text \<open>The address of the first entry of a list, or the sentinel.\<close>

fun it_of :: "nat \<Rightarrow> (nat \<times> 'a) list \<Rightarrow> nat" where
  "it_of n [] = n"
| "it_of n (x # xs) = fst x"

lemma it_of_append: "it_of n (xs @ ys) = (if xs = [] then it_of n ys else it_of n xs)"
  by (cases xs) auto

lemma top_neq_nil: "rep t (plug fs s) \<Longrightarrow> s \<noteq> Tip \<Longrightarrow> topaddr (nil t) s \<noteq> nil t"
  by (cases s) (auto simp: rep_def)

lemma most_left_rep:
  assumes "rep t (plug fs s)" "s \<noteq> Tip"
  shows "most_left t (topaddr (nil t) s) = Some (it_of (nil t) (entries s))"
  using assms
proof (induction s arbitrary: fs)
  case (Br c l a k r)
  note R = rep_reads [OF Br.prems(1)]
  show ?case
  proof (cases "l = Tip")
    case True
    then show ?thesis using R by (subst most_left.simps) simp
  next
    case False
    have S: "rep t (plug (InL c a k r # fs) l)" using Br.prems(1) by simp
    have "most_left t a = most_left t (topaddr (nil t) l)"
      using R top_neq_nil [OF S False] by (subst most_left.simps) simp
    then show ?thesis using Br.IH(1) [OF S False] False by (simp add: it_of_append entries_Nil_iff)
  qed
qed simp

lemma most_right_rep:
  assumes "rep t (plug fs s)" "s \<noteq> Tip"
  shows "most_right t (topaddr (nil t) s) = Some (it_of (nil t) (rev (entries s)))"
  using assms
proof (induction s arbitrary: fs)
  case (Br c l a k r)
  note R = rep_reads [OF Br.prems(1)]
  show ?case
  proof (cases "r = Tip")
    case True
    then show ?thesis using R by (subst most_right.simps) simp
  next
    case False
    have S: "rep t (plug (InR c l a k # fs) r)" using Br.prems(1) by simp
    have "most_right t a = most_right t (topaddr (nil t) r)"
      using R top_neq_nil [OF S False] by (subst most_right.simps) simp
    then show ?thesis using Br.IH(2) [OF S False] False by (simp add: it_of_append entries_Nil_iff)
  qed
qed simp

lemma successor_up_rep:
  assumes "rep t (plug fs s)" "s \<noteq> Tip"
  shows "successor_up t (topaddr (nil t) s) (above (nil t) fs) = Some (it_of (nil t) (after fs))"
  using assms
proof (induction fs arbitrary: s)
  case Nil
  then show ?case by (subst successor_up.simps) simp
next
  case (Cons f fs)
  show ?case
  proof (cases f)
    case (InL c b j r)
    with Cons.prems have P: "rep t (plug fs (Br c s b j r))" by simp
    have "topaddr (nil t) s \<noteq> topaddr (nil t) r" using distinct_focus(3) [OF P refl Cons.prems(2)] .
    with InL rep_reads(5) [OF P] rep_neq_nil [OF P] rep_neq_0 [OF P] show ?thesis
      by (subst successor_up.simps) simp
  next
    case (InR c l b j)
    with Cons.prems have P: "rep t (plug fs (Br c l b j s))" by simp
    with InR rep_reads [OF P] rep_neq_nil [OF P] rep_neq_0 [OF P] Cons.IH [OF P] show ?thesis
      by (subst successor_up.simps) simp
  qed
qed

lemma predecessor_up_rep:
  assumes "rep t (plug fs s)" "s \<noteq> Tip"
  shows "predecessor_up t (topaddr (nil t) s) (above (nil t) fs) = Some (it_of (nil t) (rev (before fs)))"
  using assms
proof (induction fs arbitrary: s)
  case Nil
  then show ?case by (subst predecessor_up.simps) simp
next
  case (Cons f fs)
  show ?case
  proof (cases f)
    case (InR c l b j)
    with Cons.prems have P: "rep t (plug fs (Br c l b j s))" by simp
    have "topaddr (nil t) l \<noteq> topaddr (nil t) s" using distinct_focus(4) [OF P refl Cons.prems(2)] .
    with InR rep_reads(4) [OF P] rep_neq_nil [OF P] show ?thesis
      by (subst predecessor_up.simps) simp
  next
    case (InL c b j r)
    with Cons.prems have P: "rep t (plug fs (Br c s b j r))" by simp
    with InL rep_reads [OF P] rep_neq_nil [OF P] Cons.IH [OF P] show ?thesis
      by (subst predecessor_up.simps) simp
  qed
qed

lemma successor_rep:
  assumes R: "rep t (plug fs (Br c l a k r))"
  shows "successor t a = Some (it_of (nil t) (entries r @ after fs))"
proof (cases "r = Tip")
  case True
  with successor_up_rep [OF R] rep_reads [OF R] show ?thesis by (simp add: successor_def)
next
  case False
  have Rr: "rep t (plug (InR c l a k # fs) r)" using R by simp
  with top_neq_nil [OF Rr False] most_left_rep [OF Rr False] False rep_reads [OF R] show ?thesis
    by (simp add: successor_def it_of_append entries_Nil_iff)
qed

lemma predecessor_rep:
  assumes R: "rep t (plug fs (Br c l a k r))"
  shows "predecessor t a = Some (it_of (nil t) (rev (before fs @ entries l)))"
proof (cases "l = Tip")
  case True
  with predecessor_up_rep [OF R] rep_reads [OF R] show ?thesis by (simp add: predecessor_def)
next
  case False
  have Rl: "rep t (plug (InL c a k r # fs) l)" using R by simp
  with top_neq_nil [OF Rl False] most_right_rep [OF Rl False] False rep_reads [OF R] show ?thesis
    by (simp add: predecessor_def it_of_append entries_Nil_iff)
qed

text \<open>The same on the list of entries; the addresses are distinct, so the split is unique.\<close>

lemma split_unique:
  assumes "distinct (map fst (ys @ (a, k) # zs))" "ys @ (a, k) # zs = ys' @ (a, k') # zs'"
  shows "ys = ys' \<and> k = k' \<and> zs = zs'"
  using assms
proof (induction ys arbitrary: ys')
  case Nil
  then show ?case by (cases ys') auto
next
  case (Cons y ys)
  show ?case
  proof (cases ys')
    case Nil
    with Cons.prems show ?thesis by auto
  next
    case (Cons y' ys'')
    with Cons.prems(2) have y: "y = y'" "ys @ (a, k) # zs = ys'' @ (a, k') # zs'" by simp_all
    have "distinct (map fst (ys @ (a, k) # zs))" using Cons.prems(1) by simp
    from Cons.IH [OF this y(2)] y(1) Cons show ?thesis by simp
  qed
qed

lemma rep_split:
  assumes "rep t s" "entries s = ys @ (a, k) # zs"
  obtains fs c l r where "s = plug fs (Br c l a k r)" "before fs @ entries l = ys" "entries r @ after fs = zs"
proof -
  obtain fs c l r where s: "s = plug fs (Br c l a k r)" using focus_exists [of a k s] assms by auto
  have "distinct (map fst (ys @ (a, k) # zs))" using rep_distinct [OF assms(1)] assms(2) by simp
  moreover have "ys @ (a, k) # zs = (before fs @ entries l) @ (a, k) # entries r @ after fs"
    using assms(2) s by simp
  ultimately have "ys = before fs @ entries l \<and> zs = entries r @ after fs"
    using split_unique [of ys a k zs] by blast
  with s that show ?thesis by simp
qed

lemma index_reads:
  assumes "is_index lt t (ys @ (a, k) # zs)"
  shows "get_key t a = Some k" "a \<noteq> nil t" "successor t a = Some (it_of (nil t) zs)"
    "predecessor t a = Some (it_of (nil t) (rev ys))"
proof -
  obtain s where s: "rep t s" "entries s = ys @ (a, k) # zs"
    using assms by (auto simp: is_index_def rb_inv_def)
  then show "get_key t a = Some k" "a \<noteq> nil t" using entry_reads [OF s(1), of a k] by simp_all
  obtain fs c l r where f: "s = plug fs (Br c l a k r)" "before fs @ entries l = ys"
    "entries r @ after fs = zs" using rep_split [OF s] .
  with successor_rep [of t fs c l a k r] predecessor_rep [of t fs c l a k r] s
  show "successor t a = Some (it_of (nil t) zs)" "predecessor t a = Some (it_of (nil t) (rev ys))"
    by simp_all
qed

lemma index_begin: "is_index lt t xs \<Longrightarrow> begin_it t = it_of (nil t) xs"
  by (cases xs) (auto simp: is_index_def rb_inv_def ends_ok_def begin_it_def)

lemma index_rbegin: "is_index lt t xs \<Longrightarrow> xs \<noteq> [] \<Longrightarrow> rbegin_it t = it_of (nil t) (rev xs)"
  by (cases xs rule: rev_cases) (auto simp: is_index_def rb_inv_def ends_ok_def rbegin_it_def)

lemma iterate_from:
  assumes "is_index lt t (ys @ zs)"
  shows "iterate t (it_of (nil t) zs) acc = Some (acc @ map snd zs)"
  using assms
proof (induction zs arbitrary: ys acc)
  case Nil
  then show ?case by (subst iterate.simps) (simp add: valid_it_def)
next
  case (Cons z zs)
  obtain a k where z: "z = (a, k)" by (cases z)
  with Cons.prems have I: "is_index lt t (ys @ (a, k) # zs)" by simp
  have "iterate t a acc = iterate t (it_of (nil t) zs) (acc @ [k])"
    using index_reads [OF I] by (subst iterate.simps) (simp add: valid_it_def)
  with Cons.IH [of "ys @ [z]" "acc @ [k]"] Cons.prems z show ?case by simp
qed

lemma iterate_index:
  assumes "is_index lt t xs"
  shows "iterate t (begin_it t) [] = Some (map snd xs)"
  using iterate_from [of lt t "[]" xs "[]"] assms by (simp add: index_begin)

section \<open>Bounds\<close>

text \<open>
  The first entry not below \<open>v\<close> (\<open>lower_bound\<close>) or strictly above \<open>v\<close> (\<open>upper_bound\<close>); when there
  is none, both return the last node instead of the end.
\<close>

fun first_from :: "('a \<Rightarrow> bool) \<Rightarrow> nat \<Rightarrow> (nat \<times> 'a) list \<Rightarrow> nat" where
  "first_from P n [] = n"
| "first_from P n (x # xs) = (if P (snd x) then fst x else first_from P n xs)"

lemma first_from_append:
  "first_from P n (xs @ ys) = first_from P (first_from P n ys) xs"
  by (induction xs) auto

lemma first_from_none: "\<forall>x \<in> set xs. \<not> P (snd x) \<Longrightarrow> first_from P n xs = n"
  by (induction xs) auto

context comparator
begin

lemma lower_bound_loop_rep:
  assumes "repr (nodes t) (nil t) p s" "nil t \<notin> set (addrs s)" "sorted_keys lt (entries s)"
  shows "lower_bound_loop lt t v (topaddr (nil t) s) res =
    Some (first_from (\<lambda>k. \<not> lt k v) res (entries s))"
  using assms
proof (induction s arbitrary: p res)
  case Tip
  show ?case by (subst lower_bound_loop.simps) simp
next
  case (Br c l a k r)
  note sorted = sorted_keys_mid [OF Br.prems(3) [simplified]]
  have reads: "get_key t a = Some k" "get_left t a = Some (topaddr (nil t) l)"
    "get_right t a = Some (topaddr (nil t) r)" "a \<noteq> nil t"
    using Br.prems by (simp_all add: reads)
  show ?case
  proof (cases "lt k v")
    case True
    have "\<forall>x \<in> set (entries l). lt (snd x) v"
      using sorted trans [OF _ True] by (auto simp: below_def)
    with True reads Br.IH(2) [of a] Br.prems sorted show ?thesis
      by (subst lower_bound_loop.simps) (simp add: first_from_append first_from_none)
  next
    case False
    with reads Br.IH(1) [of a] Br.prems sorted show ?thesis
      by (subst lower_bound_loop.simps) (simp add: first_from_append)
  qed
qed

lemma upper_bound_loop_rep:
  assumes "repr (nodes t) (nil t) p s" "nil t \<notin> set (addrs s)" "sorted_keys lt (entries s)"
  shows "upper_bound_loop lt t v (topaddr (nil t) s) res =
    Some (first_from (\<lambda>k. lt v k) res (entries s))"
  using assms
proof (induction s arbitrary: p res)
  case Tip
  show ?case by (subst upper_bound_loop.simps) simp
next
  case (Br c l a k r)
  note sorted = sorted_keys_mid [OF Br.prems(3) [simplified]]
  have reads: "get_key t a = Some k" "get_left t a = Some (topaddr (nil t) l)"
    "get_right t a = Some (topaddr (nil t) r)" "a \<noteq> nil t"
    using Br.prems by (simp_all add: reads)
  show ?case
  proof (cases "lt v k")
    case False
    have "\<forall>x \<in> set (entries l). \<not> lt v (snd x)"
      using sorted trans [of v _ k] False by (auto simp: below_def)
    with False reads Br.IH(2) [of a] Br.prems sorted show ?thesis
      by (subst upper_bound_loop.simps) (simp add: first_from_append first_from_none)
  next
    case True
    with reads Br.IH(1) [of a] Br.prems sorted show ?thesis
      by (subst upper_bound_loop.simps) (simp add: first_from_append)
  qed
qed

lemma bounds_index:
  assumes "is_index lt t xs"
  shows "lower_bound lt t v = Some (first_from (\<lambda>k. \<not> lt k v) (last_node t) xs)"
    "upper_bound lt t v = Some (first_from (\<lambda>k. lt v k) (last_node t) xs)"
proof -
  obtain s where s: "rep t s" "entries s = xs" "sorted_keys lt (entries s)"
    using assms by (auto simp: is_index_def rb_inv_def)
  then show "lower_bound lt t v = Some (first_from (\<lambda>k. \<not> lt k v) (last_node t) xs)"
    "upper_bound lt t v = Some (first_from (\<lambda>k. lt v k) (last_node t) xs)"
    using lower_bound_loop_rep [of t "nil t" s v "last_node t"]
      upper_bound_loop_rep [of t "nil t" s v "last_node t"]
    by (simp_all add: rep_def lower_bound_def upper_bound_def)
qed

end

end
