(* ===== verification/RBTree_Spec.thy ===== *)
theory RBTree_Spec
  imports RBTree_Iter
begin

text \<open>
  What the tree promises its users, as a locale: a total lookup, insertion and traversal that
  behave like those of a strictly sorted list of keys. The tree of \<^verbatim>\<open>src/storage/rbtree.hpp\<close>
  provides it for every comparator. A lemma bounds the height by the number of nodes.
\<close>

section \<open>The contract of an ordered index\<close>

text \<open>Insertion into a sorted list of keys; an equal key is replaced.\<close>

fun put_key :: "('k \<Rightarrow> 'k \<Rightarrow> bool) \<Rightarrow> 'k \<Rightarrow> 'k list \<Rightarrow> 'k list" where
  "put_key lt v [] = [v]"
| "put_key lt v (k # ks) =
     (if lt v k then v # k # ks else if lt k v then k # put_key lt v ks else v # ks)"

definition same_key :: "('k \<Rightarrow> 'k \<Rightarrow> bool) \<Rightarrow> 'k \<Rightarrow> 'k \<Rightarrow> bool" where
  "same_key lt v k \<longleftrightarrow> \<not> lt v k \<and> \<not> lt k v"

locale ordered_index = comparator lt for lt :: "'k \<Rightarrow> 'k \<Rightarrow> bool" +
  fixes index :: "'t \<Rightarrow> 'k list \<Rightarrow> bool"
    and lookup :: "'t \<Rightarrow> 'k \<Rightarrow> 'k option option"
    and put :: "'t \<Rightarrow> 'k \<Rightarrow> 't option"
    and walk :: "'t \<Rightarrow> 'k list option"
  assumes index_sorted: "index t ks \<Longrightarrow> sorted_wrt lt ks"
    and lookup_index: "index t ks \<Longrightarrow> lookup t v = Some (find (same_key lt v) ks)"
    and put_index: "index t ks \<Longrightarrow> \<exists>t'. put t v = Some t' \<and> index t' (put_key lt v ks)"
    and walk_index: "index t ks \<Longrightarrow> walk t = Some ks"
begin

lemma find_put_key:
  assumes "sorted_wrt lt ks"
  shows "find (same_key lt w) (put_key lt v ks) =
    (if same_key lt w v then Some v else find (same_key lt w) ks)"
  using assms
proof (induction ks)
  case (Cons k ks)
  have cong: "same_key lt w x = same_key lt v x" if "same_key lt w v" for x
    using that equiv_lt_trans [of v w x] equiv_lt_trans [of w v x] lt_equiv_trans [of x v w]
      lt_equiv_trans [of x w v] by (auto simp: same_key_def)
  consider "lt v k" "\<not> same_key lt v k" | "lt k v" "\<not> lt v k" "\<not> same_key lt v k"
    | "\<not> lt v k" "\<not> lt k v" "same_key lt v k" by (auto simp: same_key_def dest: asym)
  then show ?case
  proof cases
    case 3
    then have "same_key lt w v = same_key lt w k"
      using neg_trans [of w v k] neg_trans [of k v w] neg_trans [of w k v] neg_trans [of v k w]
      by (simp add: same_key_def) metis
    with 3 show ?thesis by simp
  qed (use Cons cong [of k] in auto)
qed (simp add: same_key_def)

end

section \<open>The red-black tree provides it\<close>

definition tree_keys :: "('k \<Rightarrow> 'k \<Rightarrow> bool) \<Rightarrow> 'k rbtree \<Rightarrow> 'k list \<Rightarrow> bool" where
  "tree_keys lt t ks \<longleftrightarrow> (\<exists>xs. is_index lt t xs \<and> map snd xs = ks)"

lemma map_snd_ins_entry: "map snd (ins_entry lt a v xs) = put_key lt v (map snd xs)"
  by (induction lt a v xs rule: ins_entry.induct) auto

lemma map_snd_find_entry: "map_option snd (find_entry lt v xs) = find (same_key lt v) (map snd xs)"
  by (induction lt v xs rule: find_entry.induct) (auto simp: same_key_def)

sublocale comparator \<subseteq> rb: ordered_index lt "tree_keys lt" "rb_find lt" "rb_insert lt"
  "\<lambda>t. iterate t (begin_it t) []"
proof
  fix t ks v
  assume "tree_keys lt t ks"
  then obtain xs where xs: "is_index lt t xs" "map snd xs = ks" by (auto simp: tree_keys_def)
  show "sorted_wrt lt ks" using is_index_sorted [OF xs(1)] xs(2)
    by (auto simp: sorted_keys_def sorted_wrt_map)
  show "rb_find lt t v = Some (find (same_key lt v) ks)"
    using rb_find_index [OF xs(1)] xs(2) map_snd_find_entry [of lt v xs] by simp
  show "\<exists>t'. rb_insert lt t v = Some t' \<and> tree_keys lt t' (put_key lt v ks)"
    using rb_insert_index [OF xs(1), of v] xs(2) map_snd_ins_entry [of lt "fresh t" v xs]
    by (auto simp: tree_keys_def)
  show "iterate t (begin_it t) [] = Some ks" using iterate_index [OF xs(1)] xs(2) by simp
qed

lemma new_rbtree_keys: "tree_keys lt (new_rbtree d) []"
  using new_rbtree_index by (auto simp: tree_keys_def)

section \<open>Height\<close>

fun height :: "'a shape \<Rightarrow> nat" where
  "height Tip = 0"
| "height (Br c l a k r) = Suc (max (height l) (height r))"

lemma height_bheight: "invc s \<Longrightarrow> invh s \<Longrightarrow> height s \<le> 2 * bheight s + (if black s then 0 else 1)"
  by (induction s) (auto split: if_splits)

lemma bheight_size: "invh s \<Longrightarrow> 2 ^ bheight s \<le> Suc (length (entries s))"
proof (induction s)
  case (Br c l a k r)
  then have "2 ^ bheight l \<le> Suc (length (entries l))" "2 ^ bheight l \<le> Suc (length (entries r))"
    by auto
  then show ?case by simp
qed simp

lemma height_size: "rbt s \<Longrightarrow> 2 ^ height s \<le> (Suc (length (entries s)))\<^sup>2"
proof -
  assume s: "rbt s"
  then have "height s \<le> 2 * bheight s" using height_bheight [of s] by (simp add: rbt_def)
  then have "(2::nat) ^ height s \<le> 2 ^ (2 * bheight s)" by (intro power_increasing) simp_all
  also have "\<dots> = (2 ^ bheight s)\<^sup>2" by (simp add: power_mult [symmetric] mult.commute)
  also have "\<dots> \<le> (Suc (length (entries s)))\<^sup>2"
    using bheight_size [of s] s by (intro power_mono) (simp_all add: rbt_def)
  finally show ?thesis .
qed

section \<open>Properties of the tree\<close>

lemma less_comparator: "comparator ((<) :: 'a::linorder \<Rightarrow> 'a \<Rightarrow> bool)"
  by unfold_locales auto

text \<open>
  C7. Insertion refines insertion into a sorted list: on a well-formed tree with the entries
  \<open>xs\<close>, \<^verbatim>\<open>insert\<close> returns, and the result is a well-formed red-black tree (linked in both
  directions, coloured and balanced, with the right first and last node and size) whose entries
  are \<open>xs\<close> with the new key in its place, or with the equal key replaced.
\<close>

theorem rb_insert_refines:
  assumes "comparator lt" "is_index lt t xs"
  shows "\<exists>t'. rb_insert lt t v = Some t' \<and> is_index lt t' (ins_entry lt (fresh t) v xs) \<and>
    rb_size t' = (if find_entry lt v xs = None then rb_size t + 1 else rb_size t)"
proof -
  have "length (ins_entry lt a v ys) = (if find_entry lt v ys = None then Suc (length ys) else length ys)"
    if "sorted_keys lt ys" for a ys
    using that
  proof (induction ys)
    case (Cons y ys)
    obtain b k where y: "y = (b, k)" by (cases y)
    have "find_entry lt v ys = None" if "lt v k"
      using comparator.find_entry_over [OF assms(1)] comparator.over_mono [OF assms(1), of k ys v]
        comparator.asym [OF assms(1) that] Cons.prems y by simp
    with Cons y show ?case by auto
  qed simp
  then show ?thesis
    using comparator.rb_insert_index [OF assms, of v] is_index_sorted [OF assms(2)]
      is_index_size [OF assms(2)] is_index_size [of lt] by (auto split: if_splits)
qed

theorem rb_insert_refines_witness:
  "\<exists>t'. rb_insert (<) (new_rbtree (0::int)) 5 = Some t' \<and> is_index (<) t' [(2, 5)] \<and> rb_size t' = 1"
  using rb_insert_refines [OF less_comparator new_rbtree_index, of "0::int" 5]
  by (simp add: new_rbtree_def rb_size_def)

end
