(* ===== verification/Order.thy ===== *)
theory Order
  imports RBTree_Spec
begin

text \<open>
  Orders: \<^verbatim>\<open>src/data_structures/enums.hpp\<close>, \<^verbatim>\<open>order.hpp\<close> and \<^verbatim>\<open>order.cpp\<close>. An \<^verbatim>\<open>Order\<close> is a record; its
  shared pointers (\<^verbatim>\<open>_parent\<close>, \<^verbatim>\<open>_prev\<close>, \<^verbatim>\<open>_next\<close>) are addresses, 0 being the null pointer. Times are
  integers (seconds), quantities and prices are \<^verbatim>\<open>float\<close>s. \<^verbatim>\<open>std::time(0)\<close> is the argument \<open>now\<close> of
  the constructors.
\<close>

section \<open>Enumerations\<close>

datatype Side = UNKOWN | BUY | SELL

datatype OrderType = MARKET | LIMIT

datatype OrderStatus = ACCEPTED | MATCHED | NOT_MATCHED | REJECTED | CANCELLED | MODIFIED | NOT_FOUND

type_synonym OrderParams = "64 word"

text \<open>\<^verbatim>\<open>OrderParams\<close> is a bit set over 64 bits; these are its named values.\<close>

definition STOP :: OrderParams where "STOP = 1"
definition AON :: OrderParams where "AON = 2"
definition IOC :: OrderParams where "IOC = 4"
definition FOK :: OrderParams where "FOK = or AON IOC"
definition GTC :: OrderParams where "GTC = 8"
definition GFD :: OrderParams where "GFD = 16"
definition GTD :: OrderParams where "GTD = 32"
definition STOP_GTC :: OrderParams where "STOP_GTC = or STOP GTC"
definition STOP_GFD :: OrderParams where "STOP_GFD = or STOP GFD"
definition STOP_GTD :: OrderParams where "STOP_GTD = or STOP GTD"

lemmas param_defs = STOP_def AON_def IOC_def FOK_def GTC_def GFD_def GTD_def
  STOP_GTC_def STOP_GFD_def STOP_GTD_def

definition params_and :: "OrderParams \<Rightarrow> OrderParams \<Rightarrow> OrderParams" where
  "params_and lhs rhs = and lhs rhs"

fun side_code :: "Side \<Rightarrow> 8 word" where
  "side_code UNKOWN = 0" | "side_code BUY = 1" | "side_code SELL = 2"

fun type_code :: "OrderType \<Rightarrow> 8 word" where
  "type_code MARKET = 0" | "type_code LIMIT = 1"

section \<open>The order record\<close>

record order =
  order_id :: string
  instrument :: string
  user_id :: string
  timestamp :: int
  initial_qty :: f32
  current_qty :: f32
  price :: f32
  stop_price :: f32
  side :: Side
  cancelled :: bool
  params :: OrderParams
  order_type :: OrderType
  expire_time :: int
  limit_parent :: nat
  prev_order :: nat
  next_order :: nat

text \<open>The four constructors: with or without an id, with or without a stop price.\<close>

definition new_stop_order ::
    "int \<Rightarrow> string \<Rightarrow> string \<Rightarrow> string \<Rightarrow> f32 \<Rightarrow> f32 \<Rightarrow> f32 \<Rightarrow> Side \<Rightarrow> OrderParams \<Rightarrow> OrderType \<Rightarrow> int \<Rightarrow> order" where
  "new_stop_order now i instr user q p sp sd ps ty ex =
     \<lparr>order_id = i, instrument = instr, user_id = user, timestamp = now, initial_qty = q,
      current_qty = q, price = p, stop_price = sp, side = sd, cancelled = False, params = ps,
      order_type = ty, expire_time = ex, limit_parent = 0, prev_order = 0, next_order = 0\<rparr>"

definition new_order ::
    "int \<Rightarrow> string \<Rightarrow> string \<Rightarrow> string \<Rightarrow> f32 \<Rightarrow> f32 \<Rightarrow> Side \<Rightarrow> OrderParams \<Rightarrow> OrderType \<Rightarrow> int \<Rightarrow> order" where
  "new_order now i instr user q p sd ps ty ex =
     \<lparr>order_id = i, instrument = instr, user_id = user, timestamp = now, initial_qty = q,
      current_qty = q, price = p, stop_price = 0, side = sd, cancelled = False, params = ps,
      order_type = ty, expire_time = ex, limit_parent = 0, prev_order = 0, next_order = 0\<rparr>"

definition new_anonymous_order ::
    "int \<Rightarrow> string \<Rightarrow> string \<Rightarrow> f32 \<Rightarrow> f32 \<Rightarrow> Side \<Rightarrow> OrderParams \<Rightarrow> OrderType \<Rightarrow> int \<Rightarrow> order" where
  "new_anonymous_order now instr user q p sd ps ty ex =
     \<lparr>order_id = [], instrument = instr, user_id = user, timestamp = now, initial_qty = q,
      current_qty = q, price = p, stop_price = 0, side = sd, cancelled = False, params = ps,
      order_type = ty, expire_time = ex, limit_parent = 0, prev_order = 0, next_order = 0\<rparr>"

definition new_anonymous_stop_order ::
    "int \<Rightarrow> string \<Rightarrow> string \<Rightarrow> f32 \<Rightarrow> f32 \<Rightarrow> f32 \<Rightarrow> Side \<Rightarrow> OrderParams \<Rightarrow> OrderType \<Rightarrow> int \<Rightarrow> order" where
  "new_anonymous_stop_order now instr user q p sp sd ps ty ex =
     \<lparr>order_id = [], instrument = instr, user_id = user, timestamp = now, initial_qty = q,
      current_qty = q, price = p, stop_price = sp, side = sd, cancelled = False, params = ps,
      order_type = ty, expire_time = ex, limit_parent = 0, prev_order = 0, next_order = 0\<rparr>"

section \<open>Operations\<close>

text \<open>The exceptions the code throws.\<close>

datatype exn = Invalid_argument string | Runtime_error string | Parse_error string

definition set_id :: "string \<Rightarrow> order \<Rightarrow> order" where
  "set_id i ord = ord\<lparr>order_id := i\<rparr>"

definition set_price :: "f32 \<Rightarrow> order \<Rightarrow> order" where
  "set_price p ord = ord\<lparr>price := p\<rparr>"

definition is_buy :: "order \<Rightarrow> bool" where
  "is_buy ord \<longleftrightarrow> side ord = BUY"

definition cancel :: "order \<Rightarrow> order" where
  "cancel ord = ord\<lparr>cancelled := True\<rparr>"

definition is_cancelled :: "order \<Rightarrow> bool" where
  "is_cancelled ord = cancelled ord"

definition get_qty :: "order \<Rightarrow> f32" where
  "get_qty ord = current_qty ord"

definition is_fullfilled :: "order \<Rightarrow> bool" where
  "is_fullfilled ord \<longleftrightarrow> current_qty ord = 0"

definition set_limit_parent :: "nat \<Rightarrow> order \<Rightarrow> order" where
  "set_limit_parent l ord = ord\<lparr>limit_parent := l\<rparr>"

definition increase_qty :: "f32 \<Rightarrow> order \<Rightarrow> order" where
  "increase_qty d ord = ord\<lparr>current_qty := fadd32 (current_qty ord) d\<rparr>"

definition decrease_qty :: "f32 \<Rightarrow> order \<Rightarrow> exn + order" where
  "decrease_qty d ord =
     (if current_qty ord < d
      then Inl (Invalid_argument ''Modifying quantity must not be bigger than current quantity'')
      else Inr (ord\<lparr>current_qty := fsub32 (current_qty ord) d\<rparr>))"

definition fill :: "order \<Rightarrow> order" where
  "fill ord = ord\<lparr>current_qty := 0\<rparr>"

definition set_params :: "OrderParams \<Rightarrow> order \<Rightarrow> order" where
  "set_params ps ord = ord\<lparr>params := ps\<rparr>"

definition has_param :: "order \<Rightarrow> OrderParams \<Rightarrow> bool" where
  "has_param ord p \<longleftrightarrow> and (params ord) p \<noteq> 0"

text \<open>\<^verbatim>\<open>set_expire_time\<close> takes an unsigned number and stores it in the signed \<^verbatim>\<open>time_t\<close>.\<close>

definition set_expire_time :: "64 word \<Rightarrow> order \<Rightarrow> order" where
  "set_expire_time w ord = ord\<lparr>expire_time := sint w\<rparr>"

definition order_eq :: "order \<Rightarrow> order \<Rightarrow> bool" where
  "order_eq a b \<longleftrightarrow>
     order_id a = order_id b \<and> user_id a = user_id b \<and> cancelled a = cancelled b \<and>
     side a = side b \<and> price a = price b \<and> initial_qty a = initial_qty b \<and>
     current_qty a = current_qty b \<and> instrument a = instrument b \<and>
     timestamp a - timestamp b = 0"

text \<open>The other getters return a field.\<close>

definition get_id :: "order \<Rightarrow> string" where [simp]: "get_id ord = order_id ord"
definition get_price :: "order \<Rightarrow> f32" where [simp]: "get_price ord = price ord"
definition get_stop_price :: "order \<Rightarrow> f32" where [simp]: "get_stop_price ord = stop_price ord"
definition get_limit_parent :: "order \<Rightarrow> nat" where [simp]: "get_limit_parent ord = limit_parent ord"
definition get_type :: "order \<Rightarrow> OrderType" where [simp]: "get_type ord = order_type ord"
definition get_user_id :: "order \<Rightarrow> string" where [simp]: "get_user_id ord = user_id ord"
definition get_instrument :: "order \<Rightarrow> string" where [simp]: "get_instrument ord = instrument ord"
definition get_timestamp :: "order \<Rightarrow> int" where [simp]: "get_timestamp ord = timestamp ord"
definition get_initial_qty :: "order \<Rightarrow> f32" where [simp]: "get_initial_qty ord = initial_qty ord"
definition get_type_uint8 :: "order \<Rightarrow> 8 word" where [simp]: "get_type_uint8 ord = type_code (order_type ord)"
definition get_side_uint8 :: "order \<Rightarrow> 8 word" where [simp]: "get_side_uint8 ord = side_code (side ord)"
definition get_params_uint64 :: "order \<Rightarrow> 64 word" where [simp]: "get_params_uint64 ord = params ord"
definition get_side :: "order \<Rightarrow> Side" where [simp]: "get_side ord = side ord"
definition get_expire_time :: "order \<Rightarrow> int" where [simp]: "get_expire_time ord = expire_time ord"

definition order_neq :: "order \<Rightarrow> order \<Rightarrow> bool" where
  "order_neq a b \<longleftrightarrow> \<not> order_eq a b"

section \<open>Comparators\<close>

definition OrderComparator :: "bool \<Rightarrow> order \<Rightarrow> order \<Rightarrow> bool" where
  "OrderComparator asc lhs rhs =
     (if get_price lhs = get_price rhs then get_timestamp lhs < get_timestamp rhs
      else if asc then get_price lhs < get_price rhs
      else get_price lhs > get_price rhs)"

definition DateOrderComparator :: "bool \<Rightarrow> order \<Rightarrow> order \<Rightarrow> bool" where
  "DateOrderComparator asc lhs rhs =
     (if asc then get_expire_time lhs < get_expire_time rhs else get_expire_time lhs > get_expire_time rhs)"

interpretation by_price: comparator "OrderComparator asc" for asc
  by unfold_locales (auto simp: OrderComparator_def split: if_splits)

interpretation by_date: comparator "DateOrderComparator asc" for asc
  by unfold_locales (auto simp: DateOrderComparator_def split: if_splits)

section \<open>Serialisation\<close>

text \<open>
  \<^verbatim>\<open>serialize\<close> lists the fields that go through the archive (order.hpp, line 107). The archive is
  the sequence of those fields; loading writes them into a default-constructed order, whose
  other fields have their initialisers: null pointers and a stop price of 0.
\<close>

type_synonym order_archive =
  "string \<times> string \<times> string \<times> int \<times> f32 \<times> f32 \<times> f32 \<times> bool \<times> Side \<times> OrderType \<times> OrderParams \<times> int"

definition save_archive :: "order \<Rightarrow> order_archive" where
  "save_archive ord =
     (order_id ord, instrument ord, user_id ord, timestamp ord, initial_qty ord, current_qty ord,
      price ord, cancelled ord, side ord, order_type ord, params ord, expire_time ord)"

definition load_archive :: "order_archive \<Rightarrow> order" where
  "load_archive =
     (\<lambda>(i, instr, user, ts, q, cq, p, cn, sd, ty, ps, ex).
        \<lparr>order_id = i, instrument = instr, user_id = user, timestamp = ts, initial_qty = q,
         current_qty = cq, price = p, stop_price = 0, side = sd, cancelled = cn, params = ps,
         order_type = ty, expire_time = ex, limit_parent = 0, prev_order = 0, next_order = 0\<rparr>)"

section \<open>Facts about orders\<close>

lemma load_save: "load_archive (save_archive ord) =
    ord\<lparr>stop_price := 0, limit_parent := 0, prev_order := 0, next_order := 0\<rparr>"
  by (cases ord) (simp add: load_archive_def save_archive_def)

lemma has_param_FOK: "has_param ord FOK \<longleftrightarrow> has_param ord AON \<or> has_param ord IOC"
proof -
  have "and (params ord) FOK = or (and (params ord) AON) (and (params ord) IOC)"
    by (simp add: FOK_def bit.conj_disj_distrib)
  then show ?thesis by (simp add: has_param_def bit_eq_iff) (auto simp: bit_simps)
qed

end
