(* ===== verification/Limit.thy ===== *)
theory Limit
  imports Order
begin

text \<open>
  Price levels: \<^verbatim>\<open>src/data_structures/limit.hpp\<close> and \<^verbatim>\<open>limit.cpp\<close>. A limit holds the ends of the
  doubly linked list of the orders resting at its price, 64-bit counters and \<^verbatim>\<open>double\<close> volumes.
  \<open>mem\<close> is the store of order objects.
\<close>

record limit =
  limit_price :: f32
  number_of_active_orders :: "64 word"
  total_number_of_orders :: "64 word"
  active_volume :: f64
  total_volume :: f64
  head_order :: nat
  tail_order :: nat

definition new_limit :: "f32 \<Rightarrow> limit" where
  "new_limit p = \<lparr>limit_price = p, number_of_active_orders = 0, total_number_of_orders = 0,
     active_volume = 0, total_volume = 0, head_order = 0, tail_order = 0\<rparr>"

definition increase_number_of_orders :: "limit \<Rightarrow> limit" where
  "increase_number_of_orders l = l\<lparr>number_of_active_orders := number_of_active_orders l + 1,
     total_number_of_orders := total_number_of_orders l + 1\<rparr>"

definition decrease_number_of_orders :: "limit \<Rightarrow> limit" where
  "decrease_number_of_orders l = l\<lparr>number_of_active_orders := number_of_active_orders l - 1\<rparr>"

definition increase_volume :: "f32 \<Rightarrow> limit \<Rightarrow> limit" where
  "increase_volume d l = l\<lparr>active_volume := fadd64 (active_volume l) d,
     total_volume := fadd64 (total_volume l) d\<rparr>"

definition decrease_volume :: "f32 \<Rightarrow> limit \<Rightarrow> limit" where
  "decrease_volume d l = l\<lparr>active_volume := max 0 (fsub64 (active_volume l) d)\<rparr>"

text \<open>The volumes are returned as \<^verbatim>\<open>float\<close>.\<close>

definition get_active_volume :: "limit \<Rightarrow> f32" where
  "get_active_volume l = to_f32 (active_volume l)"

definition get_total_volume :: "limit \<Rightarrow> f32" where
  "get_total_volume l = to_f32 (total_volume l)"

definition limit_empty :: "limit \<Rightarrow> bool" where
  "limit_empty l \<longleftrightarrow> head_order l = 0 \<and> tail_order l = 0"

definition limit_side :: "(nat \<rightharpoonup> order) \<Rightarrow> limit \<Rightarrow> Side option" where
  "limit_side mem l =
     (if limit_empty l then Some UNKOWN
      else do { ord \<leftarrow> mem (head_order l); Some (if is_buy ord then BUY else SELL) })"

definition limit_clear :: "limit \<Rightarrow> limit" where
  "limit_clear l = l\<lparr>head_order := 0, tail_order := 0\<rparr>"

partial_function (option) active_orders_from ::
    "(nat \<rightharpoonup> order) \<Rightarrow> nat \<Rightarrow> nat list \<Rightarrow> nat list option" where
  "active_orders_from mem cur acc =
     (if cur = 0 then Some acc
      else do {
        ord \<leftarrow> mem cur;
        active_orders_from mem (next_order ord)
          (if \<not> is_fullfilled ord \<and> \<not> is_cancelled ord then acc @ [cur] else acc)
      })"

definition all_active_orders :: "(nat \<rightharpoonup> order) \<Rightarrow> limit \<Rightarrow> nat list option" where
  "all_active_orders mem l = active_orders_from mem (head_order l) []"

declare active_orders_from.simps [code]

definition LimitComparator :: "bool \<Rightarrow> limit \<Rightarrow> limit \<Rightarrow> bool" where
  "LimitComparator asc lhs rhs =
     (if asc then limit_price lhs < limit_price rhs else limit_price lhs > limit_price rhs)"

interpretation by_limit: comparator "LimitComparator asc" for asc
  by unfold_locales (auto simp: LimitComparator_def split: if_splits)

section \<open>Volumes and counters\<close>

lemma limit_update_price [simp]:
  "limit_price (increase_number_of_orders l) = limit_price l"
  "limit_price (decrease_number_of_orders l) = limit_price l"
  "limit_price (increase_volume d l) = limit_price l"
  "limit_price (decrease_volume d l) = limit_price l"
  by (simp_all add: increase_number_of_orders_def decrease_number_of_orders_def
      increase_volume_def decrease_volume_def)

lemma limit_update_ends [simp]:
  "head_order (decrease_number_of_orders l) = head_order l"
  "tail_order (decrease_number_of_orders l) = tail_order l"
  "head_order (increase_volume d l) = head_order l"
  "tail_order (increase_volume d l) = tail_order l"
  "head_order (decrease_volume d l) = head_order l"
  "tail_order (decrease_volume d l) = tail_order l"
  by (simp_all add: decrease_number_of_orders_def increase_volume_def decrease_volume_def)

end
