(* ===== verification/OrderBook.thy ===== *)
theory OrderBook
  imports Limit
begin

text \<open>
  The order book of one instrument: \<^verbatim>\<open>src/orderbook/orderbook.hpp\<close> and \<^verbatim>\<open>orderbook.cpp\<close>. Orders and
  limits are objects behind shared pointers, so the book's record holds a store for each
  (\<open>order_mem\<close>, \<open>limit_mem\<close>); address 0 is null, an object stays in its store as long as anything
  may point to it. The trees hold addresses and compare the objects behind them.
  \<open>order_queue\<close> and \<open>trade_queue\<close> are the messages handed to the repositories with \<^verbatim>\<open>enqueue\<close>.
  \<open>clock\<close> is the value \<^verbatim>\<open>std::time(0)\<close> returns during the call.

  The operations are partial: \<open>None\<close> stands for an execution without a defined end (a null
  pointer is dereferenced, or a loop does not terminate). An execution that leaves by an
  exception, or that goes on to use the map entry it has just erased, returns \<open>Inl\<close> of the fault
  together with the book at that moment.
\<close>

section \<open>State\<close>

record Trade =
  buyer_id :: string
  seller_id :: string
  buyer_order_id :: string
  seller_order_id :: string
  trade_instrument :: string
  volume :: f32
  trade_price :: f32
  trade_timestamp :: int

record Spread =
  best_bid_price :: f32
  best_ask_price :: f32
  spread_market_price :: f32

record SnapshotLimit =
  snap_price :: f32
  snap_qty :: f32

record Snapshot =
  asks :: "SnapshotLimit list"
  bids :: "SnapshotLimit list"
  spread :: Spread

record OrderBook =
  book_instrument :: string
  market_price :: f32
  ask_limits :: "nat rbtree"
  bid_limits :: "nat rbtree"
  ask_stop_orders :: "nat rbtree"
  bid_stop_orders :: "nat rbtree"
  date_orders :: "nat rbtree"
  orders :: "(string \<times> nat) list"
  order_mem :: "nat \<rightharpoonup> order"
  limit_mem :: "nat \<rightharpoonup> limit"
  next_limit :: nat
  order_queue :: "nat list"
  trade_queue :: "Trade list"
  clock :: int

datatype fault = Thrown exn | Erased_entry

type_synonym 'a result = "(fault \<times> OrderBook) + 'a"

text \<open>Objects through their pointers; the comparators applied to addresses.\<close>

definition mod_order :: "(order \<Rightarrow> order) \<Rightarrow> OrderBook \<Rightarrow> nat \<Rightarrow> OrderBook option" where
  "mod_order f b p =
     (case order_mem b p of
        None \<Rightarrow> None
      | Some ord \<Rightarrow> Some (b\<lparr>order_mem := (order_mem b)(p \<mapsto> f ord)\<rparr>))"

definition mod_limit :: "(limit \<Rightarrow> limit) \<Rightarrow> OrderBook \<Rightarrow> nat \<Rightarrow> OrderBook option" where
  "mod_limit f b p =
     (case limit_mem b p of
        None \<Rightarrow> None
      | Some l \<Rightarrow> Some (b\<lparr>limit_mem := (limit_mem b)(p \<mapsto> f l)\<rparr>))"

definition order_at :: "OrderBook \<Rightarrow> nat \<Rightarrow> order" where
  "order_at b p = (case order_mem b p of Some ord \<Rightarrow> ord
     | None \<Rightarrow> new_order 0 [] [] [] 0 0 UNKOWN 0 MARKET 0)"

definition limit_at :: "OrderBook \<Rightarrow> nat \<Rightarrow> limit" where
  "limit_at b p = (case limit_mem b p of Some l \<Rightarrow> l | None \<Rightarrow> new_limit 0)"

definition ask_lt :: "OrderBook \<Rightarrow> nat \<Rightarrow> nat \<Rightarrow> bool" where
  "ask_lt b p q = LimitComparator True (limit_at b p) (limit_at b q)"

definition bid_lt :: "OrderBook \<Rightarrow> nat \<Rightarrow> nat \<Rightarrow> bool" where
  "bid_lt b p q = LimitComparator False (limit_at b p) (limit_at b q)"

definition ask_stop_lt :: "OrderBook \<Rightarrow> nat \<Rightarrow> nat \<Rightarrow> bool" where
  "ask_stop_lt b p q = OrderComparator False (order_at b p) (order_at b q)"

definition bid_stop_lt :: "OrderBook \<Rightarrow> nat \<Rightarrow> nat \<Rightarrow> bool" where
  "bid_stop_lt b p q = OrderComparator True (order_at b p) (order_at b q)"

definition date_lt :: "OrderBook \<Rightarrow> nat \<Rightarrow> nat \<Rightarrow> bool" where
  "date_lt b p q = DateOrderComparator True (order_at b p) (order_at b q)"

text \<open>The limits of the given side, and the store of a new tree of limits.\<close>

definition limits_of :: "bool \<Rightarrow> OrderBook \<Rightarrow> nat rbtree" where
  "limits_of buy b = (if buy then bid_limits b else ask_limits b)"

definition limits_lt :: "bool \<Rightarrow> OrderBook \<Rightarrow> nat \<Rightarrow> nat \<Rightarrow> bool" where
  "limits_lt buy b = (if buy then bid_lt b else ask_lt b)"

definition set_limits :: "bool \<Rightarrow> nat rbtree \<Rightarrow> OrderBook \<Rightarrow> OrderBook" where
  "set_limits buy t b = (if buy then b\<lparr>bid_limits := t\<rparr> else b\<lparr>ask_limits := t\<rparr>)"

definition enqueue_order :: "nat \<Rightarrow> OrderBook \<Rightarrow> OrderBook" where
  "enqueue_order p b = b\<lparr>order_queue := order_queue b @ [p]\<rparr>"

definition make_limit :: "f32 \<Rightarrow> OrderBook \<Rightarrow> nat \<times> OrderBook" where
  "make_limit p b =
     (next_limit b, b\<lparr>limit_mem := (limit_mem b)(next_limit b \<mapsto> new_limit p),
                      next_limit := Suc (next_limit b)\<rparr>)"

section \<open>Resting orders\<close>

text \<open>\<^verbatim>\<open>add_limit_order\<close>; \<open>buy\<close> tells which of the two trees is passed by reference.\<close>

definition add_limit_order :: "bool \<Rightarrow> nat \<Rightarrow> nat \<Rightarrow> OrderBook \<Rightarrow> OrderBook option" where
  "add_limit_order buy q lim b =
     do {
       maybe_orderbook_limit \<leftarrow> rb_find (limits_lt buy b) (limits_of buy b) lim;
       (case maybe_orderbook_limit of
          Some orderbook_limit \<Rightarrow>
            do {
              b \<leftarrow> mod_order (set_limit_parent orderbook_limit) b q;
              l \<leftarrow> limit_mem b orderbook_limit;
              b \<leftarrow> (if head_order l = 0 then
                      mod_limit (\<lambda>l. l\<lparr>head_order := q, tail_order := q\<rparr>) b orderbook_limit
                    else do {
                      let pom = tail_order l;
                      b \<leftarrow> mod_order (\<lambda>ord. ord\<lparr>next_order := q\<rparr>) b pom;
                      b \<leftarrow> mod_order (\<lambda>ord. ord\<lparr>prev_order := pom\<rparr>) b q;
                      mod_limit (\<lambda>l. l\<lparr>tail_order := q\<rparr>) b orderbook_limit
                    });
              ord \<leftarrow> order_mem b q;
              mod_limit (increase_volume (get_qty ord)) b orderbook_limit
            }
        | None \<Rightarrow>
            do {
              t \<leftarrow> rb_insert (limits_lt buy b) (limits_of buy b) lim;
              let b = set_limits buy t b;
              b \<leftarrow> mod_order (set_limit_parent lim) b q;
              b \<leftarrow> mod_limit (\<lambda>l. l\<lparr>head_order := q, tail_order := q\<rparr>) b lim;
              ord \<leftarrow> order_mem b q;
              mod_limit (increase_volume (get_qty ord)) b lim
            })
     }"

definition unlink_order :: "nat \<Rightarrow> OrderBook \<Rightarrow> OrderBook option" where
  "unlink_order e b =
     do {
       ord \<leftarrow> order_mem b e;
       if next_order ord \<noteq> 0 \<and> prev_order ord \<noteq> 0 then
         do {
           b \<leftarrow> mod_order (\<lambda>x. x\<lparr>prev_order := prev_order ord\<rparr>) b (next_order ord);
           ord \<leftarrow> order_mem b e;
           mod_order (\<lambda>x. x\<lparr>next_order := next_order ord\<rparr>) b (prev_order ord)
         }
       else if prev_order ord \<noteq> 0 then
         mod_order (\<lambda>x. x\<lparr>next_order := 0\<rparr>) b (prev_order ord)
       else if next_order ord \<noteq> 0 then
         mod_order (\<lambda>x. x\<lparr>prev_order := 0\<rparr>) b (next_order ord)
       else Some b
     }"

definition remove_limit_order :: "nat \<Rightarrow> OrderBook \<Rightarrow> OrderBook option" where
  "remove_limit_order e b =
     do {
       ord \<leftarrow> order_mem b e;
       let parent_limit = limit_parent ord;
       b \<leftarrow> mod_limit (decrease_volume (get_qty ord)) b parent_limit;
       b \<leftarrow> mod_limit decrease_number_of_orders b parent_limit;
       b \<leftarrow> unlink_order e b;
       l \<leftarrow> limit_mem b parent_limit;
       ord \<leftarrow> order_mem b e;
       b \<leftarrow> (if head_order l = e \<and> tail_order l = e then
               mod_limit (\<lambda>l. l\<lparr>head_order := 0, tail_order := 0\<rparr>) b parent_limit
             else if head_order l = e then
               mod_limit (\<lambda>l. l\<lparr>head_order := next_order ord\<rparr>) b parent_limit
             else if tail_order l = e then
               mod_limit (\<lambda>l. l\<lparr>tail_order := prev_order ord\<rparr>) b parent_limit
             else Some b);
       Some (b\<lparr>orders := AList.delete (order_id ord) (orders b)\<rparr>)
     }"

section \<open>Matching\<close>

definition calculate_cross_price :: "order \<Rightarrow> limit \<Rightarrow> OrderType \<Rightarrow> bool \<Rightarrow> f32 option" where
  "calculate_cross_price ord opposite_limit ty buy =
     (if (buy \<and> price ord < limit_price opposite_limit) \<or>
         (\<not> buy \<and> price ord > limit_price opposite_limit) then None
      else if ty = MARKET then Some (limit_price opposite_limit)
      else if ty = LIMIT then Some (if buy then price ord else limit_price opposite_limit)
      else None)"

definition handle_trade :: "nat \<Rightarrow> nat \<Rightarrow> f32 \<Rightarrow> f32 \<Rightarrow> OrderBook \<Rightarrow> OrderBook option" where
  "handle_trade recieved entry vol pr b =
     do {
       r \<leftarrow> order_mem b recieved;
       e \<leftarrow> order_mem b entry;
       let buyer = (if is_buy r then r else e);
       let seller = (if is_buy r then e else r);
       Some (b\<lparr>trade_queue := trade_queue b @
         [\<lparr>buyer_id = user_id buyer, seller_id = user_id seller,
           buyer_order_id = order_id buyer, seller_order_id = order_id seller,
           trade_instrument = book_instrument b, volume = vol, trade_price = pr,
           trade_timestamp = clock b\<rparr>]\<rparr>)
     }"

text \<open>\<^verbatim>\<open>decrease_qty\<close> on a stored order: the exception becomes a fault.\<close>

definition decrease_qty_at :: "f32 \<Rightarrow> OrderBook \<Rightarrow> nat \<Rightarrow> OrderBook result option" where
  "decrease_qty_at d b p =
     do {
       ord \<leftarrow> order_mem b p;
       (case decrease_qty d ord of
          Inl e \<Rightarrow> Some (Inl (Thrown e, b))
        | Inr ord' \<Rightarrow> map_option Inr (mod_order (\<lambda>_. ord') b p))
     }"

definition resolve_orders ::
    "nat \<Rightarrow> nat \<Rightarrow> f32 \<Rightarrow> nat list \<Rightarrow> OrderBook \<Rightarrow> (OrderBook \<times> nat list) result option" where
  "resolve_orders cur q cross_price changed b =
     do {
       curr_ord \<leftarrow> order_mem b cur;
       ord \<leftarrow> order_mem b q;
       let curr_order_qty = get_qty curr_ord;
       let order_qty = get_qty ord;
       let before_trade = order_qty;
       r \<leftarrow> (if order_qty \<le> curr_order_qty then
               do {
                 r \<leftarrow> decrease_qty_at order_qty b cur;
                 (case r of
                    Inl f \<Rightarrow> Some (Inl f)
                  | Inr b \<Rightarrow> map_option Inr (mod_order fill b q))
               }
             else if \<not> has_param ord AON then
               do {
                 r \<leftarrow> decrease_qty_at curr_order_qty b q;
                 (case r of
                    Inl f \<Rightarrow> Some (Inl f)
                  | Inr b \<Rightarrow> map_option Inr (mod_order fill b cur))
               }
             else Some (Inr b));
       (case r of
          Inl f \<Rightarrow> Some (Inl f)
        | Inr b \<Rightarrow>
            if order_qty \<noteq> before_trade then
              do {
                b \<leftarrow> handle_trade q cur (fsub32 before_trade order_qty) cross_price b;
                Some (Inr (b, changed @ [cur]))
              }
            else Some (Inr (b, changed)))
     }"

partial_function (option) process_limit_loop ::
    "nat \<Rightarrow> nat \<Rightarrow> f32 \<Rightarrow> nat list \<Rightarrow> OrderBook \<Rightarrow> (OrderBook \<times> nat list) result option" where
  "process_limit_loop cur q cross_price changed b =
     do {
       ord \<leftarrow> order_mem b q;
       if 0 < get_qty ord \<and> cur \<noteq> 0 then
         do {
           r \<leftarrow> resolve_orders cur q cross_price changed b;
           (case r of
              Inl f \<Rightarrow> Some (Inl f)
            | Inr (b, changed) \<Rightarrow>
                do {
                  curr_ord \<leftarrow> order_mem b cur;
                  b \<leftarrow> (if is_fullfilled curr_ord then remove_limit_order cur b else Some b);
                  curr_ord \<leftarrow> order_mem b cur;
                  process_limit_loop (next_order curr_ord) q cross_price changed b
                })
         }
       else Some (Inr (b, changed))
     }"

definition process_limit_order ::
    "nat \<Rightarrow> nat \<Rightarrow> f32 \<Rightarrow> nat list \<Rightarrow> OrderBook \<Rightarrow> (OrderBook \<times> nat list) result option" where
  "process_limit_order opposite_limit q cross_price changed b =
     do {
       l \<leftarrow> limit_mem b opposite_limit;
       process_limit_loop (head_order l) q cross_price changed b
     }"

text \<open>
  The loop of \<^verbatim>\<open>match_order\<close>; \<open>it\<close> is the iterator into the opposite limits, \<open>filled\<close> and
  \<open>changed\<close> are the two local vectors. The temporary \<^verbatim>\<open>Defer\<close> object before the loop runs its
  function at once, when both vectors are still empty, so it has no effect.
\<close>

partial_function (option) match_loop ::
    "nat \<Rightarrow> bool \<Rightarrow> bool \<Rightarrow> OrderType \<Rightarrow> nat \<Rightarrow> nat list \<Rightarrow> nat list \<Rightarrow> OrderBook \<Rightarrow>
     (OrderBook \<times> bool) result option" where
  "match_loop it is_aon buy ty q filled changed b =
     (if valid_it (limits_of (\<not> buy) b) it then
        do {
          opposite \<leftarrow> get_key (limits_of (\<not> buy) b) it;
          l \<leftarrow> limit_mem b opposite;
          ord \<leftarrow> order_mem b q;
          if is_aon \<and> get_active_volume l < get_qty ord then
            do {
              it' \<leftarrow> successor (limits_of (\<not> buy) b) it;
              match_loop it' is_aon buy ty q filled changed b
            }
          else
            (case calculate_cross_price ord l ty buy of
               None \<Rightarrow> Some (Inr (b, False))
             | Some cross_price \<Rightarrow>
                 do {
                   r \<leftarrow> process_limit_order opposite q cross_price changed b;
                   (case r of
                      Inl f \<Rightarrow> Some (Inl f)
                    | Inr (b, changed) \<Rightarrow>
                        do {
                          l \<leftarrow> limit_mem b opposite;
                          let filled = (if limit_empty l then filled @ [opposite] else filled);
                          let b = b\<lparr>market_price := cross_price\<rparr>;
                          ord \<leftarrow> order_mem b q;
                          if get_qty ord = 0 then Some (Inr (b, True))
                          else do {
                            it' \<leftarrow> successor (limits_of (\<not> buy) b) it;
                            match_loop it' is_aon buy ty q filled changed b
                          }
                        })
                 })
        }
      else Some (Inr (b, False)))"

definition match_order :: "nat \<Rightarrow> OrderBook \<Rightarrow> (OrderBook \<times> bool) result option" where
  "match_order q b =
     do {
       ord \<leftarrow> order_mem b q;
       match_loop (begin_it (limits_of (\<not> is_buy ord) b)) (has_param ord AON) (is_buy ord)
         (order_type ord) q [] [] b
     }"

section \<open>Stop orders and dated orders\<close>

definition add_stop_order :: "bool \<Rightarrow> nat \<Rightarrow> OrderBook \<Rightarrow> OrderBook option" where
  "add_stop_order buy q b =
     (if buy then
        do { t \<leftarrow> rb_insert (bid_stop_lt b) (bid_stop_orders b) q; Some (b\<lparr>bid_stop_orders := t\<rparr>) }
      else
        do { t \<leftarrow> rb_insert (ask_stop_lt b) (ask_stop_orders b) q; Some (b\<lparr>ask_stop_orders := t\<rparr>) })"

definition remove_stop_order :: "nat \<Rightarrow> OrderBook \<Rightarrow> OrderBook option" where
  "remove_stop_order q b =
     do {
       ord \<leftarrow> order_mem b q;
       b \<leftarrow> (if is_buy ord then
               do { (t, _) \<leftarrow> rb_remove (bid_stop_lt b) (bid_stop_orders b) q;
                    Some (b\<lparr>bid_stop_orders := t\<rparr>) }
             else
               do { (t, _) \<leftarrow> rb_remove (ask_stop_lt b) (ask_stop_orders b) q;
                    Some (b\<lparr>ask_stop_orders := t\<rparr>) });
       Some (b\<lparr>orders := AList.delete (order_id ord) (orders b)\<rparr>)
     }"

definition add_date_order :: "nat \<Rightarrow> OrderBook \<Rightarrow> OrderBook option" where
  "add_date_order q b =
     do {
       ord \<leftarrow> order_mem b q;
       if has_param ord GFD \<or> has_param ord GTD then
         do { t \<leftarrow> rb_insert (date_lt b) (date_orders b) q; Some (b\<lparr>date_orders := t\<rparr>) }
       else Some b
     }"

section \<open>The operations of the book\<close>

text \<open>The rest of \<^verbatim>\<open>add_order\<close> once matching has not filled the order (lines 53 to 66).\<close>

definition rest_order :: "nat \<Rightarrow> OrderBook \<Rightarrow> (OrderBook \<times> OrderStatus) option" where
  "rest_order q b =
     do {
       ord \<leftarrow> order_mem b q;
       if has_param ord FOK then
         do { b \<leftarrow> mod_order cancel b q; Some (b, NOT_MATCHED) }
       else
         do {
           let (lim, b) = make_limit (price ord) b;
           b \<leftarrow> add_limit_order (is_buy ord) q lim b;
           let b = b\<lparr>orders := AList.update (order_id ord) q (orders b)\<rparr>;
           b \<leftarrow> add_date_order q b;
           Some (b, ACCEPTED)
         }
     }"

text \<open>
  The temporary \<^verbatim>\<open>Defer\<close> object of \<^verbatim>\<open>add_order\<close> runs at the end of its own statement: the order is
  enqueued before it is processed.
\<close>

definition add_order :: "nat \<Rightarrow> OrderBook \<Rightarrow> (OrderBook \<times> OrderStatus) result option" where
  "add_order q b =
     do {
       let b = enqueue_order q b;
       ord \<leftarrow> order_mem b q;
       let buy = is_buy ord;
       if has_param ord STOP \<and>
          ((buy \<and> market_price b > stop_price ord) \<or> (\<not> buy \<and> market_price b < stop_price ord))
       then
         do {
           b \<leftarrow> add_stop_order buy q b;
           b \<leftarrow> add_date_order q b;
           Some (Inr (b, ACCEPTED))
         }
       else
         do {
           b \<leftarrow> (if has_param ord STOP \<and> order_type ord = MARKET
                 then mod_order (set_params IOC) b q else Some b);
           r \<leftarrow> match_order q b;
           (case r of
              Inl f \<Rightarrow> Some (Inl f)
            | Inr (b, True) \<Rightarrow> Some (Inr (b, MATCHED))
            | Inr (b, False) \<Rightarrow> map_option Inr (rest_order q b))
         }
     }"

text \<open>
  After \<^verbatim>\<open>remove_limit_order\<close> or \<^verbatim>\<open>remove_stop_order\<close> has erased the map entry, \<^verbatim>\<open>cancel_order\<close> and
  \<^verbatim>\<open>modify_order\<close> read \<^verbatim>\<open>orderbook_entry->second\<close> again; that use of the erased entry is the fault
  \<open>Erased_entry\<close>. When the map had no entry with the id that was erased, the iterator is still
  valid and the execution goes on.
\<close>

definition cancel_order :: "string \<Rightarrow> OrderBook \<Rightarrow> (OrderBook \<times> OrderStatus) result option" where
  "cancel_order i b =
     (case map_of (orders b) i of
        None \<Rightarrow> Some (Inr (b, NOT_FOUND))
      | Some q \<Rightarrow>
          do {
            b \<leftarrow> mod_order cancel b q;
            ord \<leftarrow> order_mem b q;
            b \<leftarrow> (if has_param ord STOP then remove_stop_order q b else remove_limit_order q b);
            if map_of (orders b) i = None then Some (Inl (Erased_entry, b))
            else Some (Inr (enqueue_order q b, CANCELLED))
          })"

definition modify_order :: "nat \<Rightarrow> OrderBook \<Rightarrow> (OrderBook \<times> OrderStatus) result option" where
  "modify_order n b =
     do {
       new_ord \<leftarrow> order_mem b n;
       (case map_of (orders b) (order_id new_ord) of
          None \<Rightarrow> Some (Inr (b, NOT_FOUND))
        | Some q \<Rightarrow>
            do {
              ord \<leftarrow> order_mem b q;
              if \<not> is_cancelled ord \<and> \<not> is_fullfilled ord then
                do {
                  b \<leftarrow> mod_order cancel b q;
                  if has_param ord STOP then
                    do {
                      b \<leftarrow> remove_stop_order n b;
                      b \<leftarrow> add_stop_order (is_buy new_ord) n b;
                      Some (Inr (enqueue_order n b, MODIFIED))
                    }
                  else
                    do {
                      b \<leftarrow> remove_limit_order q b;
                      if map_of (orders b) (order_id new_ord) = None then Some (Inl (Erased_entry, b))
                      else do {
                        b \<leftarrow> add_limit_order (is_buy new_ord) n (limit_parent ord) b;
                        Some (Inr (enqueue_order n b, MODIFIED))
                      }
                    }
                }
              else Some (Inr (b, NOT_FOUND))
            })
     }"

text \<open>The constructor, given the orders \<^verbatim>\<open>OrderRepository::get_all\<close> returned.\<close>

primrec restore_orders :: "nat list \<Rightarrow> OrderBook \<Rightarrow> OrderBook option" where
  "restore_orders [] b = Some b"
| "restore_orders (q # qs) b =
     do {
       ord \<leftarrow> order_mem b q;
       b \<leftarrow> (if has_param ord STOP then add_stop_order (is_buy ord) q b
             else do {
               let (lim, b) = make_limit (price ord) b;
               add_limit_order (is_buy ord) q lim b
             });
       restore_orders qs b
     }"

definition empty_book :: "string \<Rightarrow> f32 \<Rightarrow> (nat \<rightharpoonup> order) \<Rightarrow> int \<Rightarrow> OrderBook" where
  "empty_book instr mp mem now =
     \<lparr>book_instrument = instr, market_price = mp, ask_limits = new_rbtree 0,
      bid_limits = new_rbtree 0, ask_stop_orders = new_rbtree 0, bid_stop_orders = new_rbtree 0,
      date_orders = new_rbtree 0, orders = [], order_mem = mem, limit_mem = Map.empty,
      next_limit = 1, order_queue = [], trade_queue = [], clock = now\<rparr>"

definition new_book ::
    "string \<Rightarrow> f32 \<Rightarrow> nat list \<Rightarrow> (nat \<rightharpoonup> order) \<Rightarrow> int \<Rightarrow> OrderBook option" where
  "new_book instr mp stored mem now = restore_orders stored (empty_book instr mp mem now)"

definition book_size :: "OrderBook \<Rightarrow> nat" where
  "book_size b = length (orders b)"

section \<open>Queries\<close>

partial_function (option) list_from :: "OrderBook \<Rightarrow> nat \<Rightarrow> nat list \<Rightarrow> nat list option" where
  "list_from b q acc =
     (if q = 0 then Some acc
      else do { ord \<leftarrow> order_mem b q; list_from b (next_order ord) (acc @ [q]) })"

partial_function (option) list_limits ::
    "OrderBook \<Rightarrow> nat rbtree \<Rightarrow> nat \<Rightarrow> nat list \<Rightarrow> nat list option" where
  "list_limits b t it acc =
     (if valid_it t it then
        do {
          p \<leftarrow> get_key t it;
          l \<leftarrow> limit_mem b p;
          acc \<leftarrow> list_from b (head_order l) acc;
          it' \<leftarrow> successor t it;
          list_limits b t it' acc
        }
      else Some acc)"

definition get_bids :: "OrderBook \<Rightarrow> nat list option" where
  "get_bids b = list_limits b (bid_limits b) (begin_it (bid_limits b)) []"

definition get_asks :: "OrderBook \<Rightarrow> nat list option" where
  "get_asks b = list_limits b (ask_limits b) (begin_it (ask_limits b)) []"

definition get_bid_stop_orders :: "OrderBook \<Rightarrow> nat list option" where
  "get_bid_stop_orders b = iterate (bid_stop_orders b) (begin_it (bid_stop_orders b)) []"

definition get_ask_stop_orders :: "OrderBook \<Rightarrow> nat list option" where
  "get_ask_stop_orders b = iterate (ask_stop_orders b) (begin_it (ask_stop_orders b)) []"

definition get_orders_with_experation :: "OrderBook \<Rightarrow> nat list option" where
  "get_orders_with_experation b = iterate (date_orders b) (begin_it (date_orders b)) []"

definition price_behind :: "OrderBook \<Rightarrow> nat option \<Rightarrow> f32 option" where
  "price_behind b p = (case p of None \<Rightarrow> Some (fl (-1)) | Some q \<Rightarrow> map_option limit_price (limit_mem b q))"

definition get_spread :: "OrderBook \<Rightarrow> Spread option" where
  "get_spread b =
     do {
       best_bid \<leftarrow> rb_last (bid_limits b);
       best_ask \<leftarrow> rb_first (ask_limits b);
       ask \<leftarrow> price_behind b best_ask;
       bid \<leftarrow> price_behind b best_bid;
       Some \<lparr>best_bid_price = bid, best_ask_price = ask, spread_market_price = market_price b\<rparr>
     }"

partial_function (option) snapshot_limits ::
    "OrderBook \<Rightarrow> nat rbtree \<Rightarrow> nat \<Rightarrow> SnapshotLimit list \<Rightarrow> SnapshotLimit list option" where
  "snapshot_limits b t it acc =
     (if valid_it t it then
        do {
          p \<leftarrow> get_key t it;
          l \<leftarrow> limit_mem b p;
          it' \<leftarrow> successor t it;
          snapshot_limits b t it'
            (acc @ [\<lparr>snap_price = limit_price l, snap_qty = get_active_volume l\<rparr>])
        }
      else Some acc)"

definition get_snapshot_bids :: "OrderBook \<Rightarrow> SnapshotLimit list option" where
  "get_snapshot_bids b = snapshot_limits b (bid_limits b) (begin_it (bid_limits b)) []"

definition get_snapshot_asks :: "OrderBook \<Rightarrow> SnapshotLimit list option" where
  "get_snapshot_asks b = snapshot_limits b (ask_limits b) (begin_it (ask_limits b)) []"

definition get_snapshot :: "OrderBook \<Rightarrow> Snapshot option" where
  "get_snapshot b =
     do {
       a \<leftarrow> get_snapshot_asks b;
       d \<leftarrow> get_snapshot_bids b;
       s \<leftarrow> get_spread b;
       Some \<lparr>asks = a, bids = d, spread = s\<rparr>
     }"

section \<open>Activation of stop orders, expiry of dated orders\<close>

partial_function (option) activate_bid_stops ::
    "f32 \<Rightarrow> nat \<Rightarrow> nat list \<Rightarrow> OrderBook \<Rightarrow> (OrderBook \<times> nat list) result option" where
  "activate_bid_stops pr it acc b =
     (if valid_it (bid_stop_orders b) it then
        do {
          q \<leftarrow> get_key (bid_stop_orders b) it;
          ord \<leftarrow> order_mem b q;
          if stop_price ord \<le> pr then
            do {
              r \<leftarrow> add_order q b;
              (case r of
                 Inl f \<Rightarrow> Some (Inl f)
               | Inr (b, _) \<Rightarrow>
                   do {
                     q \<leftarrow> get_key (bid_stop_orders b) it;
                     it' \<leftarrow> predecessor (bid_stop_orders b) it;
                     activate_bid_stops pr it' (acc @ [q]) b
                   })
            }
          else Some (Inr (b, acc))
        }
      else Some (Inr (b, acc)))"

partial_function (option) activate_ask_stops ::
    "f32 \<Rightarrow> nat \<Rightarrow> nat list \<Rightarrow> OrderBook \<Rightarrow> (OrderBook \<times> nat list) result option" where
  "activate_ask_stops pr it acc b =
     (if valid_it (ask_stop_orders b) it then
        do {
          q \<leftarrow> get_key (ask_stop_orders b) it;
          ord \<leftarrow> order_mem b q;
          if pr \<le> stop_price ord then
            do {
              r \<leftarrow> add_order q b;
              (case r of
                 Inl f \<Rightarrow> Some (Inl f)
               | Inr (b, _) \<Rightarrow>
                   do {
                     q \<leftarrow> get_key (ask_stop_orders b) it;
                     it' \<leftarrow> successor (ask_stop_orders b) it;
                     activate_ask_stops pr it' (acc @ [q]) b
                   })
            }
          else Some (Inr (b, acc))
        }
      else Some (Inr (b, acc)))"

primrec remove_all :: "(nat \<Rightarrow> nat \<Rightarrow> bool) \<Rightarrow> nat list \<Rightarrow> nat rbtree \<Rightarrow> nat rbtree option" where
  "remove_all lt [] t = Some t"
| "remove_all lt (q # qs) t = do { (t, _) \<leftarrow> rb_remove lt t q; remove_all lt qs t }"

definition add_bid_stop_orders_below :: "f32 \<Rightarrow> OrderBook \<Rightarrow> OrderBook result option" where
  "add_bid_stop_orders_below pr b =
     do {
       r \<leftarrow> activate_bid_stops pr (rbegin_it (bid_stop_orders b)) [] b;
       (case r of
          Inl f \<Rightarrow> Some (Inl f)
        | Inr (b, to_remove) \<Rightarrow>
            do {
              t \<leftarrow> remove_all (bid_stop_lt b) to_remove (bid_stop_orders b);
              Some (Inr (b\<lparr>bid_stop_orders := t\<rparr>))
            })
     }"

definition add_ask_stop_orders_above :: "f32 \<Rightarrow> OrderBook \<Rightarrow> OrderBook result option" where
  "add_ask_stop_orders_above pr b =
     do {
       r \<leftarrow> activate_ask_stops pr (begin_it (ask_stop_orders b)) [] b;
       (case r of
          Inl f \<Rightarrow> Some (Inl f)
        | Inr (b, to_remove) \<Rightarrow>
            do {
              t \<leftarrow> remove_all (ask_stop_lt b) to_remove (ask_stop_orders b);
              Some (Inr (b\<lparr>ask_stop_orders := t\<rparr>))
            })
     }"

partial_function (option) expire_loop ::
    "int \<Rightarrow> nat \<Rightarrow> nat list \<Rightarrow> OrderBook \<Rightarrow> (OrderBook \<times> nat list) result option" where
  "expire_loop now it removed b =
     (if valid_it (date_orders b) it then
        do {
          q \<leftarrow> get_key (date_orders b) it;
          ord \<leftarrow> order_mem b q;
          if has_param ord GFD \<or> expire_time ord < now then
            do {
              r \<leftarrow> cancel_order (order_id ord) b;
              (case r of
                 Inl f \<Rightarrow> Some (Inl f)
               | Inr (b, _) \<Rightarrow>
                   do {
                     it' \<leftarrow> successor (date_orders b) it;
                     expire_loop now it' (removed @ [q]) b
                   })
            }
          else Some (Inr (b, removed))
        }
      else Some (Inr (b, removed)))"

definition check_date_orders :: "OrderBook \<Rightarrow> OrderBook result option" where
  "check_date_orders b =
     do {
       r \<leftarrow> expire_loop (clock b + 3600) (begin_it (date_orders b)) [] b;
       (case r of
          Inl f \<Rightarrow> Some (Inl f)
        | Inr (b, removed) \<Rightarrow>
            do {
              t \<leftarrow> remove_all (date_lt b) removed (date_orders b);
              Some (Inr (b\<lparr>date_orders := t\<rparr>))
            })
     }"

declare process_limit_loop.simps [code] match_loop.simps [code] list_from.simps [code]
declare list_limits.simps [code] snapshot_limits.simps [code] activate_bid_stops.simps [code]
declare activate_ask_stops.simps [code] expire_loop.simps [code]

end
