(* ===== verification/RingBuffer.thy ===== *)
theory RingBuffer
  imports Prelude
begin

text \<open>
  The single-producer single-consumer ring buffer of \<^verbatim>\<open>src/utils/ringbuffer.hpp\<close>. Positions are
  natural numbers: they stay at most \<^verbatim>\<open>_capacity\<close>, itself a 64-bit value, so their increments
  never wrap. A slot is accessed by index; an index outside the array is undefined (\<open>None\<close>).

  \<open>ring_push\<close> and \<open>ring_pop\<close> are the two operations run without interruption; \<open>spsc_step\<close> is the
  interleaving of one producer and one consumer at the granularity of the atomic accesses. The
  theory proves that the queue is first-in first-out as long as fewer than \<^verbatim>\<open>_capacity\<close> elements
  are outstanding, and that the producer never waits.
\<close>

section \<open>State and operations\<close>

record 'a ring =
  capacity :: nat
  read_pos :: nat
  read_pos_cache :: nat
  write_pos :: nat
  write_pos_cache :: nat
  slots :: "'a list"

text \<open>\<open>d\<close> is the default value of the element type, which fills the new array.\<close>

definition new_ring :: "'a \<Rightarrow> nat \<Rightarrow> 'a ring" where
  "new_ring d c = \<lparr>capacity = c, read_pos = 0, read_pos_cache = 0, write_pos = 0,
     write_pos_cache = 0, slots = replicate c d\<rparr>"

text \<open>One round of the waiting loop of \<^verbatim>\<open>push\<close>: the new state, and whether the loop is left.\<close>

definition push_try :: "'a ring \<Rightarrow> 'a ring \<times> bool" where
  "push_try r =
     (if Suc (write_pos r) = read_pos_cache r then
        let r = r\<lparr>read_pos_cache := read_pos r\<rparr> in (r, Suc (write_pos r) \<noteq> read_pos_cache r)
      else (r, True))"

definition push_write :: "'a ring \<Rightarrow> 'a \<Rightarrow> 'a ring option" where
  "push_write r v =
     (if write_pos r < length (slots r) then Some (r\<lparr>slots := (slots r)[write_pos r := v]\<rparr>) else None)"

definition push_commit :: "'a ring \<Rightarrow> 'a ring" where
  "push_commit r =
     r\<lparr>write_pos := (if Suc (write_pos r) = capacity r then 0 else Suc (write_pos r))\<rparr>"

definition push_store :: "'a ring \<Rightarrow> 'a \<Rightarrow> 'a ring option" where
  "push_store r v = do { r \<leftarrow> push_write r v; Some (push_commit r) }"

partial_function (option) ring_push :: "'a ring \<Rightarrow> 'a \<Rightarrow> 'a ring option" where
  "ring_push r v =
     (case push_try r of (r, ready) \<Rightarrow> if ready then push_store r v else ring_push r v)"

definition pop_check :: "'a ring \<Rightarrow> 'a ring \<times> bool" where
  "pop_check r =
     (if read_pos r = write_pos_cache r then
        let r = r\<lparr>write_pos_cache := write_pos r\<rparr> in (r, read_pos r \<noteq> write_pos_cache r)
      else (r, True))"

definition pop_read :: "'a ring \<Rightarrow> 'a option" where
  "pop_read r = (if read_pos r < length (slots r) then Some (slots r ! read_pos r) else None)"

definition pop_commit :: "'a ring \<Rightarrow> 'a ring" where
  "pop_commit r = r\<lparr>read_pos := (if Suc (read_pos r) = capacity r then 0 else Suc (read_pos r))\<rparr>"

definition pop_load :: "'a ring \<Rightarrow> ('a ring \<times> 'a) option" where
  "pop_load r = do { v \<leftarrow> pop_read r; Some (pop_commit r, v) }"

definition ring_pop :: "'a ring \<Rightarrow> ('a ring \<times> 'a option) option" where
  "ring_pop r =
     (case pop_check r of (r, ready) \<Rightarrow>
        if ready then map_option (\<lambda>(r, v). (r, Some v)) (pop_load r) else Some (r, None))"

declare ring_push.simps [code]

section \<open>Contents\<close>

text \<open>
  \<open>span c i j\<close> is the number of elements from position \<open>i\<close> up to position \<open>j\<close> on a circle of
  \<open>c\<close> slots, \<open>segment\<close> the elements themselves.
\<close>

definition span :: "nat \<Rightarrow> nat \<Rightarrow> nat \<Rightarrow> nat" where
  "span c i j = (if i \<le> j then j - i else c + j - i)"

definition segment :: "'a ring \<Rightarrow> nat \<Rightarrow> nat \<Rightarrow> 'a list" where
  "segment r i n = map (\<lambda>k. slots r ! ((i + k) mod capacity r)) [0..<n]"

definition contents :: "'a ring \<Rightarrow> 'a list" where
  "contents r = segment r (read_pos r) (span (capacity r) (read_pos r) (write_pos r))"

text \<open>
  The invariant: positions inside the array, the consumer's cached write position between the
  two positions, and the producer's cached read position 0.
\<close>

definition ring_inv :: "'a ring \<Rightarrow> bool" where
  "ring_inv r \<longleftrightarrow>
     0 < capacity r \<and> length (slots r) = capacity r \<and> read_pos r < capacity r \<and>
     write_pos r < capacity r \<and> write_pos_cache r < capacity r \<and> read_pos_cache r = 0 \<and>
     span (capacity r) (read_pos r) (write_pos_cache r) \<le> span (capacity r) (read_pos r) (write_pos r)"

lemma new_ring_inv: "0 < c \<Longrightarrow> ring_inv (new_ring d c)"
  by (simp add: ring_inv_def new_ring_def span_def)

lemma new_ring_capacity: "capacity (new_ring d c) = c"
  by (simp add: new_ring_def)

lemma new_ring_contents: "contents (new_ring d c) = []"
  by (simp add: contents_def new_ring_def span_def segment_def)

lemma length_contents: "length (contents r) = span (capacity r) (read_pos r) (write_pos r)"
  by (simp add: contents_def segment_def)

lemma contents_Nil_iff: "ring_inv r \<Longrightarrow> contents r = [] \<longleftrightarrow> read_pos r = write_pos r"
proof -
  assume "ring_inv r"
  then have "length (contents r) = 0 \<longleftrightarrow> read_pos r = write_pos r"
    by (auto simp: length_contents span_def ring_inv_def)
  then show ?thesis by simp
qed

lemma span_less: "i < c \<Longrightarrow> j < c \<Longrightarrow> span c i j < c"
  by (auto simp: span_def)

lemma span_position: "i < c \<Longrightarrow> j < c \<Longrightarrow> (i + span c i j) mod c = j"
  by (auto simp: span_def mod_if)

lemma span_other:
  assumes "i < c" "j < c" "k < span c i j"
  shows "(i + k) mod c \<noteq> j"
proof -
  have "(i + k) mod c = (if i + k < c then i + k else i + k - c)"
    using assms span_less [of i c j] by (simp add: mod_if [of "i + k" c])
  with assms show ?thesis by (auto simp: span_def split: if_splits)
qed

lemma span_Suc:
  "i < c \<Longrightarrow> j < c \<Longrightarrow> Suc (span c i j) < c \<Longrightarrow>
   span c i (if Suc j = c then 0 else Suc j) = Suc (span c i j)"
  by (auto simp: span_def split: if_splits)

text \<open>The producer never waits: its cached read position stays 0, which no position follows.\<close>

lemma push_try_ready: "read_pos_cache r = 0 \<Longrightarrow> push_try r = (r, True)"
  by (simp add: push_try_def)

lemma ring_push_eq: "read_pos_cache r = 0 \<Longrightarrow> ring_push r v = push_store r v"
  by (subst ring_push.simps) (simp add: push_try_ready)

lemma push_write_inv:
  assumes I: "ring_inv r"
  shows "\<exists>r'. push_write r v = Some r' \<and> ring_inv r' \<and> contents r' = contents r \<and>
    slots r' ! write_pos r' = v \<and> capacity r' = capacity r \<and> read_pos r' = read_pos r \<and>
    write_pos_cache r' = write_pos_cache r"
proof -
  let ?c = "capacity r" let ?i = "read_pos r" let ?j = "write_pos r"
  have b: "?i < ?c" "?j < ?c" "length (slots r) = ?c" using I by (simp_all add: ring_inv_def)
  have other: "?j \<noteq> (?i + k) mod ?c" if "k < span ?c ?i ?j" for k
    using span_other [OF b(1,2) that] by simp
  let ?r = "r\<lparr>slots := (slots r)[?j := v]\<rparr>"
  have "push_write r v = Some ?r" using b by (simp add: push_write_def)
  moreover have "ring_inv ?r" using I by (simp add: ring_inv_def)
  moreover have "contents ?r = contents r" using other by (auto simp: contents_def segment_def)
  ultimately show ?thesis using b by simp
qed

lemma push_commit_contents:
  assumes I: "ring_inv r" and room: "Suc (length (contents r)) < capacity r"
  shows "ring_inv (push_commit r)" "contents (push_commit r) = contents r @ [slots r ! write_pos r]"
proof -
  let ?c = "capacity r" let ?i = "read_pos r" let ?j = "write_pos r"
  let ?n = "span ?c ?i ?j"
  have b: "?i < ?c" "?j < ?c" "Suc ?n < ?c"
    using I room by (simp_all add: ring_inv_def length_contents)
  have n': "span ?c ?i (if Suc ?j = ?c then 0 else Suc ?j) = Suc ?n" using b by (intro span_Suc)
  have pos: "(?i + ?n) mod ?c = ?j" using b by (intro span_position)
  show "contents (push_commit r) = contents r @ [slots r ! ?j]"
    using pos by (simp add: push_commit_def contents_def segment_def n')
  show "ring_inv (push_commit r)" using I b n' by (simp add: ring_inv_def push_commit_def)
qed

lemma push_commit_capacity [simp]: "capacity (push_commit r) = capacity r"
  by (simp add: push_commit_def)

lemma push_store_contents:
  assumes I: "ring_inv r" and room: "Suc (length (contents r)) < capacity r"
  shows "\<exists>r'. push_store r v = Some r' \<and> ring_inv r' \<and> capacity r' = capacity r \<and>
    contents r' = contents r @ [v]"
proof -
  obtain r1 where r1: "push_write r v = Some r1" "ring_inv r1" "contents r1 = contents r"
    "slots r1 ! write_pos r1 = v" "capacity r1 = capacity r" using push_write_inv [OF I] by blast
  with push_commit_contents [OF r1(2)] room show ?thesis by (simp add: push_store_def)
qed

lemma push_store_overrun:
  assumes I: "ring_inv r" and full: "Suc (length (contents r)) = capacity r"
  shows "\<exists>r'. push_store r v = Some r' \<and> contents r' = [] \<and> read_pos r' = read_pos r \<and>
    write_pos_cache r' = write_pos_cache r \<and> write_pos r' = read_pos r"
proof -
  have "read_pos r = (if Suc (write_pos r) = capacity r then 0 else Suc (write_pos r))"
    using I full by (auto simp: ring_inv_def length_contents span_def split: if_splits)
  then show ?thesis
    using I by (auto simp: push_store_def push_write_def push_commit_def ring_inv_def contents_def
        segment_def span_def)
qed

lemma pop_check_inv:
  assumes "ring_inv r"
  shows "ring_inv (fst (pop_check r))" "contents (fst (pop_check r)) = contents r"
    "snd (pop_check r) \<longleftrightarrow> contents r \<noteq> []"
    "snd (pop_check r) \<Longrightarrow> write_pos_cache (fst (pop_check r)) \<noteq> read_pos (fst (pop_check r))"
    "capacity (fst (pop_check r)) = capacity r"
proof -
  show "ring_inv (fst (pop_check r))" "contents (fst (pop_check r)) = contents r"
    "snd (pop_check r) \<Longrightarrow> write_pos_cache (fst (pop_check r)) \<noteq> read_pos (fst (pop_check r))"
    "capacity (fst (pop_check r)) = capacity r"
    using assms by (auto simp: pop_check_def ring_inv_def contents_def segment_def Let_def)
  show "snd (pop_check r) \<longleftrightarrow> contents r \<noteq> []"
    using assms contents_Nil_iff [OF assms]
    by (auto simp: pop_check_def ring_inv_def span_def Let_def split: if_splits)
qed

lemma pop_commit_capacity [simp]: "capacity (pop_commit r) = capacity r"
  by (simp add: pop_commit_def)

lemma pop_load_contents:
  assumes I: "ring_inv r" and ne: "write_pos_cache r \<noteq> read_pos r"
  shows "\<exists>v vs. contents r = v # vs \<and> pop_read r = Some v \<and> ring_inv (pop_commit r) \<and>
    contents (pop_commit r) = vs"
proof -
  let ?c = "capacity r" let ?i = "read_pos r" let ?j = "write_pos r"
  let ?i' = "if Suc ?i = ?c then 0 else Suc ?i"
  let ?r = "r\<lparr>read_pos := ?i'\<rparr>"
  have b: "?i < ?c" "?j < ?c" "length (slots r) = ?c" using I by (simp_all add: ring_inv_def)
  have pos: "0 < span ?c ?i ?j"
    using I ne by (auto simp: ring_inv_def span_def split: if_splits)
  then have n: "span ?c ?i ?j = Suc (span ?c ?i' ?j)"
    using b by (auto simp: span_def split: if_splits)
  have shift: "(?i' + k) mod ?c = (?i + Suc k) mod ?c" for k
  proof (cases "Suc ?i = ?c")
    case True
    then have "?i + Suc k = ?c + k" by simp
    then have "(?i + Suc k) mod ?c = k mod ?c" by (simp only: mod_add_self1)
    with True show ?thesis by simp
  qed simp
  have "segment r ?i (Suc m) = slots r ! ?i # segment ?r ?i' m" for m
  proof -
    have "[0..<Suc m] = 0 # map Suc [0..<m]" by (simp only: upt_conv_Cons zero_less_Suc map_Suc_upt)
    with b shift show ?thesis unfolding segment_def by simp
  qed
  then have "contents r = slots r ! ?i # contents ?r" by (simp add: contents_def n)
  moreover have "ring_inv ?r"
    using I ne pos by (auto simp: ring_inv_def span_def split: if_splits)
  ultimately show ?thesis using b by (simp add: pop_read_def pop_commit_def)
qed

lemma ring_pop_contents:
  assumes "ring_inv r"
  shows "\<exists>r'. ring_pop r = Some (r', case contents r of [] \<Rightarrow> None | v # _ \<Rightarrow> Some v) \<and>
    ring_inv r' \<and> capacity r' = capacity r \<and> contents r' = tl (contents r)"
proof (cases "contents r")
  case Nil
  with pop_check_inv [OF assms] show ?thesis
    by (cases "pop_check r") (simp add: ring_pop_def)
next
  case (Cons v vs)
  obtain r1 where r1: "pop_check r = (r1, True)" "ring_inv r1" "contents r1 = contents r"
    "capacity r1 = capacity r" "write_pos_cache r1 \<noteq> read_pos r1"
    using pop_check_inv [OF assms] Cons by (cases "pop_check r") auto
  with pop_load_contents [OF r1(2,5)] Cons show ?thesis
    by (auto simp: ring_pop_def pop_load_def)
qed

section \<open>The bounded queue contract\<close>

text \<open>What the users of the ring buffer rely on while fewer than \<open>room\<close> elements are outstanding.\<close>

primrec push_all :: "('r \<Rightarrow> 'a \<Rightarrow> 'r option) \<Rightarrow> 'r \<Rightarrow> 'a list \<Rightarrow> 'r option" where
  "push_all push r [] = Some r"
| "push_all push r (v # vs) = do { r \<leftarrow> push r v; push_all push r vs }"

primrec pop_many :: "('r \<Rightarrow> ('r \<times> 'a option) option) \<Rightarrow> nat \<Rightarrow> 'r \<Rightarrow> ('r \<times> 'a option list) option" where
  "pop_many pop 0 r = Some (r, [])"
| "pop_many pop (Suc n) r =
     do { (r, v) \<leftarrow> pop r; (r, vs) \<leftarrow> pop_many pop n r; Some (r, v # vs) }"

lemma push_all_append:
  "push_all push r (vs @ ws) = do { r \<leftarrow> push_all push r vs; push_all push r ws }"
  by (induction vs arbitrary: r) (simp_all split: bind_splits)

locale bounded_fifo =
  fixes inv :: "'r \<Rightarrow> bool" and view :: "'r \<Rightarrow> 'a list" and room :: "'r \<Rightarrow> nat"
    and push :: "'r \<Rightarrow> 'a \<Rightarrow> 'r option" and pop :: "'r \<Rightarrow> ('r \<times> 'a option) option"
  assumes push_view: "inv r \<Longrightarrow> Suc (length (view r)) < room r \<Longrightarrow>
      \<exists>r'. push r v = Some r' \<and> inv r' \<and> room r' = room r \<and> view r' = view r @ [v]"
    and pop_view: "inv r \<Longrightarrow>
      \<exists>r'. pop r = Some (r', case view r of [] \<Rightarrow> None | v # _ \<Rightarrow> Some v) \<and>
        inv r' \<and> room r' = room r \<and> view r' = tl (view r)"
begin

lemma push_all_view:
  "inv r \<Longrightarrow> length (view r) + length vs < room r \<Longrightarrow>
   \<exists>r'. push_all push r vs = Some r' \<and> inv r' \<and> room r' = room r \<and> view r' = view r @ vs"
proof (induction vs arbitrary: r)
  case (Cons v vs)
  then obtain r1 where r1: "push r v = Some r1" "inv r1" "room r1 = room r" "view r1 = view r @ [v]"
    using push_view [of r v] by auto
  with Cons.IH [of r1] Cons.prems show ?case by auto
qed simp

lemma pop_many_view:
  "inv r \<Longrightarrow> n \<le> length (view r) \<Longrightarrow>
   \<exists>r'. pop_many pop n r = Some (r', map Some (take n (view r))) \<and> inv r' \<and> view r' = drop n (view r)"
proof (induction n arbitrary: r)
  case (Suc n)
  then obtain v vs where v: "view r = v # vs" by (cases "view r") auto
  with Suc.prems pop_view [of r] obtain r1 where "pop r = Some (r1, Some v)" "inv r1" "view r1 = vs"
    by auto
  with Suc.IH [of r1] Suc.prems v show ?case by auto
qed simp

text \<open>What goes in comes out, in the order it went in, and then the queue is empty.\<close>

lemma roundtrip:
  assumes "inv r" "view r = []" "length vs < room r"
  shows "\<exists>r1 r2 r3. push_all push r vs = Some r1 \<and>
    pop_many pop (length vs) r1 = Some (r2, map Some vs) \<and> pop r2 = Some (r3, None)"
proof -
  obtain r1 where r1: "push_all push r vs = Some r1" "inv r1" "view r1 = vs"
    using push_all_view [of r vs] assms by auto
  with pop_many_view [of r1 "length vs"] obtain r2 where
    r2: "pop_many pop (length vs) r1 = Some (r2, map Some vs)" "inv r2" "view r2 = []" by auto
  with pop_view [of r2] r1 show ?thesis by auto
qed

end

interpretation ring_fifo: bounded_fifo ring_inv contents capacity ring_push ring_pop
proof
  fix r :: "'a ring" and v :: 'a
  assume "ring_inv r" "Suc (length (contents r)) < capacity r"
  then show "\<exists>r'. ring_push r v = Some r' \<and> ring_inv r' \<and> capacity r' = capacity r \<and>
      contents r' = contents r @ [v]"
    using push_store_contents [of r v] by (simp add: ring_push_eq ring_inv_def)
qed (rule ring_pop_contents)

section \<open>One producer and one consumer\<close>

text \<open>
  The interleavings of the two threads. The producer is idle, inside the waiting loop, past it,
  or has written the slot; the consumer is idle, knows an element is there, or has read it.
  Each rule is one access to shared memory (\<^verbatim>\<open>_read_pos\<close>, the slot, \<^verbatim>\<open>_write_pos\<close>). \<open>sent\<close> and
  \<open>received\<close> record the completed pushes and pops.
\<close>

datatype 'a producer = P_idle | P_wait 'a | P_ready 'a | P_written 'a

datatype 'a consumer = C_idle | C_ready | C_read 'a

record 'a spsc =
  the_ring :: "'a ring"
  producer :: "'a producer"
  consumer :: "'a consumer"
  sent :: "'a list"
  received :: "'a list"

inductive spsc_step :: "'a spsc \<Rightarrow> 'a spsc \<Rightarrow> bool" where
  begin_push: "producer s = P_idle \<Longrightarrow> spsc_step s (s\<lparr>producer := P_wait v\<rparr>)"
| try_push: "producer s = P_wait v \<Longrightarrow> push_try (the_ring s) = (r, ready) \<Longrightarrow>
    spsc_step s (s\<lparr>the_ring := r, producer := (if ready then P_ready v else P_wait v)\<rparr>)"
| write_slot: "producer s = P_ready v \<Longrightarrow> push_write (the_ring s) v = Some r \<Longrightarrow>
    spsc_step s (s\<lparr>the_ring := r, producer := P_written v\<rparr>)"
| end_push: "producer s = P_written v \<Longrightarrow>
    spsc_step s (s\<lparr>the_ring := push_commit (the_ring s), producer := P_idle, sent := sent s @ [v]\<rparr>)"
| check_pop: "consumer s = C_idle \<Longrightarrow> pop_check (the_ring s) = (r, ready) \<Longrightarrow>
    spsc_step s (s\<lparr>the_ring := r, consumer := (if ready then C_ready else C_idle)\<rparr>)"
| read_slot: "consumer s = C_ready \<Longrightarrow> pop_read (the_ring s) = Some v \<Longrightarrow>
    spsc_step s (s\<lparr>consumer := C_read v\<rparr>)"
| end_pop: "consumer s = C_read v \<Longrightarrow>
    spsc_step s (s\<lparr>the_ring := pop_commit (the_ring s), consumer := C_idle,
                   received := received s @ [v]\<rparr>)"

definition spsc_init :: "'a \<Rightarrow> nat \<Rightarrow> 'a spsc" where
  "spsc_init d c = \<lparr>the_ring = new_ring d c, producer = P_idle, consumer = C_idle, sent = [], received = []\<rparr>"

text \<open>The runs in which the producer never gets \<^verbatim>\<open>_capacity\<close> elements ahead.\<close>

inductive bounded_run :: "'a \<Rightarrow> nat \<Rightarrow> 'a spsc \<Rightarrow> bool" for d c where
  init: "bounded_run d c (spsc_init d c)"
| step: "bounded_run d c s \<Longrightarrow> spsc_step s s' \<Longrightarrow> length (sent s') < c + length (received s') \<Longrightarrow>
    bounded_run d c s'"

definition spsc_inv :: "nat \<Rightarrow> 'a spsc \<Rightarrow> bool" where
  "spsc_inv c s \<longleftrightarrow>
     ring_inv (the_ring s) \<and> capacity (the_ring s) = c \<and>
     sent s = received s @ contents (the_ring s) \<and>
     (\<forall>v. producer s = P_written v \<longrightarrow> slots (the_ring s) ! write_pos (the_ring s) = v) \<and>
     (consumer s \<noteq> C_idle \<longrightarrow> write_pos_cache (the_ring s) \<noteq> read_pos (the_ring s)) \<and>
     (\<forall>v. consumer s = C_read v \<longrightarrow> pop_read (the_ring s) = Some v)"

lemma pop_read_hd:
  "ring_inv r \<Longrightarrow> contents r = v # vs \<Longrightarrow> pop_read r = Some v"
proof -
  assume r: "ring_inv r" "contents r = v # vs"
  then have "0 < span (capacity r) (read_pos r) (write_pos r)" by (simp flip: length_contents)
  then have "contents r ! 0 = slots r ! (read_pos r mod capacity r)"
    by (simp add: contents_def segment_def)
  with r show ?thesis by (simp add: pop_read_def ring_inv_def)
qed

lemma spsc_step_inv:
  assumes "spsc_step s s'" "spsc_inv c s" "length (sent s') < c + length (received s')"
  shows "spsc_inv c s'"
  using assms
proof (induction rule: spsc_step.induct)
  case (begin_push s v)
  then show ?case by (simp add: spsc_inv_def)
next
  case (try_push s v r ready)
  then have "r = the_ring s" "ready"
    using push_try_ready [of "the_ring s"] by (auto simp: spsc_inv_def ring_inv_def)
  with try_push show ?case by (simp add: spsc_inv_def)
next
  case (write_slot s v r)
  let ?r = "the_ring s"
  from write_slot have I: "ring_inv ?r" by (simp add: spsc_inv_def)
  from push_write_inv [OF I, of v] write_slot(2) have r: "ring_inv r" "contents r = contents ?r"
    "slots r ! write_pos r = v" "capacity r = capacity ?r" "read_pos r = read_pos ?r"
    "write_pos_cache r = write_pos_cache ?r" by auto
  have "pop_read r = pop_read ?r" if "consumer s = C_read w" for w
  proof -
    from that write_slot have "write_pos_cache ?r \<noteq> read_pos ?r" by (simp add: spsc_inv_def)
    from pop_load_contents [OF I this] obtain x xs where "contents ?r = x # xs" "pop_read ?r = Some x"
      by blast
    with r(1,2) show ?thesis using pop_read_hd [of r] by simp
  qed
  with write_slot r show ?case by (auto simp: spsc_inv_def)
next
  case (end_push s v)
  let ?r = "the_ring s"
  from end_push have I: "ring_inv ?r" and room: "Suc (length (contents ?r)) < capacity ?r"
    by (auto simp: spsc_inv_def)
  have "pop_read (push_commit ?r) = pop_read ?r" by (simp add: pop_read_def push_commit_def)
  with end_push push_commit_contents [OF I room] show ?case
    by (auto simp: spsc_inv_def) (simp_all add: push_commit_def)
next
  case (check_pop s r ready)
  let ?r = "the_ring s"
  from check_pop have I: "ring_inv ?r" by (simp add: spsc_inv_def)
  have "slots r = slots ?r" "write_pos r = write_pos ?r"
    using check_pop(2) by (auto simp: pop_check_def Let_def split: if_splits)
  with pop_check_inv [OF I] check_pop show ?case by (auto simp: spsc_inv_def)
next
  case (read_slot s v)
  then show ?case by (simp add: spsc_inv_def)
next
  case (end_pop s v)
  let ?r = "the_ring s"
  from end_pop have I: "ring_inv ?r" "write_pos_cache ?r \<noteq> read_pos ?r" "pop_read ?r = Some v"
    by (auto simp: spsc_inv_def)
  from pop_load_contents [OF I(1,2)] I(3) obtain vs where "contents ?r = v # vs"
    "ring_inv (pop_commit ?r)" "contents (pop_commit ?r) = vs" by auto
  with end_pop show ?case by (simp add: spsc_inv_def) (simp add: pop_commit_def)
qed

lemma bounded_run_inv: "0 < c \<Longrightarrow> bounded_run d c s \<Longrightarrow> spsc_inv c s"
proof (rotate_tac, induction rule: bounded_run.induct)
  case init
  have "capacity (new_ring d c) = c" by (simp add: new_ring_def)
  with init show ?case
    by (simp add: spsc_inv_def spsc_init_def new_ring_inv new_ring_contents)
next
  case (step s s')
  then show ?case using spsc_step_inv by blast
qed

text \<open>\<open>capacity\<close> pushes in a row and no pop: the write position is back at the read position.\<close>

lemma push_all_frame:
  "push_all ring_push r vs = Some r' \<Longrightarrow> read_pos_cache r = 0 \<Longrightarrow>
   read_pos r' = read_pos r \<and> write_pos_cache r' = write_pos_cache r \<and> read_pos_cache r' = 0"
proof (induction vs arbitrary: r)
  case (Cons v vs)
  then show ?case
    by (auto simp: ring_push_eq push_store_def push_write_def push_commit_def split: bind_splits if_splits)
qed simp

lemma push_all_overrun:
  assumes "0 < c" "length vs = c"
  shows "\<exists>r r'. push_all ring_push (new_ring d c) vs = Some r \<and> ring_pop r = Some (r', None)"
proof -
  let ?r = "new_ring d c"
  obtain ws w where vs: "vs = ws @ [w]" using assms by (cases vs rule: rev_cases) auto
  obtain r where r: "push_all ring_push ?r ws = Some r" "ring_inv r" "capacity r = c" "contents r = ws"
    using ring_fifo.push_all_view [OF new_ring_inv [OF assms(1)], of d ws] assms vs
    by (auto simp: new_ring_contents new_ring_capacity)
  have f: "read_pos r = 0" "write_pos_cache r = 0" "read_pos_cache r = 0"
    using push_all_frame [OF r(1)] by (simp_all add: new_ring_def)
  obtain r' where r': "push_store r w = Some r'" "read_pos r' = 0" "write_pos_cache r' = 0" "write_pos r' = 0"
    using push_store_overrun [OF r(2), of w] r(3,4) assms vs f by auto
  have "push_all ring_push ?r vs = Some r'"
    using r r' f by (simp add: vs push_all_append ring_push_eq)
  then show ?thesis using r' by (simp add: ring_pop_def pop_check_def)
qed

section \<open>Properties of the ring buffer\<close>

text \<open>
  Round trip: a new ring buffer that receives fewer elements than its capacity returns them
  in the order they were pushed, and then reports that it is empty.
\<close>

lemma ring_roundtrip:
  assumes "length vs < c"
  shows "\<exists>r1 r2 r3. push_all ring_push (new_ring d c) vs = Some r1 \<and>
    pop_many ring_pop (length vs) r1 = Some (r2, map Some vs) \<and> ring_pop r2 = Some (r3, None)"
proof -
  have "0 < c" using assms by simp
  from ring_fifo.roundtrip [OF new_ring_inv [OF this] new_ring_contents, of vs d] assms show ?thesis
    by (simp add: new_ring_capacity)
qed

text \<open>
  C12. One producer thread and one consumer thread: in every interleaving in which the producer
  never gets a whole capacity ahead, what the consumer has received followed by what lies in
  the buffer is exactly what the producer has sent: nothing is lost, duplicated or reordered.
\<close>

theorem spsc_order:
  assumes "0 < c" "bounded_run d c s"
  shows "sent s = received s @ contents (the_ring s)"
  using bounded_run_inv [OF assms] by (simp add: spsc_inv_def)

lemma spsc_sample: "\<exists>s. bounded_run (0::int) 2 s \<and> sent s = [5]"
proof -
  let ?s0 = "spsc_init (0::int) 2"
  let ?s1 = "?s0\<lparr>producer := P_wait 5\<rparr>"
  let ?s2 = "?s0\<lparr>producer := P_ready 5\<rparr>"
  let ?r = "(new_ring (0::int) 2)\<lparr>slots := [5, 0]\<rparr>"
  let ?s3 = "?s0\<lparr>the_ring := ?r, producer := P_written 5\<rparr>"
  have "bounded_run 0 2 ?s0" by (rule bounded_run.init)
  moreover have "spsc_step ?s0 ?s1" by (rule spsc_step.begin_push) (simp add: spsc_init_def)
  ultimately have "bounded_run 0 2 ?s1" by (rule bounded_run.step) (simp add: spsc_init_def)
  moreover have "spsc_step ?s1 ?s2"
    using spsc_step.try_push [of ?s1 5 "new_ring 0 2" True] by (simp add: spsc_init_def push_try_def new_ring_def)
  ultimately have "bounded_run 0 2 ?s2" by (rule bounded_run.step) (simp add: spsc_init_def)
  moreover have "spsc_step ?s2 ?s3"
    using spsc_step.write_slot [of ?s2 5 ?r]
    by (simp add: spsc_init_def push_write_def new_ring_def numeral_2_eq_2)
  ultimately have "bounded_run 0 2 ?s3" by (rule bounded_run.step) (simp add: spsc_init_def)
  moreover have "spsc_step ?s3 (?s3\<lparr>the_ring := push_commit ?r, producer := P_idle, sent := [5]\<rparr>)"
    using spsc_step.end_push [of ?s3 5] by (simp add: spsc_init_def)
  ultimately have "bounded_run 0 2 (?s3\<lparr>the_ring := push_commit ?r, producer := P_idle, sent := [5]\<rparr>)"
    by (rule bounded_run.step) (simp add: spsc_init_def)
  then show ?thesis by (intro exI conjI, assumption) (simp add: spsc_init_def)
qed

theorem spsc_order_witness:
  "\<exists>s. bounded_run (0::int) 2 s \<and> sent s = [5] \<and> [5] = received s @ contents (the_ring s)"
  using spsc_sample spsc_order [of 2 "0::int"] by force

text \<open>
  C25. The overrun: after as many pushes as the capacity and no pop, all succeed and yet the buffer
  reports that it is empty; every message in it is lost.
\<close>

theorem ring_overrun:
  assumes "0 < c" "length vs = c"
  shows "\<exists>r r'. push_all ring_push (new_ring d c) vs = Some r \<and> ring_pop r = Some (r', None)"
  using assms by (rule push_all_overrun)

theorem ring_overrun_witness:
  "\<exists>r r'. push_all ring_push (new_ring (0::int) 3) [7, 8, 9] = Some r \<and> ring_pop r = Some (r', None)"
  using ring_overrun [of 3 "[7, 8, 9]" "0::int"] by simp

end
