(* ===== verification/Repository.thy ===== *)
theory Repository
  imports OrderBook RingBuffer
begin

text \<open>
  Persistence: \<^verbatim>\<open>src/repository/order_repository.cpp\<close> and \<^verbatim>\<open>trade_repository.cpp\<close>. The databases and
  the archive encoding are code outside the repository. They are arguments of the definitions:
  a record of the store's operations, the encoding \<open>enc\<close> of an archive in the values of the store
  and its decoding \<open>dec\<close>, and the conversion \<open>time_of\<close> of a Unix time to a database time. \<open>kv_laws\<close>, \<open>codec\<close> and
  \<open>table_laws\<close> state what the code relies on.
\<close>

section \<open>Order repository\<close>

record ('d, 's) kv_ops =
  kv_put :: "'d \<Rightarrow> string \<Rightarrow> 's \<Rightarrow> 'd \<times> bool"
  kv_delete :: "'d \<Rightarrow> string \<Rightarrow> 'd \<times> bool"
  kv_get :: "'d \<Rightarrow> string \<Rightarrow> 's option"
  kv_values :: "'d \<Rightarrow> 's list"

definition save_order ::
    "('d, 's) kv_ops \<Rightarrow> (order_archive \<Rightarrow> 's) \<Rightarrow> 'd \<Rightarrow> order \<Rightarrow> 'd \<times> bool" where
  "save_order ops enc db ord = kv_put ops db (order_id ord) (enc (save_archive ord))"

definition remove_order :: "('d, 's) kv_ops \<Rightarrow> 'd \<Rightarrow> string \<Rightarrow> 'd \<times> bool" where
  "remove_order ops db i = kv_delete ops db i"

text \<open>Reading an archive that does not parse throws.\<close>

definition decode_order :: "('s \<Rightarrow> order_archive option) \<Rightarrow> 's \<Rightarrow> exn + order" where
  "decode_order dec s =
     (case dec s of None \<Rightarrow> Inl (Parse_error ''archive'') | Some a \<Rightarrow> Inr (load_archive a))"

definition get_order ::
    "('d, 's) kv_ops \<Rightarrow> ('s \<Rightarrow> order_archive option) \<Rightarrow> 'd \<Rightarrow> string \<Rightarrow> exn + order option" where
  "get_order ops dec db i =
     (case kv_get ops db i of
        None \<Rightarrow> Inr None
      | Some s \<Rightarrow> (case decode_order dec s of Inl e \<Rightarrow> Inl e | Inr ord \<Rightarrow> Inr (Some ord)))"

fun decode_all :: "('s \<Rightarrow> order_archive option) \<Rightarrow> 's list \<Rightarrow> exn + order list" where
  "decode_all dec [] = Inr []"
| "decode_all dec (s # ss) =
     (case decode_order dec s of
        Inl e \<Rightarrow> Inl e
      | Inr ord \<Rightarrow> (case decode_all dec ss of Inl e \<Rightarrow> Inl e | Inr os \<Rightarrow> Inr (ord # os)))"

definition get_all ::
    "('d, 's) kv_ops \<Rightarrow> ('s \<Rightarrow> order_archive option) \<Rightarrow> 'd \<Rightarrow> exn + order list" where
  "get_all ops dec db = decode_all dec (kv_values ops db)"

definition enqueue :: "nat ring \<Rightarrow> nat \<Rightarrow> nat ring option" where
  "enqueue r q = ring_push r q"

text \<open>
  One round of the loop of \<^verbatim>\<open>process_messages\<close> (lines 65 to 74); \<open>mem\<close> is the store of orders at
  that moment. \<open>process_messages\<close> runs the number of rounds before a stop is requested.
\<close>

definition process_message ::
    "('d, 's) kv_ops \<Rightarrow> (order_archive \<Rightarrow> 's) \<Rightarrow> (nat \<rightharpoonup> order) \<Rightarrow> nat ring \<times> 'd \<Rightarrow> (nat ring \<times> 'd) option" where
  "process_message ops enc mem =
     (\<lambda>(r, db). do {
        (r, popped) \<leftarrow> ring_pop r;
        (case popped of
           None \<Rightarrow> Some (r, db)
         | Some q \<Rightarrow>
             do {
               ord \<leftarrow> mem q;
               if is_cancelled ord \<or> is_fullfilled ord
               then Some (r, fst (remove_order ops db (order_id ord)))
               else Some (r, fst (save_order ops enc db ord))
             })
      })"

primrec process_messages ::
    "('d, 's) kv_ops \<Rightarrow> (order_archive \<Rightarrow> 's) \<Rightarrow> (nat \<rightharpoonup> order) \<Rightarrow> nat \<Rightarrow> nat ring \<times> 'd \<Rightarrow>
     (nat ring \<times> 'd) option" where
  "process_messages ops enc mem 0 s = Some s"
| "process_messages ops enc mem (Suc n) s =
     do { s \<leftarrow> process_message ops enc mem s; process_messages ops enc mem n s }"

text \<open>What the code relies on: reads after writes and deletions, and the archive's round trip.\<close>

definition kv_laws :: "('d, 's) kv_ops \<Rightarrow> bool" where
  "kv_laws ops \<longleftrightarrow>
     (\<forall>db k v j. kv_get ops (fst (kv_put ops db k v)) j = (if j = k then Some v else kv_get ops db j)) \<and>
     (\<forall>db k j. kv_get ops (fst (kv_delete ops db k)) j = (if j = k then None else kv_get ops db j)) \<and>
     (\<forall>db. set (kv_values ops db) = {v. \<exists>k. kv_get ops db k = Some v})"

definition codec :: "(order_archive \<Rightarrow> 's) \<Rightarrow> ('s \<Rightarrow> order_archive option) \<Rightarrow> bool" where
  "codec enc dec \<longleftrightarrow> (\<forall>a. dec (enc a) = Some a)"

section \<open>Trade repository\<close>

text \<open>A row of the table \<^verbatim>\<open>orderbook.trades\<close>, in the order of the insert statement.\<close>

record trade_row =
  col_buyer_id :: string
  col_seller_id :: string
  col_buyer_order_id :: string
  col_seller_order_id :: string
  col_instrument :: string
  col_timestamp :: int
  col_volume :: f32
  col_price :: f32

record 'd table_ops =
  insert_row :: "'d \<Rightarrow> trade_row \<Rightarrow> 'd \<times> bool"
  select_rows :: "'d \<Rightarrow> trade_row list option"
  select_key :: "'d \<Rightarrow> string \<Rightarrow> string \<Rightarrow> int \<Rightarrow> trade_row list option"

definition trade_to_row :: "(int \<Rightarrow> int) \<Rightarrow> Trade \<Rightarrow> trade_row" where
  "trade_to_row time_of tr =
     \<lparr>col_buyer_id = buyer_id tr, col_seller_id = seller_id tr,
      col_buyer_order_id = buyer_order_id tr, col_seller_order_id = seller_order_id tr,
      col_instrument = trade_instrument tr, col_timestamp = time_of (trade_timestamp tr),
      col_volume = volume tr, col_price = trade_price tr\<rparr>"

definition save_trade :: "'d table_ops \<Rightarrow> (int \<Rightarrow> int) \<Rightarrow> 'd \<Rightarrow> Trade \<Rightarrow> 'd \<times> bool" where
  "save_trade ops time_of db tr = insert_row ops db (trade_to_row time_of tr)"

text \<open>
  The columns of a row under the names of the table. A getter that does not find a column of its
  type leaves its result uninitialised (\<open>None\<close>).
\<close>

datatype column = Col_text string | Col_int64 int | Col_float f32

definition columns :: "trade_row \<Rightarrow> string \<rightharpoonup> column" where
  "columns row = map_of
     [(''buyer_id'', Col_text (col_buyer_id row)), (''seller_id'', Col_text (col_seller_id row)),
      (''buyer_order_id'', Col_text (col_buyer_order_id row)), (''seller_order_id'', Col_text (col_seller_order_id row)),
      (''instrument'', Col_text (col_instrument row)), (''timestamp'', Col_int64 (col_timestamp row)),
      (''volume'', Col_float (col_volume row)), (''price'', Col_float (col_price row))]"

definition get_column_string :: "trade_row \<Rightarrow> string \<Rightarrow> string option" where
  "get_column_string row name = (case columns row name of Some (Col_text s) \<Rightarrow> Some s | _ \<Rightarrow> None)"

definition get_column_float :: "trade_row \<Rightarrow> string \<Rightarrow> f32 option" where
  "get_column_float row name = (case columns row name of Some (Col_float x) \<Rightarrow> Some x | _ \<Rightarrow> None)"

definition get_column_int64 :: "trade_row \<Rightarrow> string \<Rightarrow> int option" where
  "get_column_int64 row name = (case columns row name of Some (Col_int64 n) \<Rightarrow> Some n | _ \<Rightarrow> None)"

definition convert_to_trade :: "trade_row \<Rightarrow> Trade option" where
  "convert_to_trade row =
     do {
       bu \<leftarrow> get_column_string row ''buyer_id'';
       se \<leftarrow> get_column_string row ''seller_id'';
       bo \<leftarrow> get_column_string row ''buyer_order_id'';
       so \<leftarrow> get_column_string row ''seller_order_id'';
       instr \<leftarrow> get_column_string row ''instrument'';
       vol \<leftarrow> get_column_float row ''volume'';
       pr \<leftarrow> get_column_float row ''price'';
       ts \<leftarrow> get_column_int64 row ''timestamp'';
       Some \<lparr>buyer_id = bu, seller_id = se, buyer_order_id = bo, seller_order_id = so, trade_instrument = instr,
             volume = vol, trade_price = pr, trade_timestamp = ts\<rparr>
     }"

primrec convert_rows :: "trade_row list \<Rightarrow> Trade list option" where
  "convert_rows [] = Some []"
| "convert_rows (row # rows) = do { tr \<leftarrow> convert_to_trade row; trs \<leftarrow> convert_rows rows; Some (tr # trs) }"

definition get_all_trades :: "'d table_ops \<Rightarrow> 'd \<Rightarrow> Trade list option" where
  "get_all_trades ops db =
     (case select_rows ops db of None \<Rightarrow> Some [] | Some rows \<Rightarrow> convert_rows rows)"

text \<open>
  The first row of the result is read without a check that there is one (lines 157 and 158): an
  empty result has no defined continuation (\<open>None\<close>).
\<close>

definition get_trade_by_primary_key ::
    "'d table_ops \<Rightarrow> (int \<Rightarrow> int) \<Rightarrow> 'd \<Rightarrow> string \<Rightarrow> string \<Rightarrow> int \<Rightarrow> Trade option option" where
  "get_trade_by_primary_key ops time_of db bu se ts =
     (case select_key ops db bu se (time_of ts) of
        None \<Rightarrow> Some None
      | Some [] \<Rightarrow> None
      | Some (row # _) \<Rightarrow> map_option Some (convert_to_trade row))"

definition enqueue_trade :: "Trade ring \<Rightarrow> Trade \<Rightarrow> Trade ring option" where
  "enqueue_trade r tr = ring_push r tr"

definition process_trade ::
    "'d table_ops \<Rightarrow> (int \<Rightarrow> int) \<Rightarrow> Trade ring \<times> 'd \<Rightarrow> (Trade ring \<times> 'd) option" where
  "process_trade ops time_of =
     (\<lambda>(r, db). do {
        (r, popped) \<leftarrow> ring_pop r;
        (case popped of
           None \<Rightarrow> Some (r, db)
         | Some tr \<Rightarrow> Some (r, fst (save_trade ops time_of db tr)))
      })"

primrec process_trades ::
    "'d table_ops \<Rightarrow> (int \<Rightarrow> int) \<Rightarrow> nat \<Rightarrow> Trade ring \<times> 'd \<Rightarrow> (Trade ring \<times> 'd) option" where
  "process_trades ops time_of 0 s = Some s"
| "process_trades ops time_of (Suc n) s =
     do { s \<leftarrow> process_trade ops time_of s; process_trades ops time_of n s }"

text \<open>What the code relies on: the primary key is buyer, seller and time, and an insert replaces the row of its key.\<close>

definition table_laws :: "'d table_ops \<Rightarrow> bool" where
  "table_laws ops \<longleftrightarrow>
     (\<forall>db row bu se ts. select_key ops (fst (insert_row ops db row)) bu se ts =
        (if bu = col_buyer_id row \<and> se = col_seller_id row \<and> ts = col_timestamp row then Some [row]
         else select_key ops db bu se ts))"

lemma convert_row:
  "convert_to_trade (trade_to_row time_of tr) = Some (tr\<lparr>trade_timestamp := time_of (trade_timestamp tr)\<rparr>)"
  by (simp add: convert_to_trade_def trade_to_row_def columns_def get_column_string_def get_column_float_def get_column_int64_def)

lemma saved_row:
  assumes "table_laws ops"
  shows "get_trade_by_primary_key ops time_of (fst (save_trade ops time_of db tr)) bu se ts =
    (if bu = buyer_id tr \<and> se = seller_id tr \<and> time_of ts = time_of (trade_timestamp tr)
     then Some (Some (tr\<lparr>trade_timestamp := time_of (trade_timestamp tr)\<rparr>))
     else get_trade_by_primary_key ops time_of db bu se ts)"
  using assms convert_row [of time_of tr]
  by (simp add: table_laws_def get_trade_by_primary_key_def save_trade_def) (auto simp: trade_to_row_def)

section \<open>What the store holds\<close>

text \<open>The effect of one message: an order that is cancelled or filled is removed, any other saved.\<close>

definition persist :: "('d, 's) kv_ops \<Rightarrow> (order_archive \<Rightarrow> 's) \<Rightarrow> order \<Rightarrow> 'd \<Rightarrow> 'd" where
  "persist ops enc ord db =
     (if is_cancelled ord \<or> is_fullfilled ord then fst (remove_order ops db (order_id ord))
      else fst (save_order ops enc db ord))"

definition stored_form :: "order \<Rightarrow> order" where
  "stored_form ord = ord\<lparr>stop_price := 0, limit_parent := 0, prev_order := 0, next_order := 0\<rparr>"

lemma process_message_persist:
  assumes "ring_inv r" "contents r = q # qs" "mem q = Some ord"
  shows "\<exists>r'. process_message ops enc mem (r, db) = Some (r', persist ops enc ord db) \<and>
    ring_inv r' \<and> contents r' = qs"
  using ring_pop_contents [OF assms(1)] assms(2,3)
  by (auto simp: process_message_def persist_def)

lemma process_messages_persist:
  assumes "ring_inv r" "set (contents r) \<subseteq> dom mem"
  shows "\<exists>r'. process_messages ops enc mem (length (contents r)) (r, db) =
    Some (r', fold (\<lambda>q. persist ops enc (the (mem q))) (contents r) db) \<and> contents r' = []"
  using assms
proof (induction "contents r" arbitrary: r db)
  case Nil
  then show ?case by (metis fold_simps(1) list.size(3) process_messages.simps(1) id_apply)
next
  case (Cons q qs)
  obtain ord where ord: "mem q = Some ord" using Cons.prems(2) Cons.hyps(2) by (metis domD list.set_intros(1) subsetD)
  from process_message_persist [of r q qs mem ord ops enc db, OF Cons.prems(1) Cons.hyps(2) [symmetric] ord] obtain r1 where
    r1: "process_message ops enc mem (r, db) = Some (r1, persist ops enc ord db)" "ring_inv r1" "contents r1 = qs"
    by blast
  have "set (contents r1) \<subseteq> dom mem" using Cons.prems(2) Cons.hyps(2) r1(3) by (metis set_subset_Cons subset_trans)
  from Cons.hyps(1) [OF r1(3) [symmetric] r1(2) this, of "persist ops enc ord db"] r1 ord
  show ?case by (simp flip: Cons.hyps(2))
qed

lemma decode_saved:
  assumes "codec enc dec"
  shows "decode_order dec (enc (save_archive ord)) = Inr (stored_form ord)"
proof -
  have "dec (enc (save_archive ord)) = Some (save_archive ord)" using assms unfolding codec_def by (rule spec)
  then show ?thesis by (simp add: decode_order_def load_save stored_form_def)
qed

lemma persist_get:
  assumes "kv_laws ops" "codec enc dec"
  shows "get_order ops dec (persist ops enc ord db) i =
    (if i = order_id ord then Inr (if is_cancelled ord \<or> is_fullfilled ord then None else Some (stored_form ord))
     else get_order ops dec db i)"
  using assms(1) decode_saved [OF assms(2), of ord]
  by (simp add: persist_def get_order_def save_order_def remove_order_def kv_laws_def)

text \<open>A store and a table that keep the laws: association lists.\<close>

definition alist_store :: "((string \<times> 's) list, 's) kv_ops" where
  "alist_store = \<lparr>kv_put = \<lambda>db k v. (AList.update k v db, True), kv_delete = \<lambda>db k. (AList.delete k db, True),
     kv_get = map_of, kv_values = \<lambda>db. map snd (AList.clearjunk db)\<rparr>"

lemma alist_store_laws: "kv_laws (alist_store :: (_, 'b) kv_ops)"
proof -
  have "set (map snd (AList.clearjunk db)) = {v. \<exists>k. map_of db k = Some v}" for db :: "(string \<times> 'b) list"
    using ran_distinct [OF distinct_clearjunk, of db] by (simp add: map_of_clearjunk ran_def)
  then show ?thesis by (simp add: kv_laws_def alist_store_def update_conv' delete_conv')
qed

definition list_table :: "trade_row list table_ops" where
  "list_table = \<lparr>insert_row = \<lambda>rows row. (row # rows, True), select_rows = Some,
     select_key = \<lambda>rows bu se ts. Some (take 1 (filter (\<lambda>row. col_buyer_id row = bu \<and>
       col_seller_id row = se \<and> col_timestamp row = ts) rows))\<rparr>"

lemma list_table_laws: "table_laws list_table"
  by (simp add: table_laws_def list_table_def)

section \<open>Properties of the repositories\<close>

text \<open>
  Saving and reading back: an order that is saved is returned by \<^verbatim>\<open>get\<close> with all its fields except
  the stop price, which \<^verbatim>\<open>serialize\<close> leaves out and which comes back as 0, and the pointers of its
  list; the other stored orders are as before.
\<close>

lemma save_get_roundtrip:
  assumes "kv_laws ops" "codec enc dec"
  shows "get_order ops dec (fst (save_order ops enc db ord)) i =
    (if i = order_id ord then Inr (Some (ord\<lparr>stop_price := 0, limit_parent := 0, prev_order := 0, next_order := 0\<rparr>))
     else get_order ops dec db i)"
  using assms(1) decode_saved [OF assms(2), of ord]
  by (simp add: get_order_def save_order_def kv_laws_def stored_form_def)

text \<open>
  What a message leaves in the store: after the message of an order, \<^verbatim>\<open>get\<close> finds nothing under
  its id when the order is cancelled or filled, and otherwise the order as it was at that moment
  without its stop price; other ids are not affected.
\<close>

lemma message_effect:
  assumes "kv_laws ops" "codec enc dec" "ring_inv r" "contents r = q # qs" "mem q = Some ord"
  shows "\<exists>r' db'. process_message ops enc mem (r, db) = Some (r', db') \<and> contents r' = qs \<and>
    (\<forall>i. get_order ops dec db' i =
      (if i = order_id ord then Inr (if is_cancelled ord \<or> is_fullfilled ord then None else Some (stored_form ord))
       else get_order ops dec db i))"
  using process_message_persist [of r q qs mem ord ops enc db, OF assms(3-5)] persist_get [OF assms(1,2)] by blast



end
