(* ===== verification/Exchange.thy ===== *)
theory Exchange
  imports Repository
begin

text \<open>
  The exchange: \<^verbatim>\<open>src/exchange/exchange.cpp\<close>, the thread pool (\<^verbatim>\<open>src/utils/thread_pool.hpp\<close>,
  \<^verbatim>\<open>function_task.hpp\<close>) that runs each instrument's operations on its own worker, and the calendar
  arithmetic of \<^verbatim>\<open>src/utils/time.hpp\<close>. A call enqueues a task for the worker of the instrument and
  waits for its result, so its effect is that of the task on the instrument's book. \<open>None\<close> is an
  execution with no defined result: the map operator \<^verbatim>\<open>[]\<close> gave a null book, or the worker index
  is outside the pool.
\<close>

section \<open>Calendar\<close>

text \<open>\<^verbatim>\<open>int\<close> division truncates towards zero; an index outside the table has no defined value.\<close>

definition month_table :: "int list" where
  "month_table = [0, 3, 2, 5, 0, 3, 5, 1, 4, 6, 2, 4]"

definition trunc_div :: "int \<Rightarrow> int \<Rightarrow> int" where
  "trunc_div a b = sgn a * sgn b * (\<bar>a\<bar> div \<bar>b\<bar>)"

definition trunc_mod :: "int \<Rightarrow> int \<Rightarrow> int" where
  "trunc_mod a b = a - trunc_div a b * b"

definition day_of_week :: "int \<Rightarrow> int \<Rightarrow> int \<Rightarrow> int option" where
  "day_of_week d m y =
     (if 1 \<le> m \<and> m \<le> 12 then
        let y = y - (if m < 3 then 1 else 0) in
        Some (trunc_mod (y + trunc_div y 4 - trunc_div y 100 + trunc_div y 400
                         + month_table ! nat (m - 1) + d) 7)
      else None)"

section \<open>Workers\<close>

text \<open>
  A worker (\<^verbatim>\<open>FunctionTask\<close>) owns a ring buffer of tasks; a task is a function on the state the
  workers act on. One round of its loop takes a task, if there is one, and runs it.
\<close>

type_synonym 's task = "'s \<Rightarrow> 's"

definition task_round :: "'s task ring \<times> 's \<Rightarrow> ('s task ring \<times> 's) option" where
  "task_round =
     (\<lambda>(r, s). do {
        (r, popped) \<leftarrow> ring_pop r;
        (case popped of None \<Rightarrow> Some (r, s) | Some task \<Rightarrow> Some (r, task s))
      })"

primrec task_rounds :: "nat \<Rightarrow> 's task ring \<times> 's \<Rightarrow> ('s task ring \<times> 's) option" where
  "task_rounds 0 w = Some w"
| "task_rounds (Suc n) w = do { w \<leftarrow> task_round w; task_rounds n w }"

definition new_pool :: "nat \<Rightarrow> nat \<Rightarrow> 's task ring list" where
  "new_pool n c = map (\<lambda>i. new_ring (\<lambda>s. s) c) [0..<n]"

definition pool_enqueue :: "'s task ring list \<Rightarrow> nat \<Rightarrow> 's task \<Rightarrow> 's task ring list option" where
  "pool_enqueue ws idx f =
     (if idx < length ws then do { r \<leftarrow> ring_push (ws ! idx) f; Some (ws[idx := r]) } else None)"

section \<open>The exchange\<close>

definition opening_h :: int where "opening_h = 9"
definition opening_m :: int where "opening_m = 30"
definition closing_h :: int where "closing_h = 17"
definition closing_m :: int where "closing_m = 30"

text \<open>\<open>pool_size\<close> is the number of workers, \<open>next_ptr\<close> the next free address for an order object.\<close>

record exchange =
  instrument_idx :: "(string \<times> nat) list"
  instruments :: "(string \<times> OrderBook) list"
  pool_size :: nat
  working :: bool
  next_ptr :: nat

type_synonym 'a reply_or_fault = "(fault + 'a) option"

text \<open>The stored orders become objects at the addresses 1, 2, and so on.\<close>

definition stored_mem :: "order list \<Rightarrow> nat \<rightharpoonup> order" where
  "stored_mem os = map_of (zip [1..<Suc (length os)] os)"

primrec add_books ::
    "nat \<Rightarrow> order list \<Rightarrow> int \<Rightarrow> (string \<times> f32) list \<Rightarrow> exchange \<Rightarrow> exchange option" where
  "add_books idx stored now [] ex = Some ex"
| "add_books idx stored now (info # infos) ex =
     do {
       b \<leftarrow> new_book (fst info) (snd info) [1..<Suc (length stored)] (stored_mem stored) now;
       let ex = ex\<lparr>instrument_idx := AList.update (fst info) idx (instrument_idx ex),
                   instruments := (if map_of (instruments ex) (fst info) = None
                                   then AList.update (fst info) b (instruments ex)
                                   else instruments ex)\<rparr>;
       add_books (Suc idx) stored now infos ex
     }"

definition new_exchange ::
    "(string \<times> f32) list \<Rightarrow> order list \<Rightarrow> int \<Rightarrow> bool \<Rightarrow> exchange option" where
  "new_exchange infos stored now ignore_working_hours =
     add_books 0 stored now infos
       \<lparr>instrument_idx = [], instruments = [], pool_size = length infos,
        working = ignore_working_hours, next_ptr = Suc (length stored)\<rparr>"

definition instrument_exists :: "string \<Rightarrow> exchange \<Rightarrow> bool" where
  "instrument_exists i ex \<longleftrightarrow> map_of (instruments ex) i \<noteq> None"

definition is_working :: "exchange \<Rightarrow> bool" where
  "is_working ex = working ex"

text \<open>
  The book of an instrument and its worker, as \<^verbatim>\<open>_instruments[instrument]\<close> and
  \<^verbatim>\<open>_instrument_idx[instrument]\<close> give them. The latter inserts index 0 for a missing key.
\<close>

definition route :: "string \<Rightarrow> exchange \<Rightarrow> OrderBook option" where
  "route i ex =
     do {
       b \<leftarrow> map_of (instruments ex) i;
       let idx = (case map_of (instrument_idx ex) i of None \<Rightarrow> 0 | Some n \<Rightarrow> n);
       if idx < pool_size ex then Some b else None
     }"

text \<open>The task's result: the book goes back into the exchange, a fault leaves it undefined.\<close>

definition finish_task ::
    "string \<Rightarrow> exchange \<Rightarrow> (OrderBook \<times> OrderStatus) result \<Rightarrow> fault + (exchange \<times> OrderStatus)" where
  "finish_task i ex r =
     (case r of
        Inl (f, _) \<Rightarrow> Inl f
      | Inr (b, st) \<Rightarrow> Inr (ex\<lparr>instruments := AList.update i b (instruments ex)\<rparr>, st))"

definition place_order :: "order \<Rightarrow> exchange \<Rightarrow> OrderBook \<Rightarrow> exchange \<times> nat \<times> OrderBook" where
  "place_order ord ex b =
     (ex\<lparr>next_ptr := Suc (next_ptr ex)\<rparr>, next_ptr ex,
      b\<lparr>order_mem := (order_mem b)(next_ptr ex \<mapsto> ord)\<rparr>)"

definition exchange_add_order ::
    "int \<Rightarrow> string \<Rightarrow> order \<Rightarrow> exchange \<Rightarrow> (exchange \<times> OrderStatus) reply_or_fault" where
  "exchange_add_order now i ord ex =
     do {
       b \<leftarrow> route i ex;
       let (ex, q, b) = place_order ord ex b;
       r \<leftarrow> add_order q (b\<lparr>clock := now\<rparr>);
       Some (finish_task i ex r)
     }"

definition exchange_modify_order ::
    "string \<Rightarrow> order \<Rightarrow> exchange \<Rightarrow> (exchange \<times> OrderStatus) reply_or_fault" where
  "exchange_modify_order i ord ex =
     do {
       b \<leftarrow> route i ex;
       let (ex, q, b) = place_order ord ex b;
       r \<leftarrow> modify_order q b;
       Some (finish_task i ex r)
     }"

definition exchange_cancel_order ::
    "string \<Rightarrow> string \<Rightarrow> exchange \<Rightarrow> (exchange \<times> OrderStatus) reply_or_fault" where
  "exchange_cancel_order i oid ex =
     do {
       b \<leftarrow> route i ex;
       r \<leftarrow> cancel_order oid b;
       Some (finish_task i ex r)
     }"

definition add_instrument ::
    "string \<Rightarrow> f32 \<Rightarrow> order list \<Rightarrow> int \<Rightarrow> exchange \<Rightarrow> (exchange \<times> bool) option" where
  "add_instrument i starting_price stored now ex =
     (if instrument_exists i ex then Some (ex, False)
      else do {
        b \<leftarrow> new_book i starting_price [1..<Suc (length stored)] (stored_mem stored) now;
        Some (ex\<lparr>instrument_idx := AList.update i (length (instruments ex)) (instrument_idx ex),
                 instruments := AList.update i b (instruments ex)\<rparr>, True)
      })"

definition exchange_get_order ::
    "('d, 's) kv_ops \<Rightarrow> ('s \<Rightarrow> order_archive option) \<Rightarrow> 'd \<Rightarrow> string \<Rightarrow> exn + order option" where
  "exchange_get_order ops dec db oid = get_order ops dec db oid"

definition get_orderbook_snapshot :: "string \<Rightarrow> exchange \<Rightarrow> Snapshot option" where
  "get_orderbook_snapshot i ex = do { b \<leftarrow> map_of (instruments ex) i; get_snapshot b }"

primrec check_books :: "int \<Rightarrow> (string \<times> OrderBook) list \<Rightarrow> ((string \<times> OrderBook) list) reply_or_fault" where
  "check_books now [] = Some (Inr [])"
| "check_books now (ib # ibs) =
     do {
       r \<leftarrow> check_date_orders ((snd ib)\<lparr>clock := now\<rparr>);
       (case r of
          Inl (f, _) \<Rightarrow> Some (Inl f)
        | Inr b \<Rightarrow>
            do {
              rs \<leftarrow> check_books now ibs;
              (case rs of Inl f \<Rightarrow> Some (Inl f) | Inr ibs' \<Rightarrow> Some (Inr ((fst ib, b) # ibs')))
            })
     }"

definition exchange_check_date_orders :: "int \<Rightarrow> exchange \<Rightarrow> exchange reply_or_fault" where
  "exchange_check_date_orders now ex =
     do {
       r \<leftarrow> check_books now (instruments ex);
       (case r of Inl f \<Rightarrow> Some (Inl f) | Inr ibs \<Rightarrow> Some (Inr (ex\<lparr>instruments := ibs\<rparr>)))
     }"

section \<open>Working hours\<close>

text \<open>The fields of \<^verbatim>\<open>std::tm\<close> the loop reads: months from 0, years since 1900.\<close>

record tm =
  tm_min :: int
  tm_hour :: int
  tm_mday :: int
  tm_mon :: int
  tm_year :: int

definition at_opening :: "tm \<Rightarrow> tm" where
  "at_opening tm = tm\<lparr>tm_hour := opening_h, tm_min := opening_m\<rparr>"

text \<open>The time the thread sleeps until (lines 122 to 149).\<close>

definition next_time :: "tm \<Rightarrow> tm option" where
  "next_time tm =
     (if tm_hour tm < opening_h \<or> (tm_hour tm = opening_h \<and> tm_min tm < opening_m) then
        Some (at_opening tm)
      else if tm_hour tm < closing_h \<or> (tm_hour tm = closing_h \<and> tm_min tm < closing_m) then
        Some (at_opening tm)
      else do {
        dow \<leftarrow> day_of_week (tm_mday tm) (tm_mon tm) (tm_year tm);
        let days = (if dow = 5 then 3 else if dow = 6 then 2 else 1);
        Some (at_opening (tm\<lparr>tm_mday := tm_mday tm + days\<rparr>))
      })"

text \<open>After the sleep, at time \<open>now\<close>: the decision uses the hour and minute read before it (lines 155 to 160).\<close>

definition after_sleep :: "int \<Rightarrow> tm \<Rightarrow> exchange \<Rightarrow> exchange reply_or_fault" where
  "after_sleep now tm ex =
     (if tm_hour tm = opening_h \<and> tm_min tm = opening_m then Some (Inr (ex\<lparr>working := True\<rparr>))
      else if tm_hour tm = closing_h \<and> tm_min tm = closing_m then
        exchange_check_date_orders now (ex\<lparr>working := False\<rparr>)
      else Some (Inr ex))"

definition working_round :: "int \<Rightarrow> tm \<Rightarrow> exchange \<Rightarrow> (tm \<times> exchange) reply_or_fault" where
  "working_round now tm ex =
     do {
       target \<leftarrow> next_time tm;
       r \<leftarrow> after_sleep now tm ex;
       (case r of Inl f \<Rightarrow> Some (Inl f) | Inr ex \<Rightarrow> Some (Inr (target, ex)))
     }"

end
