(* ===== verification/Server.thy ===== *)
theory Server
  imports Exchange
begin

text \<open>
  The HTTP layer: the JSON mapper (\<^verbatim>\<open>src/mappers/orderjson_order_mapper.hpp\<close>), the request handlers
  (\<^verbatim>\<open>src/server/handlers/order_handler.cpp\<close>, \<^verbatim>\<open>orderbook_info_handler.cpp\<close>), the bodies of the replies
  (\<^verbatim>\<open>handlers/response\<close>) and the routes (\<^verbatim>\<open>server.cpp\<close>). The web server and the JSON parser are
  code outside the repository: a request is the map of its path parameters and the parsed
  document. A field that cannot be read at the type the code asks for throws.
\<close>

section \<open>JSON documents and the order mapper\<close>

text \<open>
  A parsed document is the parser's three typed field accesses: the value of a field read as a
  string, as a \<^verbatim>\<open>double\<close> or as a \<^verbatim>\<open>uint64_t\<close>, \<open>None\<close> where the access reports an error.
\<close>

record json_doc =
  field_string :: "string \<Rightarrow> string option"
  field_double :: "string \<Rightarrow> f64 option"
  field_uint :: "string \<Rightarrow> 64 word option"

definition or_error :: "string \<Rightarrow> 'a option \<Rightarrow> exn + 'a" where
  "or_error k r = (case r of None \<Rightarrow> Inl (Parse_error k) | Some x \<Rightarrow> Inr x)"

definition json_string :: "json_doc \<Rightarrow> string \<Rightarrow> exn + string" where
  "json_string doc k = or_error k (field_string doc k)"

definition json_double :: "json_doc \<Rightarrow> string \<Rightarrow> exn + f64" where
  "json_double doc k = or_error k (field_double doc k)"

definition json_uint :: "json_doc \<Rightarrow> string \<Rightarrow> exn + 64 word" where
  "json_uint doc k = or_error k (field_uint doc k)"

definition or_throw :: "exn + 'a \<Rightarrow> ('a \<Rightarrow> exn + 'b) \<Rightarrow> exn + 'b" where
  "or_throw r f = (case r of Inl e \<Rightarrow> Inl e | Inr x \<Rightarrow> f x)"

definition get_order_side :: "string \<Rightarrow> Side" where
  "get_order_side s = (if s = ''BUY'' then BUY else if s = ''SELL'' then SELL else UNKOWN)"

definition get_order_type :: "string \<Rightarrow> OrderType" where
  "get_order_type s = (if s = ''MARKET'' then MARKET else LIMIT)"

definition get_order_params :: "64 word \<Rightarrow> OrderParams" where
  "get_order_params w = w"

definition map_json_to_order :: "int \<Rightarrow> json_doc \<Rightarrow> exn + order" where
  "map_json_to_order now doc =
     (let oid = (case json_string doc ''order_id'' of Inl _ \<Rightarrow> [] | Inr s \<Rightarrow> s) in
      or_throw (json_string doc ''instrument'') (\<lambda>instr.
      or_throw (json_string doc ''user_id'') (\<lambda>user.
      or_throw (json_double doc ''qty'') (\<lambda>qty.
      or_throw (json_double doc ''price'') (\<lambda>pr.
      or_throw (json_string doc ''side'') (\<lambda>sd.
      or_throw (json_string doc ''type'') (\<lambda>ty.
      or_throw (json_uint doc ''params'') (\<lambda>ps.
      or_throw
        (if params_and (get_order_params ps) GTD = GTD \<or> params_and (get_order_params ps) GFD = GFD
         then json_uint doc ''expire_time'' else Inr (- 1)) (\<lambda>ex.
      if get_order_params ps = STOP then
        or_throw (json_double doc ''stop_price'') (\<lambda>sp.
        Inr (new_stop_order now oid instr user (to_f32 qty) (to_f32 pr) (to_f32 sp)
          (get_order_side sd) (get_order_params ps) (get_order_type ty) (sint ex)))
      else
        Inr (new_order now oid instr user (to_f32 qty) (to_f32 pr)
          (get_order_side sd) (get_order_params ps) (get_order_type ty) (sint ex)))))))))))"

section \<open>Replies\<close>

datatype http_status = OK | BAD_REQUEST | NOT_FOUND_STATUS | NO_CONTENT | NOT_ACCEPTABLE

fun status_code :: "OrderStatus \<Rightarrow> 8 word" where
  "status_code ACCEPTED = 0" | "status_code MATCHED = 1" | "status_code NOT_MATCHED = 2"
| "status_code REJECTED = 3" | "status_code CANCELLED = 4" | "status_code MODIFIED = 5"
| "status_code NOT_FOUND = 6"

record order_json =
  oj_id :: string
  oj_instrument :: string
  oj_user_id :: string
  oj_timestamp :: int
  oj_qty :: f32
  oj_current_qty :: f32
  oj_price :: f32
  oj_stop_price :: f32
  oj_side :: "8 word"
  oj_cancelled :: bool
  oj_params :: "64 word"
  oj_type :: "8 word"

definition SeastarOrderJson :: "order \<Rightarrow> order_json" where
  "SeastarOrderJson ord =
     \<lparr>oj_id = get_id ord, oj_instrument = get_instrument ord, oj_user_id = get_user_id ord,
      oj_timestamp = get_timestamp ord, oj_qty = get_initial_qty ord, oj_current_qty = get_qty ord,
      oj_price = get_price ord, oj_stop_price = get_stop_price ord, oj_side = get_side_uint8 ord,
      oj_cancelled = is_cancelled ord, oj_params = get_params_uint64 ord, oj_type = get_type_uint8 ord\<rparr>"

definition SeastarOrderInfoJson :: "string \<Rightarrow> OrderStatus \<Rightarrow> string \<times> 8 word" where
  "SeastarOrderInfoJson oid st = (oid, status_code st)"

record spread_json =
  sj_best_ask_price :: f32
  sj_market_price :: f32
  sj_best_bid_price :: f32

definition SeastarSpreadJson :: "f32 \<Rightarrow> f32 \<Rightarrow> f32 \<Rightarrow> spread_json" where
  "SeastarSpreadJson ask mp bid =
     \<lparr>sj_best_ask_price = ask, sj_market_price = mp, sj_best_bid_price = bid\<rparr>"

definition SeastarLimitJson :: "f32 \<Rightarrow> f32 \<Rightarrow> f32 \<times> f32" where
  "SeastarLimitJson p q = (p, q)"

record snapshot_json =
  json_asks :: "(f32 \<times> f32) list"
  json_bids :: "(f32 \<times> f32) list"
  json_spread :: spread_json

definition SeastarSnapshotJson :: "Snapshot \<Rightarrow> snapshot_json" where
  "SeastarSnapshotJson s =
     \<lparr>json_asks = map (\<lambda>l. SeastarLimitJson (snap_price l) (snap_qty l)) (asks s),
      json_bids = map (\<lambda>l. SeastarLimitJson (snap_price l) (snap_qty l)) (bids s),
      json_spread = SeastarSpreadJson (best_ask_price (spread s)) (spread_market_price (spread s))
        (best_bid_price (spread s))\<rparr>"

datatype body = B_empty | B_message string | B_order_info "string \<times> 8 word" | B_order order_json
  | B_snapshot snapshot_json

record reply =
  status :: http_status
  reply_body :: body

definition ok_reply :: reply where
  "ok_reply = \<lparr>status = OK, reply_body = B_empty\<rparr>"

record request =
  path_params :: "(string \<times> string) list"
  content :: json_doc

definition INSTRUMENT_KEY :: string where "INSTRUMENT_KEY = ''instrument''"
definition ORDER_ID_KEY :: string where "ORDER_ID_KEY = ''order_id''"

definition get_path_param :: "request \<Rightarrow> string \<Rightarrow> string" where
  "get_path_param req k = (case map_of (path_params req) k of None \<Rightarrow> [] | Some v \<Rightarrow> v)"

section \<open>Validation\<close>

text \<open>A validation returns the reply that ends the request, or \<open>None\<close> when it passes.\<close>

definition validate_parameter :: "string \<Rightarrow> request \<Rightarrow> string \<Rightarrow> reply option" where
  "validate_parameter k req msg =
     (if map_of (path_params req) k = None
      then Some \<lparr>status = BAD_REQUEST, reply_body = B_message msg\<rparr> else None)"

definition validate_instrument_parameter :: "request \<Rightarrow> exchange \<Rightarrow> reply option" where
  "validate_instrument_parameter req ex =
     (case validate_parameter INSTRUMENT_KEY req ''invalid instrument parameter'' of
        Some ans \<Rightarrow> Some ans
      | None \<Rightarrow>
          (let i = get_path_param req INSTRUMENT_KEY in
           if \<not> instrument_exists i ex
           then Some \<lparr>status = NOT_FOUND_STATUS,
                      reply_body = B_message (''instrument '' @ i @ '' doesn't exist'')\<rparr>
           else None))"

definition validate_order_side :: "Side \<Rightarrow> reply option" where
  "validate_order_side sd =
     (if sd = UNKOWN
      then Some \<lparr>status = BAD_REQUEST, reply_body = B_message ''order side can only be BUY or SELL''\<rparr>
      else None)"

definition check_if_exchange_is_working :: "exchange \<Rightarrow> reply option" where
  "check_if_exchange_is_working ex =
     (if \<not> is_working ex
      then Some \<lparr>status = NO_CONTENT, reply_body = B_message ''exchange is not working currently.''\<rparr>
      else None)"

section \<open>Handlers\<close>

text \<open>
  The outcome of a handler: an exception or fault, or the exchange and the reply. \<open>uuid\<close> is the
  identifier the generator returns.
\<close>

type_synonym outcome = "(fault + exchange \<times> reply) option"

definition create_order_handler :: "int \<Rightarrow> string \<Rightarrow> request \<Rightarrow> exchange \<Rightarrow> outcome" where
  "create_order_handler now uuid req ex =
     (case validate_instrument_parameter req ex of
        Some ans \<Rightarrow> Some (Inr (ex, ans))
      | None \<Rightarrow>
     (case map_json_to_order now (content req) of
        Inl e \<Rightarrow> Some (Inl (Thrown e))
      | Inr ord \<Rightarrow>
     (case validate_order_side (get_side ord) of
        Some ans \<Rightarrow> Some (Inr (ex, ans))
      | None \<Rightarrow>
     (case check_if_exchange_is_working ex of
        Some ans \<Rightarrow> Some (Inr (ex, ans))
      | None \<Rightarrow>
          do {
            r \<leftarrow> exchange_add_order now (get_path_param req INSTRUMENT_KEY) (set_id uuid ord) ex;
            (case r of
               Inl f \<Rightarrow> Some (Inl f)
             | Inr (ex, st) \<Rightarrow>
                 Some (Inr (ex, ok_reply\<lparr>reply_body := B_order_info (SeastarOrderInfoJson uuid st)\<rparr>)))
          }))))"

definition get_order_handler ::
    "('d, 's) kv_ops \<Rightarrow> ('s \<Rightarrow> order_archive option) \<Rightarrow> 'd \<Rightarrow> request \<Rightarrow> exchange \<Rightarrow> outcome" where
  "get_order_handler ops dec db req ex =
     (case validate_parameter ORDER_ID_KEY req ''invalid order parameter'' of
        Some ans \<Rightarrow> Some (Inr (ex, ans))
      | None \<Rightarrow>
     (case check_if_exchange_is_working ex of
        Some ans \<Rightarrow> Some (Inr (ex, ans))
      | None \<Rightarrow>
     (case exchange_get_order ops dec db (get_path_param req ORDER_ID_KEY) of
        Inl e \<Rightarrow> Some (Inl (Thrown e))
      | Inr None \<Rightarrow> Some (Inr (ex, ok_reply\<lparr>status := NOT_FOUND_STATUS\<rparr>))
      | Inr (Some ord) \<Rightarrow> Some (Inr (ex, ok_reply\<lparr>reply_body := B_order (SeastarOrderJson ord)\<rparr>)))))"

definition cancel_order_handler :: "request \<Rightarrow> exchange \<Rightarrow> outcome" where
  "cancel_order_handler req ex =
     (case validate_parameter ORDER_ID_KEY req ''invalid order parameter'' of
        Some ans \<Rightarrow> Some (Inr (ex, ans))
      | None \<Rightarrow>
     (case check_if_exchange_is_working ex of
        Some ans \<Rightarrow> Some (Inr (ex, ans))
      | None \<Rightarrow>
     (case validate_instrument_parameter req ex of
        Some ans \<Rightarrow> Some (Inr (ex, ans))
      | None \<Rightarrow>
          do {
            r \<leftarrow> exchange_cancel_order (get_path_param req INSTRUMENT_KEY)
                   (get_path_param req ORDER_ID_KEY) ex;
            (case r of
               Inl f \<Rightarrow> Some (Inl f)
             | Inr (ex, st) \<Rightarrow>
                 Some (Inr (ex,
                   if st = NOT_FOUND then ok_reply\<lparr>status := NOT_FOUND_STATUS\<rparr>
                   else if st = CANCELLED then ok_reply\<lparr>status := OK\<rparr>
                   else if st = REJECTED then ok_reply\<lparr>status := NOT_ACCEPTABLE\<rparr>
                   else ok_reply)))
          })))"

definition update_order_handler :: "int \<Rightarrow> request \<Rightarrow> exchange \<Rightarrow> outcome" where
  "update_order_handler now req ex =
     (case validate_instrument_parameter req ex of
        Some ans \<Rightarrow> Some (Inr (ex, ans))
      | None \<Rightarrow>
     (case check_if_exchange_is_working ex of
        Some ans \<Rightarrow> Some (Inr (ex, ans))
      | None \<Rightarrow>
     (case map_json_to_order now (content req) of
        Inl e \<Rightarrow> Some (Inl (Thrown e))
      | Inr ord \<Rightarrow>
          do {
            r \<leftarrow> exchange_modify_order (get_path_param req INSTRUMENT_KEY) ord ex;
            (case r of
               Inl f \<Rightarrow> Some (Inl f)
             | Inr (ex, st) \<Rightarrow>
                 Some (Inr (ex,
                   ok_reply\<lparr>reply_body := B_order_info (SeastarOrderInfoJson (order_id ord) st)\<rparr>)))
          })))"

text \<open>\<^verbatim>\<open>OrderBookInfoHandler\<close> has its own copies of two validations.\<close>

definition info_validate_parameter :: "string \<Rightarrow> request \<Rightarrow> string \<Rightarrow> reply option" where
  "info_validate_parameter k req msg =
     (if map_of (path_params req) k = None
      then Some \<lparr>status = BAD_REQUEST, reply_body = B_message msg\<rparr> else None)"

definition info_validate_instrument_parameter :: "request \<Rightarrow> exchange \<Rightarrow> reply option" where
  "info_validate_instrument_parameter req ex =
     (case info_validate_parameter INSTRUMENT_KEY req ''invalid instrument parameter'' of
        Some ans \<Rightarrow> Some ans
      | None \<Rightarrow>
          (let i = get_path_param req INSTRUMENT_KEY in
           if \<not> instrument_exists i ex
           then Some \<lparr>status = NOT_FOUND_STATUS,
                      reply_body = B_message (''instrument '' @ i @ '' doesn't exist'')\<rparr>
           else None))"

definition snapshot_handler :: "request \<Rightarrow> exchange \<Rightarrow> outcome" where
  "snapshot_handler req ex =
     (case info_validate_instrument_parameter req ex of
        Some ans \<Rightarrow> Some (Inr (ex, ans))
      | None \<Rightarrow>
          do {
            s \<leftarrow> get_orderbook_snapshot (get_path_param req INSTRUMENT_KEY) ex;
            Some (Inr (ex, ok_reply\<lparr>reply_body := B_snapshot (SeastarSnapshotJson s)\<rparr>))
          })"

section \<open>Routes\<close>

datatype verb = POST | PUT | GET

datatype handler = H_create | H_update | H_get | H_cancel | H_snapshot

datatype part = P_str string | P_param string

definition create_order_route :: "part list" where
  "create_order_route = [P_str ''/orders'', P_param INSTRUMENT_KEY, P_str ''/create'']"

definition update_order_route :: "part list" where
  "update_order_route = [P_str ''/orders'', P_param INSTRUMENT_KEY, P_str ''/update'']"

definition get_order_route :: "part list" where
  "get_order_route = [P_str ''/orders'', P_param INSTRUMENT_KEY, P_param ORDER_ID_KEY]"

definition cancel_order_route :: "part list" where
  "cancel_order_route =
     [P_str ''/orders'', P_param INSTRUMENT_KEY, P_str ''/cancel'', P_param ORDER_ID_KEY]"

definition get_orderbook_snapshot_route :: "part list" where
  "get_orderbook_snapshot_route = [P_str ''/orderbook'', P_param INSTRUMENT_KEY, P_str ''/snapshot'']"

definition set_routes :: "(verb \<times> part list \<times> handler) list" where
  "set_routes =
     [(POST, create_order_route, H_create), (PUT, update_order_route, H_update),
      (GET, get_order_route, H_get), (PUT, cancel_order_route, H_cancel),
      (GET, get_orderbook_snapshot_route, H_snapshot)]"

end
