(* ===== verification/Replies.thy ===== *)
theory Replies
  imports Server
begin

text \<open>
  The reply bodies as JSON objects (\<^verbatim>\<open>src/server/handlers/response\<close>): the members each body registers, in
  their order and with their types, and the operations that copy bodies. Printing an object is the
  framework's work.
\<close>

section \<open>Registered members\<close>

datatype json_element =
    E_string string | E_time int | E_float f32 | E_uint8 "8 word" | E_bool bool | E_uint64 "64 word"
  | E_list "json_element list" | E_object "(string \<times> json_element) list"

definition order_register_params :: "order_json \<Rightarrow> json_element" where
  "order_register_params j = E_object
     [(''id'', E_string (oj_id j)),
      (''instrument'', E_string (oj_instrument j)),
      (''user_id'', E_string (oj_user_id j)),
      (''timestamp'', E_time (oj_timestamp j)),
      (''qty'', E_float (oj_qty j)),
      (''current_qty'', E_float (oj_current_qty j)),
      (''price'', E_float (oj_price j)),
      (''stop_price'', E_float (oj_stop_price j)),
      (''side'', E_uint8 (oj_side j)),
      (''cancelled'', E_bool (oj_cancelled j)),
      (''params'', E_uint64 (oj_params j)),
      (''type'', E_uint8 (oj_type j))]"

definition info_register_params :: "string \<times> 8 word \<Rightarrow> json_element" where
  "info_register_params j = E_object [(''order_id'', E_string (fst j)), (''status'', E_uint8 (snd j))]"

definition spread_register_params :: "spread_json \<Rightarrow> json_element" where
  "spread_register_params j = E_object
     [(''best_ask_price'', E_float (sj_best_ask_price j)),
      (''market_price'', E_float (sj_market_price j)),
      (''best_bid_price'', E_float (sj_best_bid_price j))]"

definition limit_register_params :: "f32 \<times> f32 \<Rightarrow> json_element" where
  "limit_register_params j = E_object [(''price'', E_float (fst j)), (''qty'', E_float (snd j))]"

definition snapshot_register_params :: "snapshot_json \<Rightarrow> json_element" where
  "snapshot_register_params j = E_object
     [(''asks'', E_list (map limit_register_params (json_asks j))),
      (''bids'', E_list (map limit_register_params (json_bids j))),
      (''spread'', spread_register_params (json_spread j))]"

text \<open>What a reply writes: a JSON object, a text, or nothing.\<close>

fun reply_object :: "body \<Rightarrow> json_element option" where
  "reply_object B_empty = None"
| "reply_object (B_message m) = None"
| "reply_object (B_order_info j) = Some (info_register_params j)"
| "reply_object (B_order j) = Some (order_register_params j)"
| "reply_object (B_snapshot j) = Some (snapshot_register_params j)"

section \<open>Copying bodies\<close>

text \<open>
  Assignment writes every member of the target \<open>t\<close>; a copy is an assignment to a new object. The
  template assigns from the data structure the body stands for.
\<close>

definition assign_order_json :: "order_json \<Rightarrow> order_json \<Rightarrow> order_json" where
  "assign_order_json t e =
     t\<lparr>oj_id := oj_id e, oj_instrument := oj_instrument e, oj_user_id := oj_user_id e, oj_timestamp := oj_timestamp e,
       oj_qty := oj_qty e, oj_current_qty := oj_current_qty e, oj_price := oj_price e, oj_stop_price := oj_stop_price e,
       oj_side := oj_side e, oj_cancelled := oj_cancelled e, oj_params := oj_params e, oj_type := oj_type e\<rparr>"

definition copy_order_json :: "order_json \<Rightarrow> order_json" where
  "copy_order_json e =
     \<lparr>oj_id = oj_id e, oj_instrument = oj_instrument e, oj_user_id = oj_user_id e, oj_timestamp = oj_timestamp e,
      oj_qty = oj_qty e, oj_current_qty = oj_current_qty e, oj_price = oj_price e, oj_stop_price = oj_stop_price e,
      oj_side = oj_side e, oj_cancelled = oj_cancelled e, oj_params = oj_params e, oj_type = oj_type e\<rparr>"

definition assign_info_json :: "string \<times> 8 word \<Rightarrow> string \<times> 8 word \<Rightarrow> string \<times> 8 word" where
  "assign_info_json t e = (fst e, snd e)"

definition copy_info_json :: "string \<times> 8 word \<Rightarrow> string \<times> 8 word" where
  "copy_info_json e = (fst e, snd e)"

definition assign_spread_json :: "spread_json \<Rightarrow> spread_json \<Rightarrow> spread_json" where
  "assign_spread_json t e =
     t\<lparr>sj_best_ask_price := sj_best_ask_price e, sj_market_price := sj_market_price e, sj_best_bid_price := sj_best_bid_price e\<rparr>"

definition copy_spread_json :: "spread_json \<Rightarrow> spread_json" where
  "copy_spread_json e =
     \<lparr>sj_best_ask_price = sj_best_ask_price e, sj_market_price = sj_market_price e, sj_best_bid_price = sj_best_bid_price e\<rparr>"

definition assign_spread :: "spread_json \<Rightarrow> Spread \<Rightarrow> spread_json" where
  "assign_spread t e =
     t\<lparr>sj_best_ask_price := best_ask_price e, sj_market_price := spread_market_price e, sj_best_bid_price := best_bid_price e\<rparr>"

definition assign_limit_json :: "f32 \<times> f32 \<Rightarrow> f32 \<times> f32 \<Rightarrow> f32 \<times> f32" where
  "assign_limit_json t e = (fst e, snd e)"

definition copy_limit_json :: "f32 \<times> f32 \<Rightarrow> f32 \<times> f32" where
  "copy_limit_json e = (fst e, snd e)"

definition assign_limit :: "f32 \<times> f32 \<Rightarrow> SnapshotLimit \<Rightarrow> f32 \<times> f32" where
  "assign_limit t e = (snap_price e, snap_qty e)"

definition assign_snapshot_json :: "snapshot_json \<Rightarrow> snapshot_json \<Rightarrow> snapshot_json" where
  "assign_snapshot_json t e =
     t\<lparr>json_asks := map copy_limit_json (json_asks e), json_bids := map copy_limit_json (json_bids e),
       json_spread := assign_spread_json (json_spread t) (json_spread e)\<rparr>"

definition copy_snapshot_json :: "snapshot_json \<Rightarrow> snapshot_json" where
  "copy_snapshot_json e =
     \<lparr>json_asks = map copy_limit_json (json_asks e), json_bids = map copy_limit_json (json_bids e),
      json_spread = copy_spread_json (json_spread e)\<rparr>"

text \<open>No copy loses a member, and assigning a data structure gives the body its constructor builds.\<close>

lemma copies_complete:
  "assign_order_json t e = e" "copy_order_json e = e" "assign_info_json u i = i" "copy_info_json i = i"
  "assign_spread_json ts s = s" "copy_spread_json s = s" "assign_limit_json u' l = l" "copy_limit_json l = l"
  "assign_snapshot_json tn n = n" "copy_snapshot_json n = n"
  by (simp_all add: assign_order_json_def copy_order_json_def assign_info_json_def copy_info_json_def
    assign_spread_json_def copy_spread_json_def assign_limit_json_def copy_limit_json_def
    assign_snapshot_json_def copy_snapshot_json_def cong: map_cong)

lemma assigned_bodies:
  "assign_spread t s = SeastarSpreadJson (best_ask_price s) (spread_market_price s) (best_bid_price s)"
  "assign_limit u l = SeastarLimitJson (snap_price l) (snap_qty l)"
  by (simp_all add: assign_spread_def SeastarSpreadJson_def assign_limit_def SeastarLimitJson_def)

section \<open>Reading a body\<close>

text \<open>A member of an object by its name, and the order and snapshot a client reads from a document.\<close>

fun json_member :: "json_element \<Rightarrow> string \<Rightarrow> json_element option" where
  "json_member (E_object ms) k = map_of ms k"
| "json_member _ k = None"

definition read_text :: "json_element \<Rightarrow> string \<Rightarrow> string option" where
  "read_text d k = (case json_member d k of Some (E_string x) \<Rightarrow> Some x | _ \<Rightarrow> None)"

definition read_number :: "json_element \<Rightarrow> string \<Rightarrow> f32 option" where
  "read_number d k = (case json_member d k of Some (E_float x) \<Rightarrow> Some x | _ \<Rightarrow> None)"

definition read_levels :: "json_element \<Rightarrow> string \<Rightarrow> (f32 option \<times> f32 option) list option" where
  "read_levels d k = (case json_member d k of
     Some (E_list ls) \<Rightarrow> Some (map (\<lambda>l. (read_number l ''price'', read_number l ''qty'')) ls) | _ \<Rightarrow> None)"

lemma order_document:
  "read_text (order_register_params j) ''id'' = Some (oj_id j)"
  "read_text (order_register_params j) ''user_id'' = Some (oj_user_id j)"
  "read_number (order_register_params j) ''qty'' = Some (oj_qty j)"
  "read_number (order_register_params j) ''current_qty'' = Some (oj_current_qty j)"
  "read_number (order_register_params j) ''price'' = Some (oj_price j)"
  "read_number (order_register_params j) ''stop_price'' = Some (oj_stop_price j)"
  by (simp_all add: order_register_params_def read_text_def read_number_def)

lemma snapshot_document:
  "read_levels (snapshot_register_params j) ''asks'' = Some (map (map_prod Some Some) (json_asks j))"
  "read_levels (snapshot_register_params j) ''bids'' = Some (map (map_prod Some Some) (json_bids j))"
  "map_option (\<lambda>d. read_number d ''market_price'') (json_member (snapshot_register_params j) ''spread'') =
    Some (Some (sj_market_price (json_spread j)))"
  by (simp_all add: snapshot_register_params_def read_levels_def read_number_def limit_register_params_def
    spread_register_params_def map_prod_def split_beta comp_def)

end
