(* ===== verification/Book_Links.thy ===== *)
theory Book_Links
  imports OrderBook RBTree_Iter
begin

text \<open>
  The linked list of the orders resting at one limit: what the pointers represent, and what
  unlinking an order and appending an order do to the list. \<open>links b p os\<close> says that the limit at
  address \<open>p\<close> holds exactly the orders \<open>os\<close>, from head to tail.
\<close>

section \<open>Segments of the order list\<close>

definition first_or :: "nat list \<Rightarrow> nat \<Rightarrow> nat" where
  "first_or xs d = (case xs of [] \<Rightarrow> d | x # _ \<Rightarrow> x)"

definition last_or :: "nat list \<Rightarrow> nat \<Rightarrow> nat" where
  "last_or xs d = (if xs = [] then d else last xs)"

lemma first_or_simps [simp]: "first_or [] d = d" "first_or (x # xs) d = x"
  by (simp_all add: first_or_def)

lemma last_or_simps [simp]: "last_or [] d = d" "last_or (x # xs) d = last_or xs x"
  by (simp_all add: last_or_def)

lemma first_or_append: "first_or (xs @ ys) d = first_or xs (first_or ys d)"
  by (cases xs) auto

lemma last_or_append: "last_or (xs @ ys) d = last_or ys (last_or xs d)"
  by (simp add: last_or_def)

fun seg :: "(nat \<rightharpoonup> order) \<Rightarrow> nat \<Rightarrow> nat \<Rightarrow> nat list \<Rightarrow> nat \<Rightarrow> bool" where
  "seg mem p pv [] nx \<longleftrightarrow> True"
| "seg mem p pv (q # qs) nx \<longleftrightarrow>
     q \<noteq> 0 \<and> (\<exists>ord. mem q = Some ord \<and> limit_parent ord = p \<and> prev_order ord = pv \<and>
       next_order ord = first_or qs nx) \<and> seg mem p q qs nx"

lemma seg_append:
  "seg mem p pv (xs @ ys) nx \<longleftrightarrow>
     seg mem p pv xs (first_or ys nx) \<and> seg mem p (last_or xs pv) ys nx"
  by (induction xs arbitrary: pv) (auto simp: first_or_append)

lemma seg_cong:
  "(\<And>q. q \<in> set qs \<Longrightarrow> mem q = mem' q) \<Longrightarrow> seg mem p pv qs nx = seg mem' p pv qs nx"
  by (induction qs arbitrary: pv) auto

lemma seg_upd [simp]: "q \<notin> set qs \<Longrightarrow> seg (mem(q := v)) p pv qs nx = seg mem p pv qs nx"
  by (rule seg_cong) auto

lemma seg_0: "seg mem p pv qs nx \<Longrightarrow> 0 \<notin> set qs"
  by (induction qs arbitrary: pv) auto

text \<open>The links of an order object set to new values.\<close>

definition set_next :: "nat \<Rightarrow> nat \<Rightarrow> (nat \<rightharpoonup> order) \<Rightarrow> (nat \<rightharpoonup> order)" where
  "set_next q v mem = mem(q := map_option (\<lambda>ord. ord\<lparr>next_order := v\<rparr>) (mem q))"

definition set_prev :: "nat \<Rightarrow> nat \<Rightarrow> (nat \<rightharpoonup> order) \<Rightarrow> (nat \<rightharpoonup> order)" where
  "set_prev q v mem = mem(q := map_option (\<lambda>ord. ord\<lparr>prev_order := v\<rparr>) (mem q))"

lemma set_links_other [simp]:
  "q \<noteq> r \<Longrightarrow> set_next r v mem q = mem q" "q \<noteq> r \<Longrightarrow> set_prev r v mem q = mem q"
  by (simp_all add: set_next_def set_prev_def)

lemma seg_set_next:
  "seg mem p pv (xs @ [q]) nx \<Longrightarrow> distinct (xs @ [q]) \<Longrightarrow> seg (set_next q nx' mem) p pv (xs @ [q]) nx'"
  by (auto simp: seg_append set_next_def)

lemma seg_set_prev:
  "seg mem p pv (q # qs) nx \<Longrightarrow> distinct (q # qs) \<Longrightarrow> seg (set_prev q pv' mem) p pv' (q # qs) nx"
  by (auto simp: set_prev_def)

text \<open>Everything of an order but its two list links.\<close>

definition linkless :: "order \<Rightarrow> order" where
  "linkless ord = ord\<lparr>prev_order := 0, next_order := 0\<rparr>"

lemma linkless_eqD:
  assumes "linkless a = linkless b"
  shows "order_id a = order_id b" "user_id a = user_id b" "timestamp a = timestamp b"
    "current_qty a = current_qty b" "price a = price b" "stop_price a = stop_price b"
    "side a = side b" "cancelled a = cancelled b" "params a = params b"
    "order_type a = order_type b" "expire_time a = expire_time b" "limit_parent a = limit_parent b"
  using assms by (cases a, cases b, simp add: linkless_def)+

lemma linkless_set [simp]:
  "map_option linkless (set_next q v mem r) = map_option linkless (mem r)"
  "map_option linkless (set_prev q v mem r) = map_option linkless (mem r)"
  by (cases "mem q"; cases "r = q"; simp add: set_next_def set_prev_def linkless_def)+

section \<open>Unlinking\<close>

definition relink :: "nat list \<Rightarrow> nat list \<Rightarrow> (nat \<rightharpoonup> order) \<Rightarrow> (nat \<rightharpoonup> order)" where
  "relink xs ys mem =
     (let mem = (if ys = [] then mem else set_prev (hd ys) (last_or xs 0) mem) in
      if xs = [] then mem else set_next (last xs) (first_or ys 0) mem)"

lemma relink_other: "q \<notin> set xs \<union> set ys \<Longrightarrow> relink xs ys mem q = mem q"
  by (cases xs rule: rev_cases; cases ys) (auto simp: relink_def Let_def)

lemma linkless_relink [simp]: "map_option linkless (relink xs ys mem q) = map_option linkless (mem q)"
  by (simp add: relink_def Let_def)

lemma seg_relink:
  assumes S: "seg mem p 0 (xs @ e # ys) 0" and D: "distinct (xs @ e # ys)"
  shows "seg (relink xs ys mem) p 0 (xs @ ys) 0"
proof -
  let ?m = "if ys = [] then mem else set_prev (hd ys) (last_or xs 0) mem"
  have S: "seg mem p 0 xs e" "seg mem p e ys 0" using S by (simp_all add: seg_append)
  have ys: "seg ?m p (last_or xs 0) ys 0"
    using S(2) D seg_set_prev [of mem p e "hd ys" "tl ys" 0 "last_or xs 0"] by (cases ys) auto
  have xs: "seg ?m p 0 xs e"
    using S(1) D by (cases ys) (auto simp: set_prev_def)
  show ?thesis
  proof (cases xs rule: rev_cases)
    case Nil
    with ys show ?thesis by (cases ys) (simp_all add: relink_def)
  next
    case (snoc zs x)
    have "seg (set_next x (first_or ys 0) ?m) p 0 xs (first_or ys 0)"
      using seg_set_next [of ?m p 0 zs x e] xs D snoc by simp
    moreover have "seg (set_next x (first_or ys 0) ?m) p (last_or xs 0) ys 0"
      using ys D snoc by (simp add: set_next_def [of x])
    moreover have "relink xs ys mem = set_next x (first_or ys 0) ?m"
      using snoc by (simp add: relink_def Let_def)
    ultimately show ?thesis by (simp only: seg_append)
  qed
qed

lemma mod_order_Some:
  "order_mem b q = Some ord \<Longrightarrow> mod_order f b q = Some (b\<lparr>order_mem := (order_mem b)(q \<mapsto> f ord)\<rparr>)"
  by (simp add: mod_order_def)

lemma mod_limit_Some:
  "limit_mem b p = Some l \<Longrightarrow> mod_limit f b p = Some (b\<lparr>limit_mem := (limit_mem b)(p \<mapsto> f l)\<rparr>)"
  by (simp add: mod_limit_def)

lemma seg_focus:
  assumes "seg mem p 0 (xs @ e # ys) 0"
  obtains ord where "mem e = Some ord" "limit_parent ord = p" "prev_order ord = last_or xs 0"
    "next_order ord = first_or ys 0" "e \<noteq> 0"
  using assms by (auto simp: seg_append)

lemma seg_dom: "seg mem p pv qs nx \<Longrightarrow> q \<in> set qs \<Longrightarrow> \<exists>ord. mem q = Some ord \<and> limit_parent ord = p"
  by (induction qs arbitrary: pv) auto

lemma unlink_order_exec:
  assumes S: "seg (order_mem b) p 0 (xs @ e # ys) 0" and D: "distinct (xs @ e # ys)"
  shows "unlink_order e b = Some (b\<lparr>order_mem := relink xs ys (order_mem b)\<rparr>)"
proof -
  obtain ord where e: "order_mem b e = Some ord" "prev_order ord = last_or xs 0"
    "next_order ord = first_or ys 0" using seg_focus [OF S] .
  have nz: "0 \<notin> set (xs @ e # ys)" using seg_0 [OF S] .
  have dom: "\<exists>x. order_mem b q = Some x" if "q \<in> set (xs @ e # ys)" for q
    using seg_dom [OF S that] by blast
  show ?thesis
  proof (cases xs rule: rev_cases)
    case Nil
    show ?thesis
    proof (cases ys)
      case Nil
      with \<open>xs = []\<close> e show ?thesis by (simp add: unlink_order_def relink_def)
    next
      case (Cons y zs)
      moreover then obtain y' where "order_mem b y = Some y'" using dom [of y] by auto
      ultimately show ?thesis using \<open>xs = []\<close> e nz D
        by (simp add: unlink_order_def relink_def mod_order_Some set_prev_def)
    qed
  next
    case (snoc zs x)
    then obtain x' where x: "order_mem b x = Some x'" using dom [of x] by auto
    have neq: "x \<noteq> 0" "x \<noteq> e" using snoc nz D by auto
    show ?thesis
    proof (cases ys)
      case Nil
      with snoc x neq e show ?thesis
        by (simp add: unlink_order_def relink_def mod_order_Some set_next_def last_or_def)
    next
      case (Cons y ws)
      moreover then obtain y' where "order_mem b y = Some y'" using dom [of y] by auto
      moreover have "y \<noteq> 0" "y \<noteq> e" "y \<noteq> x" using Cons snoc nz D by auto
      ultimately show ?thesis using snoc x neq e
        by (simp add: unlink_order_def relink_def mod_order_Some set_next_def set_prev_def last_or_def)
    qed
  qed
qed

section \<open>The list of a limit\<close>

definition links :: "OrderBook \<Rightarrow> nat \<Rightarrow> nat list \<Rightarrow> bool" where
  "links b p os \<longleftrightarrow>
     (\<exists>l. limit_mem b p = Some l \<and> head_order l = first_or os 0 \<and> tail_order l = last_or os 0) \<and>
     seg (order_mem b) p 0 os 0 \<and> distinct os"

text \<open>What stays: the trees, the queues, the objects at other addresses.\<close>

definition book_frame :: "nat set \<Rightarrow> nat set \<Rightarrow> OrderBook \<Rightarrow> OrderBook \<Rightarrow> bool" where
  "book_frame P Q b b' \<longleftrightarrow>
     book_instrument b' = book_instrument b \<and> ask_limits b' = ask_limits b \<and>
     bid_limits b' = bid_limits b \<and> ask_stop_orders b' = ask_stop_orders b \<and>
     bid_stop_orders b' = bid_stop_orders b \<and> date_orders b' = date_orders b \<and>
     next_limit b' = next_limit b \<and> order_queue b' = order_queue b \<and>
     trade_queue b' = trade_queue b \<and> clock b' = clock b \<and>
     (\<forall>p. p \<notin> P \<longrightarrow> limit_mem b' p = limit_mem b p) \<and>
     (\<forall>q. q \<notin> Q \<longrightarrow> order_mem b' q = order_mem b q) \<and>
     (\<forall>p. map_option limit_price (limit_mem b' p) = map_option limit_price (limit_mem b p))"

lemma book_frame_refl [simp]: "book_frame P Q b b"
  by (simp add: book_frame_def)

lemma book_frame_trans: "book_frame P Q b b' \<Longrightarrow> book_frame P Q b' b'' \<Longrightarrow> book_frame P Q b b''"
  by (auto simp: book_frame_def)

lemma book_frame_mono: "book_frame P Q b b' \<Longrightarrow> P \<subseteq> P' \<Longrightarrow> Q \<subseteq> Q' \<Longrightarrow> book_frame P' Q' b b'"
  by (auto simp: book_frame_def)

lemma remove_limit_order_links:
  assumes L: "links b p (xs @ e # ys)" and l: "limit_mem b p = Some l" and e: "order_mem b e = Some ord"
  shows "\<exists>b' l'. remove_limit_order e b = Some b' \<and> links b' p (xs @ ys) \<and>
    book_frame {p} (set xs \<union> set ys) b b' \<and> market_price b' = market_price b \<and>
    (\<forall>q. map_option linkless (order_mem b' q) = map_option linkless (order_mem b q)) \<and>
    order_mem b' e = Some ord \<and>
    limit_mem b' p = Some l' \<and> limit_price l' = limit_price l \<and>
    active_volume l' = max 0 (fsub64 (active_volume l) (current_qty ord)) \<and>
    number_of_active_orders l' = number_of_active_orders l - 1 \<and>
    orders b' = AList.delete (order_id ord) (orders b)"
proof -
  let ?l = "decrease_number_of_orders (decrease_volume (get_qty ord) l)"
  let ?l' = "?l\<lparr>head_order := first_or (xs @ ys) 0, tail_order := last_or (xs @ ys) 0\<rparr>"
  let ?m = "relink xs ys (order_mem b)"
  let ?b = "b\<lparr>limit_mem := (limit_mem b)(p \<mapsto> ?l'), order_mem := ?m,
    orders := AList.delete (order_id ord) (orders b)\<rparr>"
  have S: "seg (order_mem b) p 0 (xs @ e # ys) 0" and D: "distinct (xs @ e # ys)"
    and ends: "head_order l = first_or (xs @ e # ys) 0" "tail_order l = last_or (xs @ e # ys) 0"
    using L l by (auto simp: links_def)
  have ord: "limit_parent ord = p" "prev_order ord = last_or xs 0" "next_order ord = first_or ys 0"
    using seg_focus [OF S] e by auto
  have e': "?m e = Some ord" using D e by (subst relink_other) auto
  let ?b1 = "b\<lparr>limit_mem := (limit_mem b)(p \<mapsto> ?l)\<rparr>"
  have unlink: "unlink_order e ?b1 = Some (?b1\<lparr>order_mem := ?m\<rparr>)"
    using unlink_order_exec [of ?b1 p xs e ys] S D by simp
  have h: "head_order ?l = e \<longleftrightarrow> xs = []" using ends(1) D by (cases xs) auto
  have t: "tail_order ?l = e \<longleftrightarrow> ys = []"
    using ends(2) D by (cases ys rule: rev_cases) (auto simp: last_or_def)
  have l': "(if xs = [] \<and> ys = [] then ?l\<lparr>head_order := 0, tail_order := 0\<rparr>
      else if xs = [] then ?l\<lparr>head_order := next_order ord\<rparr>
      else if ys = [] then ?l\<lparr>tail_order := prev_order ord\<rparr> else ?l) = ?l'"
    using ends ord by (cases xs; cases ys rule: rev_cases)
      (auto intro!: limit.equality simp: first_or_append last_or_append)
  have "remove_limit_order e b = Some ?b"
    unfolding l' [symmetric] using e ord(1) l unlink e' h t
    by (simp add: remove_limit_order_def mod_limit_Some Let_def)
  moreover have "links ?b p (xs @ ys)" using seg_relink [OF S D] D by (simp add: links_def)
  moreover have "book_frame {p} (set xs \<union> set ys) b ?b"
    using l by (auto simp: book_frame_def relink_other)
  ultimately show ?thesis using e'
    by (intro exI [of _ ?b] exI [of _ ?l'])
       (simp add: decrease_number_of_orders_def decrease_volume_def get_qty_def)
qed

end
