(* ===== verification/Matching.thy ===== *)
theory Matching
  imports Book_Links
begin

text \<open>
  Matching. The specification is price-time priority on the visible queues: \<open>fill_queue\<close> serves
  the orders of one limit from head to tail, \<open>match_levels\<close> walks the limits of the opposite side
  in the order of the tree. The theory proves that \<open>process_limit_order\<close> and \<open>match_order\<close>
  implement these functions on the heap, always return, and never throw.
\<close>

section \<open>Specification of one limit\<close>

text \<open>\<open>n\<close> is the quantity still to fill; a queue is a list of orders with their open quantity.\<close>

type_synonym queue = "(nat \<times> f32) list"

fun fill_queue :: "bool \<Rightarrow> f32 \<Rightarrow> queue \<Rightarrow> f32 \<times> queue" where
  "fill_queue aon n [] = (n, [])"
| "fill_queue aon n ((x, m) # qs) =
     (if n \<le> 0 then (n, (x, m) # qs)
      else if n \<le> m then (0, if m = n then qs else (x, fsub32 m n) # qs)
      else if aon then (case fill_queue aon n qs of (n', qs') \<Rightarrow> (n', (x, m) # qs'))
      else fill_queue aon (fsub32 n m) qs)"

text \<open>Open quantities are positive \<^verbatim>\<open>float\<close>s.\<close>

definition good_qty :: "f32 \<Rightarrow> bool" where
  "good_qty n \<longleftrightarrow> 0 < n \<and> rnd32 n = n"

lemma fsub32_pos: "m < n \<Longrightarrow> good_qty (fsub32 n m)"
  by (simp add: good_qty_def fsub32_def f32.rnd_pos f32.rnd_idem)

lemma fsub32_self [simp]: "fsub32 n n = 0"
  by (simp add: fsub32_def)

lemma fill_queue_stop [simp]: "n \<le> 0 \<Longrightarrow> fill_queue aon n qs = (n, qs)"
  by (cases qs) auto

lemma fill_queue_qty:
  "good_qty n \<or> n = 0 \<Longrightarrow> good_qty (fst (fill_queue aon n qs)) \<or> fst (fill_queue aon n qs) = 0"
proof (induction aon n qs rule: fill_queue.induct)
  case (2 aon n x m qs)
  then show ?case using fsub32_pos [of m n] by (auto simp: good_qty_def split: prod.splits)
qed simp

definition good_queue :: "queue \<Rightarrow> bool" where
  "good_queue qs \<longleftrightarrow> list_all (\<lambda>x. good_qty (snd x)) qs"

lemma good_queue_simps [simp]: "good_queue []" "good_queue ((x, m) # qs) \<longleftrightarrow> good_qty m \<and> good_queue qs"
  "good_queue (ps @ qs) \<longleftrightarrow> good_queue ps \<and> good_queue qs"
  by (simp_all add: good_queue_def)

lemma fill_queue_good:
  "good_qty n \<or> n = 0 \<Longrightarrow> good_queue qs \<Longrightarrow> good_queue (snd (fill_queue aon n qs))"
proof (induction aon n qs rule: fill_queue.induct)
  case (2 aon n x m qs)
  then show ?case
    using fsub32_pos [of m n] fsub32_pos [of n m] by (auto split: prod.splits)
qed simp

section \<open>Views of the heap\<close>

definition qty_at :: "OrderBook \<Rightarrow> nat \<Rightarrow> f32" where
  "qty_at b q = current_qty (order_at b q)"

definition view :: "OrderBook \<Rightarrow> nat list \<Rightarrow> queue" where
  "view b os = map (\<lambda>x. (x, qty_at b x)) os"

lemma view_simps [simp]: "view b [] = []" "view b (x # xs) = (x, qty_at b x) # view b xs"
  "view b (xs @ ys) = view b xs @ view b ys" "map fst (view b xs) = xs"
  by (simp_all add: view_def comp_def)

lemma view_cong: "(\<And>x. x \<in> set os \<Longrightarrow> qty_at b x = qty_at b' x) \<Longrightarrow> view b os = view b' os"
  by (simp add: view_def)

lemma order_at_Some [simp]: "order_mem b q = Some ord \<Longrightarrow> order_at b q = ord"
  by (simp add: order_at_def)

lemma qty_at_Some: "order_mem b q = Some ord \<Longrightarrow> qty_at b q = current_qty ord"
  by (simp add: qty_at_def)

text \<open>The part of an order that matching never changes.\<close>

definition core :: "order \<Rightarrow> order" where
  "core ord = ord\<lparr>current_qty := 0, limit_parent := 0, prev_order := 0, next_order := 0\<rparr>"

definition same_core :: "OrderBook \<Rightarrow> OrderBook \<Rightarrow> bool" where
  "same_core b b' \<longleftrightarrow> (\<forall>q. map_option core (order_mem b' q) = map_option core (order_mem b q))"

lemma same_core_refl [simp]: "same_core b b"
  by (simp add: same_core_def)

lemma same_core_trans: "same_core b b' \<Longrightarrow> same_core b' b'' \<Longrightarrow> same_core b b''"
  by (simp add: same_core_def)

lemma core_eqD:
  assumes "core a = core b"
  shows "order_id a = order_id b" "timestamp a = timestamp b" "price a = price b"
    "stop_price a = stop_price b" "side a = side b" "cancelled a = cancelled b"
    "params a = params b" "order_type a = order_type b" "expire_time a = expire_time b"
  using assms by (cases a, cases b, simp add: core_def)+

lemma core_upd [simp]: "core (ord\<lparr>current_qty := n\<rparr>) = core ord" "core (ord\<lparr>limit_parent := p\<rparr>) = core ord"
  "core (ord\<lparr>prev_order := p\<rparr>) = core ord" "core (ord\<lparr>next_order := p\<rparr>) = core ord"
  by (simp_all add: core_def)

lemma core_linkless: "linkless a = linkless b \<Longrightarrow> core a = core b"
  by (cases a, cases b) (simp add: core_def linkless_def)

lemma same_coreD:
  assumes "same_core b b'"
  shows "core (order_at b' q) = core (order_at b q)" "order_mem b' q = None \<longleftrightarrow> order_mem b q = None"
proof -
  have "map_option core (order_mem b' q) = map_option core (order_mem b q)"
    using assms by (simp add: same_core_def)
  then show "core (order_at b' q) = core (order_at b q)" "order_mem b' q = None \<longleftrightarrow> order_mem b q = None"
    by (cases "order_mem b q"; cases "order_mem b' q"; simp add: order_at_def)+
qed

lemma same_core_linkless:
  assumes "\<And>q. map_option linkless (order_mem b' q) = map_option linkless (order_mem b q)"
  shows "same_core b b'" "qty_at b' q = qty_at b q"
proof -
  have *: "map_option core (order_mem b' r) = map_option core (order_mem b r) \<and> qty_at b' r = qty_at b r" for r
    using assms [of r] by (cases "order_mem b r"; cases "order_mem b' r")
      (auto simp: qty_at_def order_at_def dest: core_linkless linkless_eqD)
  then show "same_core b b'" "qty_at b' q = qty_at b q" by (simp_all add: same_core_def)
qed

lemma seg_qty:
  assumes "\<And>q. map_option (\<lambda>ord. ord\<lparr>current_qty := 0\<rparr>) (mem' q) = map_option (\<lambda>ord. ord\<lparr>current_qty := 0\<rparr>) (mem q)"
  shows "seg mem' p pv qs nx = seg mem p pv qs nx"
proof (induction qs arbitrary: pv)
  case (Cons q qs)
  let ?t = "\<lambda>ord. (limit_parent ord, prev_order ord, next_order ord)"
  have "map_option ?t (m q) = map_option ?t (map_option (\<lambda>ord. ord\<lparr>current_qty := 0\<rparr>) (m q))"
    for m :: "nat \<rightharpoonup> order" by (simp add: option.map_comp comp_def)
  then have "map_option ?t (mem' q) = map_option ?t (mem q)" using assms [of q] by simp
  then show ?case using Cons by (cases "mem q"; cases "mem' q") auto
qed simp

text \<open>The entries of the id map that go when the orders \<open>X\<close> leave the book.\<close>

definition erases :: "nat set \<Rightarrow> OrderBook \<Rightarrow> OrderBook \<Rightarrow> bool" where
  "erases X b b' \<longleftrightarrow>
     (\<forall>i. map_of (orders b') i = (if \<exists>x \<in> X. order_id (order_at b x) = i then None else map_of (orders b) i))"

lemma erases_refl [simp]: "orders b' = orders b \<Longrightarrow> erases {} b b'"
  by (simp add: erases_def)

lemma erases_trans:
  assumes "erases X b b'" "erases Y b' b''" "same_core b b'"
  shows "erases (X \<union> Y) b b''"
proof -
  have "order_id (order_at b' x) = order_id (order_at b x)" for x
    using same_coreD(1) [OF assms(3), of x] by (rule core_eqD)
  with assms(1,2) show ?thesis by (auto simp: erases_def)
qed

section \<open>One limit\<close>

definition volume_at :: "OrderBook \<Rightarrow> nat \<Rightarrow> f64" where
  "volume_at b p = active_volume (limit_at b p)"

definition good_volume :: "f64 \<Rightarrow> bool" where
  "good_volume v \<longleftrightarrow> 0 \<le> v \<and> rnd64 v = v"

lemma good_volume_sub_0: "good_volume v \<Longrightarrow> max 0 (fsub64 v 0) = v"
  by (simp add: good_volume_def fsub64_def)

text \<open>Only the open quantity of an order changes.\<close>

definition same_but_qty :: "nat \<Rightarrow> OrderBook \<Rightarrow> OrderBook \<Rightarrow> bool" where
  "same_but_qty q b b' \<longleftrightarrow>
     map_option (\<lambda>ord. ord\<lparr>current_qty := 0\<rparr>) (order_mem b' q) =
     map_option (\<lambda>ord. ord\<lparr>current_qty := 0\<rparr>) (order_mem b q)"

definition level_pre :: "nat \<Rightarrow> nat \<Rightarrow> bool \<Rightarrow> nat list \<Rightarrow> OrderBook \<Rightarrow> bool" where
  "level_pre p q aon os b \<longleftrightarrow>
     links b p os \<and> q \<notin> set os \<and> (\<exists>qo. order_mem b q = Some qo \<and> has_param qo AON = aon) \<and>
     (good_qty (qty_at b q) \<or> qty_at b q = 0) \<and> good_queue (view b os) \<and> good_volume (volume_at b p)"

definition kept :: "nat \<Rightarrow> nat \<Rightarrow> nat set \<Rightarrow> OrderBook \<Rightarrow> OrderBook \<Rightarrow> bool" where
  "kept p q X b b' \<longleftrightarrow>
     book_frame {p} (insert q X) b b' \<and> same_core b b' \<and> market_price b' = market_price b \<and>
     volume_at b' p = volume_at b p \<and> same_but_qty q b b'"

definition level_step ::
    "nat \<Rightarrow> nat \<Rightarrow> bool \<Rightarrow> nat list \<Rightarrow> nat list \<Rightarrow> OrderBook \<Rightarrow> nat list \<Rightarrow> OrderBook \<Rightarrow> bool" where
  "level_step p q aon ds os b os' b' \<longleftrightarrow>
     links b' p (ds @ os') \<and> set os' \<subseteq> set os \<and>
     (qty_at b' q, view b' os') = fill_queue aon (qty_at b q) (view b os) \<and>
     (\<forall>x \<in> set ds. qty_at b' x = qty_at b x) \<and>
     kept p q (set (ds @ os)) b b' \<and> erases (set os - set os') b b'"

lemma kept_refl [simp]: "kept p q X b b"
  by (simp add: kept_def same_but_qty_def)

lemma kept_trans:
  assumes "kept p q X b b'" "kept p q Y b' b''" "X \<subseteq> Z" "Y \<subseteq> Z"
  shows "kept p q Z b b''"
proof -
  have "book_frame {p} (insert q Z) b b'" "book_frame {p} (insert q Z) b' b''"
    using assms by (auto simp: kept_def elim!: book_frame_mono)
  from book_frame_trans [OF this] assms(1,2) show ?thesis
    using same_core_trans [of b b' b''] by (simp add: kept_def same_but_qty_def)
qed

lemma kept_has_param:
  assumes "kept p q X b b'" "order_mem b q = Some qo"
  obtains qo' where "order_mem b' q = Some qo'" "has_param qo' f = has_param qo f"
proof -
  have "same_core b b'" using assms by (simp add: kept_def)
  then obtain qo' where "order_mem b' q = Some qo'" "core qo' = core qo"
    using assms(2) same_coreD [of b b' q] by (cases "order_mem b' q") auto
  with that show ?thesis by (auto simp: has_param_def dest: core_eqD)
qed

text \<open>Setting two quantities leaves the links alone.\<close>

definition set_qtys :: "nat \<Rightarrow> f32 \<Rightarrow> nat \<Rightarrow> f32 \<Rightarrow> OrderBook \<Rightarrow> OrderBook" where
  "set_qtys x m q n b = b\<lparr>order_mem := (order_mem b)
     (x := map_option (\<lambda>ord. ord\<lparr>current_qty := m\<rparr>) (order_mem b x),
      q := map_option (\<lambda>ord. ord\<lparr>current_qty := n\<rparr>) (order_mem b q))\<rparr>"

lemma set_qtys_links: "links (set_qtys x m q n b) p os = links b p os"
proof -
  have "map_option (\<lambda>ord. ord\<lparr>current_qty := 0\<rparr>) (order_mem (set_qtys x m q n b) r) =
      map_option (\<lambda>ord. ord\<lparr>current_qty := 0\<rparr>) (order_mem b r)" for r
    by (simp add: set_qtys_def option.map_comp comp_def)
  from seg_qty [OF this] show ?thesis by (simp add: links_def) (simp add: set_qtys_def)
qed

lemma set_qtys_kept:
  "x \<noteq> q \<Longrightarrow> kept p q {x} b (set_qtys x m q n b)"
  by (simp add: kept_def book_frame_def same_core_def volume_at_def limit_at_def same_but_qty_def
      set_qtys_def option.map_comp comp_def)

lemma set_qtys_qty:
  assumes "x \<noteq> q" "order_mem b x \<noteq> None" "order_mem b q \<noteq> None"
  shows "qty_at (set_qtys x m q n b) r = (if r = q then n else if r = x then m else qty_at b r)"
  using assms by (auto simp: set_qtys_def qty_at_def order_at_def)

lemma set_qtys_erases: "erases {} b (set_qtys x m q n b)"
  by (simp add: set_qtys_def)

text \<open>The three outcomes of one resting order against the incoming one; none of them throws.\<close>

lemma resolve_fills_order:
  assumes x: "order_mem b x = Some xo" and q: "order_mem b q = Some qo" and neq: "x \<noteq> q"
    and le: "current_qty qo \<le> current_qty xo"
  shows "resolve_orders x q cp ch b =
    Some (Inr (set_qtys x (fsub32 (current_qty xo) (current_qty qo)) q 0 b, ch))"
  using assms by (simp add: resolve_orders_def decrease_qty_at_def decrease_qty_def get_qty_def
      mod_order_def fill_def Let_def set_qtys_def)

lemma resolve_fills_resting:
  assumes x: "order_mem b x = Some xo" and q: "order_mem b q = Some qo" and neq: "x \<noteq> q"
    and gt: "current_qty xo < current_qty qo" and aon: "\<not> has_param qo AON"
  shows "resolve_orders x q cp ch b =
    Some (Inr (set_qtys x 0 q (fsub32 (current_qty qo) (current_qty xo)) b, ch))"
  using assms by (simp add: resolve_orders_def decrease_qty_at_def decrease_qty_def get_qty_def
      mod_order_def fill_def Let_def set_qtys_def fun_upd_twist [of x q])

lemma resolve_skips:
  assumes x: "order_mem b x = Some xo" and q: "order_mem b q = Some qo"
    and gt: "current_qty xo < current_qty qo" and aon: "has_param qo AON"
  shows "resolve_orders x q cp ch b = Some (Inr (b, ch))"
  using assms by (simp add: resolve_orders_def get_qty_def Let_def)

text \<open>A resting order that has been filled leaves the list.\<close>

lemma filled_leaves:
  assumes pre: "level_pre p q aon (ds @ x # xs) b"
  shows "\<exists>b'. remove_limit_order x (set_qtys x 0 q n b) = Some b' \<and> links b' p (ds @ xs) \<and>
    kept p q (set (ds @ x # xs)) b b' \<and> erases {x} b b' \<and> qty_at b' q = n \<and>
    (\<forall>y. y \<noteq> q \<longrightarrow> y \<noteq> x \<longrightarrow> qty_at b' y = qty_at b y) \<and>
    (\<exists>xo. order_mem b' x = Some xo \<and> next_order xo = first_or xs 0)"
proof -
  let ?b = "set_qtys x 0 q n b"
  have L: "links b p (ds @ x # xs)" and neq: "x \<noteq> q" and V: "good_volume (volume_at b p)"
    using pre by (auto simp: level_pre_def)
  obtain l where l: "limit_mem b p = Some l" using L by (auto simp: links_def)
  obtain xo where xo: "order_mem b x = Some xo" "next_order xo = first_or xs 0"
    using L seg_focus [of "order_mem b" p ds x xs] by (auto simp: links_def)
  obtain qo where qo: "order_mem b q = Some qo" using pre by (auto simp: level_pre_def)
  have L': "links ?b p (ds @ x # xs)" using L by (simp add: set_qtys_links)
  have l': "limit_mem ?b p = Some l" and x': "order_mem ?b x = Some (xo\<lparr>current_qty := 0\<rparr>)"
    using l xo neq by (simp_all add: set_qtys_def)
  from remove_limit_order_links [OF L' l' x'] obtain b' l2 where
    b': "remove_limit_order x ?b = Some b'" "links b' p (ds @ xs)"
      "book_frame {p} (set ds \<union> set xs) ?b b'" "market_price b' = market_price ?b"
      "\<And>r. map_option linkless (order_mem b' r) = map_option linkless (order_mem ?b r)"
      "order_mem b' x = Some (xo\<lparr>current_qty := 0\<rparr>)" "limit_mem b' p = Some l2"
      "active_volume l2 = max 0 (fsub64 (active_volume l) 0)"
      "orders b' = AList.delete (order_id xo) (orders ?b)"
    by auto
  note same = same_core_linkless [OF b'(5)]
  have vol: "volume_at b' p = volume_at ?b p"
    using b'(7,8) V l l' good_volume_sub_0 by (simp add: volume_at_def limit_at_def)
  have "q \<notin> set ds \<union> set xs" using pre by (simp add: level_pre_def)
  then have "order_mem b' q = order_mem ?b q" using b'(3) unfolding book_frame_def by blast
  then have "kept p q (set (ds @ x # xs)) ?b b'"
    using b'(3,4) same(1) vol by (auto simp: kept_def same_but_qty_def intro: book_frame_mono)
  with set_qtys_kept [OF neq] have "kept p q (set (ds @ x # xs)) b b'" by (rule kept_trans) auto
  moreover have "erases {x} b b'"
    using b'(9) xo by (auto simp: erases_def set_qtys_def AList.delete_conv)
  ultimately show ?thesis
    using b' same(2) set_qtys_qty [of x q b 0 n] neq xo qo by auto
qed

lemma level_pre_next:
  assumes pre: "level_pre p q aon (ds @ x # xs) b" and k: "kept p q (set (ds @ x # xs)) b b'"
    and L: "links b' p (ds @ xs)" and n: "good_qty (qty_at b' q) \<or> qty_at b' q = 0"
    and same: "\<forall>y. y \<noteq> q \<longrightarrow> y \<noteq> x \<longrightarrow> qty_at b' y = qty_at b y"
  shows "level_pre p q aon (ds @ xs) b'"
proof -
  obtain qo where qo: "order_mem b q = Some qo" "has_param qo AON = aon"
    using pre by (auto simp: level_pre_def)
  have "x \<notin> set (ds @ xs)" "q \<notin> set (ds @ xs)" using pre by (auto simp: level_pre_def links_def)
  with same have "view b' (ds @ xs) = view b (ds @ xs)" by (intro view_cong) auto
  then have "good_queue (view b' (ds @ xs))" using pre by (simp add: level_pre_def)
  moreover obtain qo' where "order_mem b' q = Some qo'" "has_param qo' AON = aon"
    using kept_has_param [OF k qo(1), of AON] qo(2) by auto
  ultimately show ?thesis using pre k L n by (simp add: level_pre_def kept_def)
qed

lemma process_loop_stop:
  assumes "order_mem b q = Some qo" "current_qty qo = 0 \<or> c = 0"
  shows "process_limit_loop c q cp ch b = Some (Inr (b, ch))"
  using assms by (subst process_limit_loop.simps) (auto simp: get_qty_def)

lemma level_pre_focus:
  assumes "level_pre p q aon (ds @ x # xs) b"
  obtains qo xo where "order_mem b q = Some qo" "has_param qo AON = aon" "current_qty qo = qty_at b q"
    "order_mem b x = Some xo" "next_order xo = first_or xs 0" "current_qty xo = qty_at b x"
    "x \<noteq> q" "x \<noteq> 0" "x \<notin> set ds" "x \<notin> set xs" "q \<notin> set ds" "q \<notin> set xs"
    "good_qty (qty_at b x)" "good_qty (qty_at b q) \<or> qty_at b q = 0" "links b p (ds @ x # xs)"
proof -
  obtain qo where qo: "order_mem b q = Some qo" "has_param qo AON = aon"
    using assms by (auto simp: level_pre_def)
  have L: "links b p (ds @ x # xs)" using assms by (simp add: level_pre_def)
  then obtain xo where "order_mem b x = Some xo" "next_order xo = first_or xs 0" "x \<noteq> 0"
    using seg_focus [of "order_mem b" p ds x xs] by (auto simp: links_def)
  then show ?thesis
    using that [of qo xo] assms qo L by (auto simp: level_pre_def links_def qty_at_def)
qed

lemma serve_partial:
  assumes pre: "level_pre p q aon (ds @ x # xs) b" and lt: "0 < qty_at b q" "qty_at b q < qty_at b x"
  shows "\<exists>b'. process_limit_loop x q cp ch b = Some (Inr (b', ch)) \<and>
    level_step p q aon ds (x # xs) b (x # xs) b'"
proof -
  from pre obtain qo xo where qo: "order_mem b q = Some qo" "current_qty qo = qty_at b q"
    and xo: "order_mem b x = Some xo" "current_qty xo = qty_at b x" "next_order xo = first_or xs 0"
    and D: "x \<noteq> q" "x \<noteq> 0" "x \<notin> set ds" "x \<notin> set xs" "q \<notin> set ds" "q \<notin> set xs"
    and L: "links b p (ds @ x # xs)" by (rule level_pre_focus)
  let ?m = "fsub32 (qty_at b x) (qty_at b q)" let ?b = "set_qtys x ?m q 0 b"
  have neq0: "?m \<noteq> 0" using fsub32_pos [OF lt(2)] by (simp add: good_qty_def)
  have x': "order_mem ?b x = Some (xo\<lparr>current_qty := ?m\<rparr>)"
    and q': "order_mem ?b q = Some (qo\<lparr>current_qty := 0\<rparr>)"
    using xo qo D by (simp_all add: set_qtys_def)
  have "process_limit_loop x q cp ch b = process_limit_loop (first_or xs 0) q cp ch ?b"
    using resolve_fills_order [OF xo(1) qo(1) D(1)] lt qo xo D x' neq0
    by (subst process_limit_loop.simps) (simp add: get_qty_def is_fullfilled_def)
  also have "\<dots> = Some (Inr (?b, ch))" using process_loop_stop [OF q'] by simp
  finally have run: "process_limit_loop x q cp ch b = Some (Inr (?b, ch))" .
  note set = set_qtys_qty [of x q b ?m 0]
  have "view ?b xs = view b xs" using set xo qo D by (intro view_cong) auto
  moreover have "kept p q (set (ds @ x # xs)) b ?b"
    using set_qtys_kept [OF D(1)] kept_refl by (rule kept_trans) auto
  ultimately have "level_step p q aon ds (x # xs) b (x # xs) ?b"
    using lt L set xo qo D by (auto simp: level_step_def set_qtys_links set_qtys_erases)
  with run show ?thesis by blast
qed

lemma serve_exact:
  assumes pre: "level_pre p q aon (ds @ x # xs) b" and eq: "0 < qty_at b q" "qty_at b q = qty_at b x"
  shows "\<exists>b'. process_limit_loop x q cp ch b = Some (Inr (b', ch)) \<and>
    level_step p q aon ds (x # xs) b xs b'"
proof -
  from pre obtain qo xo where qo: "order_mem b q = Some qo" "current_qty qo = qty_at b q"
    and xo: "order_mem b x = Some xo" "current_qty xo = qty_at b x"
    and D: "x \<noteq> q" "x \<noteq> 0" "x \<notin> set ds" "x \<notin> set xs" "q \<notin> set ds" "q \<notin> set xs" by (rule level_pre_focus)
  obtain b' xo' where b': "remove_limit_order x (set_qtys x 0 q 0 b) = Some b'" "links b' p (ds @ xs)"
      "kept p q (set (ds @ x # xs)) b b'" "erases {x} b b'" "qty_at b' q = 0"
      "\<forall>y. y \<noteq> q \<longrightarrow> y \<noteq> x \<longrightarrow> qty_at b' y = qty_at b y"
      "order_mem b' x = Some xo'" "next_order xo' = first_or xs 0"
    using filled_leaves [OF pre, of 0] by blast
  obtain qo' where qo': "order_mem b' q = Some qo'" using kept_has_param [OF b'(3) qo(1)] by blast
  have "order_mem (set_qtys x 0 q 0 b) x = Some (xo\<lparr>current_qty := 0\<rparr>)"
    using xo D by (simp add: set_qtys_def)
  then have "process_limit_loop x q cp ch b = process_limit_loop (first_or xs 0) q cp ch b'"
    using resolve_fills_order [OF xo(1) qo(1) D(1)] eq qo xo D b'
    by (subst process_limit_loop.simps) (simp add: get_qty_def is_fullfilled_def)
  also have "\<dots> = Some (Inr (b', ch))"
    using process_loop_stop [OF qo'] b'(5) qo' by (simp add: qty_at_def)
  finally have run: "process_limit_loop x q cp ch b = Some (Inr (b', ch))" .
  have "view b' xs = view b xs" using b'(6) D by (intro view_cong) auto
  then have "level_step p q aon ds (x # xs) b xs b'"
    using eq b' D by (auto simp: level_step_def insert_Diff_if)
  with run show ?thesis by blast
qed

lemma serve_through:
  assumes pre: "level_pre p q aon (ds @ x # xs) b" and gt: "qty_at b x < qty_at b q" and aon: "\<not> aon"
  shows "\<exists>b1. process_limit_loop x q cp ch b = process_limit_loop (first_or xs 0) q cp ch b1 \<and>
    level_pre p q aon (ds @ xs) b1 \<and>
    (\<forall>os' b'. level_step p q aon ds xs b1 os' b' \<longrightarrow> level_step p q aon ds (x # xs) b os' b')"
proof -
  from pre obtain qo xo where qo: "order_mem b q = Some qo" "has_param qo AON = aon" "current_qty qo = qty_at b q"
    and xo: "order_mem b x = Some xo" "current_qty xo = qty_at b x" and good: "good_qty (qty_at b x)"
    and D: "x \<noteq> q" "x \<noteq> 0" "x \<notin> set ds" "x \<notin> set xs" "q \<notin> set ds" "q \<notin> set xs" by (rule level_pre_focus)
  let ?n = "fsub32 (qty_at b q) (qty_at b x)"
  obtain b1 xo' where b1: "remove_limit_order x (set_qtys x 0 q ?n b) = Some b1" "links b1 p (ds @ xs)"
      "kept p q (set (ds @ x # xs)) b b1" "erases {x} b b1" "qty_at b1 q = ?n"
      "\<forall>y. y \<noteq> q \<longrightarrow> y \<noteq> x \<longrightarrow> qty_at b1 y = qty_at b y"
      "order_mem b1 x = Some xo'" "next_order xo' = first_or xs 0"
    using filled_leaves [OF pre, of ?n] by blast
  have next_pre: "level_pre p q aon (ds @ xs) b1"
    using level_pre_next [OF pre b1(3,2)] b1(5,6) fsub32_pos [OF gt] by simp
  have "order_mem (set_qtys x 0 q ?n b) x = Some (xo\<lparr>current_qty := 0\<rparr>)"
    using xo D by (simp add: set_qtys_def)
  then have run: "process_limit_loop x q cp ch b = process_limit_loop (first_or xs 0) q cp ch b1"
    using resolve_fills_resting [OF xo(1) qo(1) D(1)] gt aon good qo xo D b1
    by (subst process_limit_loop.simps) (simp add: get_qty_def is_fullfilled_def good_qty_def)
  have "level_step p q aon ds (x # xs) b os' b'" if st: "level_step p q aon ds xs b1 os' b'" for os' b'
  proof -
    have "view b1 xs = view b xs" using b1(6) D by (intro view_cong) auto
    moreover have "kept p q (set (ds @ x # xs)) b b'"
      using b1(3) st by (auto simp: level_step_def elim: kept_trans)
    moreover have "erases (insert x (set xs - set os')) b b'"
      using erases_trans [OF b1(4), of "set xs - set os'" b'] st b1(3) by (simp add: level_step_def kept_def)
    moreover have "set (x # xs) - set os' = insert x (set xs - set os')"
      using st D by (auto simp: level_step_def)
    ultimately show ?thesis using gt aon st b1(5,6) good D by (auto simp: level_step_def good_qty_def)
  qed
  with run next_pre show ?thesis by blast
qed

lemma serve_skip:
  assumes pre: "level_pre p q aon (ds @ x # xs) b" and gt: "qty_at b x < qty_at b q" and aon: "aon"
  shows "process_limit_loop x q cp ch b = process_limit_loop (first_or xs 0) q cp ch b"
    and "level_step p q aon (ds @ [x]) xs b os' b' \<Longrightarrow> level_step p q aon ds (x # xs) b (x # os') b'"
proof -
  from pre obtain qo xo where qo: "order_mem b q = Some qo" "has_param qo AON = aon" "current_qty qo = qty_at b q"
    and xo: "order_mem b x = Some xo" "current_qty xo = qty_at b x" "next_order xo = first_or xs 0"
    and good: "good_qty (qty_at b x)" and D: "x \<noteq> 0" "x \<notin> set xs" by (rule level_pre_focus)
  show "process_limit_loop x q cp ch b = process_limit_loop (first_or xs 0) q cp ch b"
    using resolve_skips [OF xo(1) qo(1)] gt aon good qo xo D
    by (subst process_limit_loop.simps) (simp add: get_qty_def is_fullfilled_def good_qty_def)
  show "level_step p q aon ds (x # xs) b (x # os') b'" if "level_step p q aon (ds @ [x]) xs b os' b'"
    using that gt aon good D
    by (auto simp: level_step_def good_qty_def insert_Diff_if split: prod.splits)
qed

lemma process_limit_loop_step:
  assumes "level_pre p q aon (ds @ os) b"
  shows "\<exists>os' b'. process_limit_loop (first_or os 0) q cp ch b = Some (Inr (b', ch)) \<and>
    level_step p q aon ds os b os' b'"
  using assms
proof (induction os arbitrary: ds b)
  case Nil
  then obtain qo where "order_mem b q = Some qo" by (auto simp: level_pre_def)
  with Nil process_loop_stop [of b q qo 0] show ?case
    by (intro exI [of _ "[]"] exI [of _ b]) (auto simp: level_step_def level_pre_def)
next
  case (Cons x xs)
  note pre = Cons.prems
  from pre obtain qo where qo: "order_mem b q = Some qo" "current_qty qo = qty_at b q"
    and L: "links b p (ds @ x # xs)" and good: "good_qty (qty_at b x)" "good_qty (qty_at b q) \<or> qty_at b q = 0"
    by (rule level_pre_focus)
  consider "qty_at b q = 0" | "0 < qty_at b q" "qty_at b q < qty_at b x"
    | "0 < qty_at b q" "qty_at b q = qty_at b x" | "qty_at b x < qty_at b q" "\<not> aon"
    | "qty_at b x < qty_at b q" "aon"
    using good linorder_less_linear [of "qty_at b q" "qty_at b x"] by (auto simp: good_qty_def)
  then show ?case
  proof cases
    case 1
    with process_loop_stop [of b q qo x cp ch] qo L show ?thesis
      by (intro exI [of _ "x # xs"] exI [of _ b]) (simp add: level_step_def)
  next
    case 2
    from serve_partial [OF pre 2, of cp ch] show ?thesis by auto
  next
    case 3
    from serve_exact [OF pre 3, of cp ch] show ?thesis by auto
  next
    case 4
    from serve_through [OF pre 4] Cons.IH [of ds] show ?thesis by (metis first_or_simps(2))
  next
    case 5
    from Cons.IH [of "ds @ [x]" b] serve_skip [OF pre 5] pre show ?thesis
      by (metis append.assoc append_Cons append_Nil first_or_simps(2))
  qed
qed

section \<open>Specification of a side\<close>

record level =
  lv_limit :: nat
  lv_price :: f32
  lv_volume :: f64
  lv_queue :: queue

text \<open>The price at which an incoming order trades with a limit at price \<open>lp\<close>, if it does.\<close>

definition cross_at :: "f32 \<Rightarrow> OrderType \<Rightarrow> bool \<Rightarrow> f32 \<Rightarrow> f32 option" where
  "cross_at pr ty buy lp =
     (if (if buy then pr < lp else lp < pr) then None
      else Some (if ty = LIMIT \<and> buy then pr else lp))"

fun match_levels ::
    "bool \<Rightarrow> (f32 \<Rightarrow> f32 option) \<Rightarrow> f32 \<Rightarrow> level list \<Rightarrow> f32 \<Rightarrow> bool \<times> f32 \<times> level list \<times> f32" where
  "match_levels aon cross n [] mp = (False, n, [], mp)"
| "match_levels aon cross n (v # vs) mp =
     (if aon \<and> to_f32 (lv_volume v) < n then
        (case match_levels aon cross n vs mp of (r, n', vs', mp') \<Rightarrow> (r, n', v # vs', mp'))
      else case cross (lv_price v) of
        None \<Rightarrow> (False, n, v # vs, mp)
      | Some cp \<Rightarrow>
          (case fill_queue aon n (lv_queue v) of (n', qs) \<Rightarrow>
             if n' = 0 then (True, n', v\<lparr>lv_queue := qs\<rparr> # vs, cp)
             else (case match_levels aon cross n' vs cp of
                     (r, n'', vs', mp') \<Rightarrow> (r, n'', v\<lparr>lv_queue := qs\<rparr> # vs', mp'))))"

lemma cross_price_eq: "calculate_cross_price ord l ty buy = cross_at (price ord) ty buy (limit_price l)"
  by (cases ty) (auto simp: calculate_cross_price_def cross_at_def)

section \<open>The limits of a side on the heap\<close>

text \<open>A side is the list of its limits, each with the addresses of its orders.\<close>

type_synonym side_shape = "(nat \<times> nat list) list"

definition resting :: "side_shape \<Rightarrow> nat set" where
  "resting ls = set (concat (map snd ls))"

lemma resting_simps [simp]: "resting [] = {}" "resting ((p, os) # ls) = set os \<union> resting ls"
  "resting (ks @ ls) = resting ks \<union> resting ls"
  by (auto simp: resting_def)

definition level_of :: "OrderBook \<Rightarrow> nat \<times> nat list \<Rightarrow> level" where
  "level_of b = (\<lambda>(p, os). \<lparr>lv_limit = p, lv_price = limit_price (limit_at b p),
     lv_volume = volume_at b p, lv_queue = view b os\<rparr>)"

lemma level_of_sel [simp]:
  "lv_limit (level_of b (p, os)) = p" "lv_price (level_of b (p, os)) = limit_price (limit_at b p)"
  "lv_volume (level_of b (p, os)) = volume_at b p" "lv_queue (level_of b (p, os)) = view b os"
  by (simp_all add: level_of_def)

fun levels_ok :: "OrderBook \<Rightarrow> side_shape \<Rightarrow> bool" where
  "levels_ok b [] \<longleftrightarrow> True"
| "levels_ok b ((p, os) # ls) \<longleftrightarrow>
     links b p os \<and> good_queue (view b os) \<and> good_volume (volume_at b p) \<and>
     p \<notin> fst ` set ls \<and> set os \<inter> resting ls = {} \<and> levels_ok b ls"

text \<open>Objects outside the changed addresses look the same.\<close>

lemma frame_order: "book_frame P Q b b' \<Longrightarrow> q \<notin> Q \<Longrightarrow> order_mem b' q = order_mem b q"
  by (simp add: book_frame_def)

lemma frame_limit: "book_frame P Q b b' \<Longrightarrow> p \<notin> P \<Longrightarrow> limit_mem b' p = limit_mem b p"
  by (simp add: book_frame_def)

lemma frame_price: "book_frame P Q b b' \<Longrightarrow> limit_price (limit_at b' p) = limit_price (limit_at b p)"
proof -
  assume "book_frame P Q b b'"
  then have "map_option limit_price (limit_mem b' p) = map_option limit_price (limit_mem b p)"
    by (simp add: book_frame_def)
  then show ?thesis by (cases "limit_mem b p"; cases "limit_mem b' p") (simp_all add: limit_at_def)
qed

lemma frame_links:
  assumes F: "book_frame P Q b b'" and p: "p \<notin> P" and os: "set os \<inter> Q = {}"
  shows "links b' p os = links b p os" "view b' os = view b os" "volume_at b' p = volume_at b p"
proof -
  have same: "order_mem b' x = order_mem b x" if "x \<in> set os" for x
    using that os frame_order [OF F] by blast
  then have "seg (order_mem b') p 0 os 0 = seg (order_mem b) p 0 os 0" by (intro seg_cong) simp
  then show "links b' p os = links b p os" by (simp add: links_def frame_limit [OF F p])
  show "view b' os = view b os" using same by (intro view_cong) (simp add: qty_at_def order_at_def)
  show "volume_at b' p = volume_at b p" by (simp add: volume_at_def limit_at_def frame_limit [OF F p])
qed

lemma frame_levels:
  assumes F: "book_frame P Q b b'" and "fst ` set ls \<inter> P = {}" "resting ls \<inter> Q = {}"
  shows "levels_ok b' ls = levels_ok b ls \<and> map (level_of b') ls = map (level_of b) ls"
  using assms(2,3)
proof (induction ls)
  case (Cons v ls)
  obtain p os where v: "v = (p, os)" by (cases v)
  have 1: "p \<notin> P" "set os \<inter> Q = {}" using Cons.prems v by auto
  have 2: "fst ` set ls \<inter> P = {}" "resting ls \<inter> Q = {}" using Cons.prems v by auto
  show ?case
    using Cons.IH [OF 2] frame_links [OF F 1] frame_price [OF F] by (simp add: v level_of_def)
qed simp

section \<open>The walk over the limits\<close>

text \<open>The limits stay, each with some of its orders.\<close>

definition shrinks :: "side_shape \<Rightarrow> side_shape \<Rightarrow> bool" where
  "shrinks ls ls' \<longleftrightarrow> list_all2 (\<lambda>x y. fst y = fst x \<and> set (snd y) \<subseteq> set (snd x)) ls ls'"

lemma shrinks_refl [simp]: "shrinks ls ls"
  by (simp add: shrinks_def list_all2_refl)

lemma shrinks_Cons [simp]:
  "shrinks ((p, os) # ls) ((p', os') # ls') \<longleftrightarrow> p' = p \<and> set os' \<subseteq> set os \<and> shrinks ls ls'"
  by (simp add: shrinks_def)

lemma shrinks_trans: "shrinks ls ls' \<Longrightarrow> shrinks ls' ls'' \<Longrightarrow> shrinks ls ls''"
  unfolding shrinks_def by (rule list_all2_trans) auto

lemma shrinksD:
  assumes "shrinks ls ls'"
  shows "map fst ls' = map fst ls" "resting ls' \<subseteq> resting ls"
proof -
  have "map fst ls' = map fst ls \<and> resting ls' \<subseteq> resting ls"
    using assms unfolding shrinks_def
  proof (induction rule: list_all2_induct)
    case (Cons x xs y ys)
    then show ?case by (cases x, cases y) (simp, blast)
  qed simp
  then show "map fst ls' = map fst ls" "resting ls' \<subseteq> resting ls" by auto
qed

lemma shrinks_names: "shrinks ls ls' \<Longrightarrow> fst ` set ls' = fst ` set ls"
  using shrinksD(1) by (metis list.set_map)

definition match_post ::
    "nat \<Rightarrow> side_shape \<Rightarrow> OrderBook \<Rightarrow> side_shape \<Rightarrow> OrderBook \<Rightarrow> bool" where
  "match_post q ls b ls' b' \<longleftrightarrow>
     shrinks ls ls' \<and> levels_ok b' ls' \<and>
     book_frame (fst ` set ls) (insert q (resting ls)) b b' \<and> same_core b b' \<and>
     same_but_qty q b b' \<and> erases (resting ls - resting ls') b b'"

lemma match_post_refl: "levels_ok b ls \<Longrightarrow> match_post q ls b ls b"
  by (simp add: match_post_def same_but_qty_def)

lemma match_post_skip:
  assumes "match_post q ls b ls' b'" "levels_ok b ((p, os) # ls)" "q \<notin> set os"
  shows "match_post q ((p, os) # ls) b ((p, os) # ls') b'"
proof -
  have F: "book_frame (fst ` set ls) (insert q (resting ls)) b b'" using assms by (simp add: match_post_def)
  have "p \<notin> fst ` set ls" "set os \<inter> insert q (resting ls) = {}" using assms by auto
  note same = frame_links [OF F this]
  have S: "shrinks ls ls'" using assms(1) by (simp add: match_post_def)
  note names = shrinks_names [OF S] and sub = shrinksD(2) [OF S]
  have "set os \<union> resting ls - (set os \<union> resting ls') = resting ls - resting ls'"
    using assms by auto
  moreover have "book_frame (fst ` set ((p, os) # ls)) (insert q (resting ((p, os) # ls))) b b'"
    using F by (rule book_frame_mono) auto
  ultimately show ?thesis using assms same names sub by (auto simp: match_post_def)
qed

lemma level_step_levels:
  assumes ok: "levels_ok b ((p, os) # ls)" and q: "q \<notin> resting ((p, os) # ls)"
    and st: "level_step p q aon [] os b os' b1" and n: "good_qty (qty_at b q) \<or> qty_at b q = 0"
  shows "match_post q ((p, os) # ls) b ((p, os') # ls) b1" "levels_ok b1 ls"
    "map (level_of b1) ls = map (level_of b) ls"
    "level_of b1 (p, os') = (level_of b (p, os))\<lparr>lv_queue := snd (fill_queue aon (qty_at b q) (view b os))\<rparr>"
    "qty_at b1 q = fst (fill_queue aon (qty_at b q) (view b os))"
    "market_price b1 = market_price b"
proof -
  have K: "kept p q (set os) b b1" and F: "book_frame {p} (insert q (set os)) b b1"
    using st by (simp_all add: level_step_def kept_def)
  have out: "fst ` set ls \<inter> {p} = {}" "resting ls \<inter> insert q (set os) = {}" using ok q by auto
  show L: "levels_ok b1 ls" "map (level_of b1) ls = map (level_of b) ls"
    using frame_levels [OF F out] ok by auto
  have fq: "fill_queue aon (qty_at b q) (view b os) = (qty_at b1 q, view b1 os')"
    using st by (simp add: level_step_def)
  then show "qty_at b1 q = fst (fill_queue aon (qty_at b q) (view b os))" by simp
  show "market_price b1 = market_price b" using K by (simp add: kept_def)
  show "level_of b1 (p, os') = (level_of b (p, os))\<lparr>lv_queue := snd (fill_queue aon (qty_at b q) (view b os))\<rparr>"
    using fq K frame_price [OF F] by (simp add: level_of_def kept_def)
  have "good_queue (view b1 os')" using fill_queue_good [OF n, of "view b os" aon] ok fq by simp
  moreover have os': "links b1 p os'" "set os' \<subseteq> set os" "erases (set os - set os') b b1"
    using st by (simp_all add: level_step_def)
  moreover have "set os' \<inter> resting ls = {}" "good_volume (volume_at b1 p)" "p \<notin> fst ` set ls"
    using os' ok K by (auto simp: kept_def)
  ultimately have ok': "levels_ok b1 ((p, os') # ls)" using L(1) by simp
  have "set os \<inter> resting ls = {}" using ok by simp
  then have "set os \<union> resting ls - (set os' \<union> resting ls) = set os - set os'" by blast
  then have "erases (resting ((p, os) # ls) - resting ((p, os') # ls)) b b1" using os' by simp
  moreover have "book_frame (fst ` set ((p, os) # ls)) (insert q (resting ((p, os) # ls))) b b1"
    using F by (rule book_frame_mono) auto
  ultimately show "match_post q ((p, os) # ls) b ((p, os') # ls) b1"
    using ok' os'(2) K unfolding match_post_def kept_def by simp
qed

lemma match_post_trans:
  assumes "match_post q ls b ls' b'" "match_post q ls' b' ls'' b''"
  shows "match_post q ls b ls'' b''"
proof -
  have S: "shrinks ls ls'" "shrinks ls' ls''" using assms by (simp_all add: match_post_def)
  note sub = shrinksD(2) [OF S(2)] shrinksD(2) [OF S(1)]
  from shrinks_names [OF S(1)] have F: "book_frame (fst ` set ls) (insert q (resting ls)) b' b''"
    using assms(2) sub by (auto simp: match_post_def elim!: book_frame_mono)
  have "(resting ls - resting ls') \<union> (resting ls' - resting ls'') = resting ls - resting ls''"
    using sub by blast
  then have "erases (resting ls - resting ls'') b b''"
    using erases_trans [of "resting ls - resting ls'" b b' "resting ls' - resting ls''" b''] assms
    by (simp add: match_post_def)
  with F show ?thesis
    using assms shrinks_trans [OF S] book_frame_trans [OF _ F, of b] same_core_trans [of b b' b'']
    by (simp add: match_post_def same_but_qty_def)
qed

text \<open>The market price is read by none of the predicates.\<close>

lemma market_price_irrelevant [simp]:
  "qty_at (b\<lparr>market_price := c\<rparr>) x = qty_at b x" "view (b\<lparr>market_price := c\<rparr>) os = view b os"
  "links (b\<lparr>market_price := c\<rparr>) p os = links b p os"
  "volume_at (b\<lparr>market_price := c\<rparr>) p = volume_at b p"
  "level_of (b\<lparr>market_price := c\<rparr>) = level_of b"
  by (simp_all add: qty_at_def view_def links_def volume_at_def level_of_def order_at_def limit_at_def)

lemma market_price_levels [simp]: "levels_ok (b\<lparr>market_price := c\<rparr>) ls = levels_ok b ls"
  by (induction b ls rule: levels_ok.induct) simp_all

lemma market_price_post: "match_post q ls b ls' b' \<Longrightarrow> match_post q ls b ls' (b'\<lparr>market_price := c\<rparr>)"
  by (simp add: match_post_def book_frame_def same_core_def same_but_qty_def erases_def)

lemma match_post_level:
  assumes "match_post q ls b ls' b'" "levels_ok b ((p, os) # ls)" "q \<notin> set os"
  shows "level_of b' (p, os) = level_of b (p, os)"
proof -
  have F: "book_frame (fst ` set ls) (insert q (resting ls)) b b'" using assms by (simp add: match_post_def)
  have "p \<notin> fst ` set ls" "set os \<inter> insert q (resting ls) = {}" using assms by auto
  from frame_links [OF F this] frame_price [OF F] show ?thesis by (simp add: level_of_def)
qed

lemma match_post_limits: "match_post q ls b ls' b' \<Longrightarrow> limits_of buy b' = limits_of buy b"
  by (simp add: match_post_def book_frame_def limits_of_def)

definition match_result ::
    "bool \<Rightarrow> OrderType \<Rightarrow> bool \<Rightarrow> nat \<Rightarrow> side_shape \<Rightarrow> OrderBook \<Rightarrow> bool \<Rightarrow> side_shape \<Rightarrow> OrderBook \<Rightarrow> bool" where
  "match_result aon ty buy q ls b r ls' b' \<longleftrightarrow>
     match_post q ls b ls' b' \<and>
     (r, qty_at b' q, map (level_of b') ls', market_price b') =
       match_levels aon (cross_at (price (order_at b q)) ty buy) (qty_at b q) (map (level_of b) ls)
         (market_price b)"

lemma process_limit_order_step:
  assumes "level_pre p q aon os b"
  shows "\<exists>os' b'. process_limit_order p q cp ch b = Some (Inr (b', ch)) \<and> level_step p q aon [] os b os' b'"
proof -
  obtain l where "limit_mem b p = Some l" "head_order l = first_or os 0"
    using assms by (auto simp: level_pre_def links_def)
  then show ?thesis
    using process_limit_loop_step [of p q aon "[]" os b cp ch] assms by (simp add: process_limit_order_def)
qed

lemma match_loop_skip:
  assumes "valid_it (limits_of (\<not> buy) b) a" "get_key (limits_of (\<not> buy) b) a = Some p"
    "successor (limits_of (\<not> buy) b) a = Some a'" "limit_mem b p = Some l" "order_mem b q = Some qo"
    "aon" "get_active_volume l < current_qty qo"
  shows "match_loop a aon buy ty q fd ch b = match_loop a' aon buy ty q fd ch b"
  using assms by (subst match_loop.simps) (simp add: get_qty_def)

lemma match_loop_level:
  assumes "valid_it (limits_of (\<not> buy) b) a" "get_key (limits_of (\<not> buy) b) a = Some p"
    "limit_mem b p = Some l" "order_mem b q = Some qo"
    "\<not> (aon \<and> get_active_volume l < current_qty qo)"
    "cross_at (price qo) ty buy (limit_price l) = Some cp"
    "process_limit_order p q cp ch b = Some (Inr (b1, ch))" "limit_mem b1 p = Some l1"
    "order_mem b1 q = Some qo1"
  shows "\<exists>fd'. match_loop a aon buy ty q fd ch b =
    (if current_qty qo1 = 0 then Some (Inr (b1\<lparr>market_price := cp\<rparr>, True))
     else do {
       a' \<leftarrow> successor (limits_of (\<not> buy) (b1\<lparr>market_price := cp\<rparr>)) a;
       match_loop a' aon buy ty q fd' ch (b1\<lparr>market_price := cp\<rparr>)
     })"
  using assms
  by (intro exI [of _ "if limit_empty l1 then fd @ [p] else fd"], subst match_loop.simps)
     (auto simp: get_qty_def cross_price_eq Let_def)

lemma match_loop_stop:
  assumes "valid_it (limits_of (\<not> buy) b) a" "get_key (limits_of (\<not> buy) b) a = Some p"
    "limit_mem b p = Some l" "order_mem b q = Some qo"
    "\<not> (aon \<and> get_active_volume l < current_qty qo)"
    "cross_at (price qo) ty buy (limit_price l) = None"
  shows "match_loop a aon buy ty q fd ch b = Some (Inr (b, False))"
  using assms by (subst match_loop.simps) (auto simp: get_qty_def cross_price_eq)

lemma match_result_skip:
  assumes R: "match_result aon ty buy q ls b r ls' b'" and ok: "levels_ok b ((p, os) # ls)"
    and q: "q \<notin> set os" and v: "aon" "to_f32 (volume_at b p) < qty_at b q"
  shows "match_result aon ty buy q ((p, os) # ls) b r ((p, os) # ls') b'"
proof -
  have post: "match_post q ls b ls' b'" using R by (simp add: match_result_def)
  from match_post_level [OF post ok q] match_post_skip [OF post ok q] R v show ?thesis
    by (auto simp: match_result_def split: prod.splits)
qed

lemma match_result_level:
  assumes ok: "levels_ok b ((p, os) # ls)" and q: "q \<notin> resting ((p, os) # ls)"
    and qo: "order_mem b q = Some qo"
    and st: "level_step p q aon [] os b os' b1" and n: "good_qty (qty_at b q) \<or> qty_at b q = 0"
    and v: "\<not> (aon \<and> to_f32 (volume_at b p) < qty_at b q)"
    and cp: "cross_at (price qo) ty buy (limit_price (limit_at b p)) = Some cp"
  shows "qty_at b1 q = 0 \<Longrightarrow>
      match_result aon ty buy q ((p, os) # ls) b True ((p, os') # ls) (b1\<lparr>market_price := cp\<rparr>)"
    and "qty_at b1 q \<noteq> 0 \<Longrightarrow> match_result aon ty buy q ls (b1\<lparr>market_price := cp\<rparr>) r ls' b' \<Longrightarrow>
      match_result aon ty buy q ((p, os) # ls) b r ((p, os') # ls') b'"
proof -
  let ?b = "b1\<lparr>market_price := cp\<rparr>"
  note one = level_step_levels [OF ok q st n]
  obtain n' qs where fq: "fill_queue aon (qty_at b q) (view b os) = (n', qs)" by force
  have head: "level_of b1 (p, os') = (level_of b (p, os))\<lparr>lv_queue := qs\<rparr>" "qty_at b1 q = n'"
    using one(4,5) fq by simp_all
  have post: "match_post q ((p, os) # ls) b ((p, os') # ls) ?b" using one(1) by (rule market_price_post)
  have lvs: "map (level_of ?b) ls = map (level_of b) ls" using one(3) by simp
  show "match_result aon ty buy q ((p, os) # ls) b True ((p, os') # ls) ?b" if "qty_at b1 q = 0"
    using that post head lvs fq cp v qo by (auto simp: match_result_def)
  show "match_result aon ty buy q ((p, os) # ls) b r ((p, os') # ls') b'"
    if "qty_at b1 q \<noteq> 0" and R: "match_result aon ty buy q ls ?b r ls' b'"
  proof -
    have P: "match_post q ls ?b ls' b'" using R by (simp add: match_result_def)
    have ok': "levels_ok ?b ((p, os') # ls)" "q \<notin> set os'"
      using post q shrinksD(2) [of "(p, os) # ls" "(p, os') # ls"] by (auto simp: match_post_def)
    have "same_core b ?b" using post by (simp add: match_post_def)
    then have pr: "price (order_at ?b q) = price qo"
      using same_coreD(1) [of b ?b q] qo by (auto dest: core_eqD)
    have "match_post q ((p, os) # ls) b ((p, os') # ls') b'"
      using match_post_trans [OF post match_post_skip [OF P ok']] .
    moreover have "level_of b' (p, os') = (level_of b (p, os))\<lparr>lv_queue := qs\<rparr>"
      using match_post_level [OF P ok'] head by simp
    moreover have "match_levels aon (cross_at (price qo) ty buy) n' (map (level_of b) ls) cp =
        (r, qty_at b' q, map (level_of b') ls', market_price b')"
      using R pr head(2) unfolding match_result_def lvs by simp
    ultimately show ?thesis
      using that(1) head(2) fq cp v qo by (auto simp: match_result_def)
  qed
qed

text \<open>A limit the order crosses: the walk ends there, or goes on with the next limit.\<close>

lemma match_loop_crossing:
  assumes idx: "is_index lt (limits_of (\<not> buy) b) (xs0 @ (a, p) # xs)"
    and ok: "levels_ok b ((p, os) # ls)" "q \<notin> resting ((p, os) # ls)"
    and qo: "order_mem b q = Some qo" "has_param qo AON = aon"
    and n: "good_qty (qty_at b q) \<or> qty_at b q = 0"
    and v: "\<not> (aon \<and> to_f32 (volume_at b p) < qty_at b q)"
    and cp: "cross_at (price qo) ty buy (limit_price (limit_at b p)) = Some cp"
  shows "\<exists>os' b1 fd'.
    (match_loop a aon buy ty q fd ch b = Some (Inr (b1, True)) \<and>
     match_result aon ty buy q ((p, os) # ls) b True ((p, os') # ls) b1) \<or>
    (match_loop a aon buy ty q fd ch b =
       match_loop (it_of (nil (limits_of (\<not> buy) b)) xs) aon buy ty q fd' ch b1 \<and>
     limits_of (\<not> buy) b1 = limits_of (\<not> buy) b \<and> levels_ok b1 ls \<and>
     (\<exists>q1. order_mem b1 q = Some q1 \<and> has_param q1 AON = aon) \<and>
     (good_qty (qty_at b1 q) \<or> qty_at b1 q = 0) \<and>
     (\<forall>r ls' b'. match_result aon ty buy q ls b1 r ls' b' \<longrightarrow>
        match_result aon ty buy q ((p, os) # ls) b r ((p, os') # ls') b'))"
proof -
  let ?t = "limits_of (\<not> buy) b"
  note at = index_reads [OF idx]
  obtain l where l: "limit_mem b p = Some l" using ok by (auto simp: links_def)
  have vol: "get_active_volume l = to_f32 (volume_at b p)" "limit_price l = limit_price (limit_at b p)"
    using l by (simp_all add: get_active_volume_def volume_at_def limit_at_def)
  have valid: "valid_it ?t a" using at by (simp add: valid_it_def)
  have noskip: "\<not> (aon \<and> get_active_volume l < current_qty qo)" using v vol qo by (simp add: qty_at_def)
  have "level_pre p q aon os b" using ok n qo by (auto simp: level_pre_def)
  from process_limit_order_step [OF this, of cp ch] obtain os' b1 where
    st: "process_limit_order p q cp ch b = Some (Inr (b1, ch))" "level_step p q aon [] os b os' b1" by blast
  let ?b = "b1\<lparr>market_price := cp\<rparr>"
  note one = level_step_levels [OF ok st(2) n]
  note res = match_result_level [OF ok qo(1) st(2) n v cp]
  obtain l1 where l1: "limit_mem b1 p = Some l1" using st(2) by (auto simp: level_step_def links_def)
  obtain q1 where q1: "order_mem b1 q = Some q1" "core q1 = core qo"
    using one(1) same_coreD [of b b1 q] qo by (cases "order_mem b1 q") (auto simp: match_post_def)
  obtain fd' where run: "match_loop a aon buy ty q fd ch b =
      (if current_qty q1 = 0 then Some (Inr (?b, True))
       else do { a' \<leftarrow> successor (limits_of (\<not> buy) ?b) a; match_loop a' aon buy ty q fd' ch ?b })"
    using match_loop_level [OF valid at(1) l qo(1) noskip cp [folded vol(2)] st(1) l1 q1(1)] by blast
  have qty1: "current_qty q1 = qty_at b1 q" using q1 by (simp add: qty_at_def)
  have t: "limits_of (\<not> buy) ?b = ?t"
    using match_post_limits [OF one(1), of "\<not> buy"] by (cases buy) (simp_all add: limits_of_def)
  have n1: "good_qty (qty_at ?b q) \<or> qty_at ?b q = 0"
    using fill_queue_qty [OF n, of aon "view b os"] one(5) by simp
  have q1': "order_mem ?b q = Some q1" "has_param q1 AON = aon"
    using q1 qo core_eqD [OF q1(2)] by (simp_all add: has_param_def)
  have ok1: "levels_ok ?b ls" using one(2) by simp
  show ?thesis
  proof (cases "qty_at b1 q = 0")
    case True
    with run qty1 res(1) show ?thesis by auto
  next
    case False
    then have "match_loop a aon buy ty q fd ch b = match_loop (it_of (nil ?t) xs) aon buy ty q fd' ch ?b"
      using run qty1 at(3) by (simp add: t)
    with res(2) [OF False] t n1 q1' ok1 show ?thesis by blast
  qed
qed

lemma match_loop_levels:
  assumes "is_index lt (limits_of (\<not> buy) b) (xs0 @ xs)" "map snd xs = map fst ls"
    and "levels_ok b ls" "q \<notin> resting ls" "order_mem b q = Some qo" "has_param qo AON = aon"
    and "good_qty (qty_at b q) \<or> qty_at b q = 0"
  shows "\<exists>ls' b' r. match_loop (it_of (nil (limits_of (\<not> buy) b)) xs) aon buy ty q fd ch b =
      Some (Inr (b', r)) \<and> match_result aon ty buy q ls b r ls' b'"
  using assms
proof (induction ls arbitrary: xs0 xs b qo fd)
  case Nil
  then have "match_loop (it_of (nil (limits_of (\<not> buy) b)) xs) aon buy ty q fd ch b = Some (Inr (b, False))"
    by (subst match_loop.simps) (simp add: valid_it_def)
  with Nil match_post_refl [of b "[]" q] show ?case
    by (intro exI [of _ "[]"] exI [of _ b] exI [of _ False]) (simp add: match_result_def)
next
  case (Cons v ls)
  obtain p os where v: "v = (p, os)" by (cases v)
  obtain a xs' where xs: "xs = (a, p) # xs'" using Cons.prems(2) v by (cases xs) auto
  let ?t = "limits_of (\<not> buy) b"
  have idx: "is_index lt ?t (xs0 @ (a, p) # xs')" "is_index lt ?t ((xs0 @ [(a, p)]) @ xs')"
    using Cons.prems(1) xs by simp_all
  note at = index_reads [OF idx(1)]
  have ok: "levels_ok b ((p, os) # ls)" "q \<notin> resting ((p, os) # ls)" using Cons.prems v by simp_all
  obtain l where l: "limit_mem b p = Some l" using ok by (auto simp: links_def)
  have vol: "get_active_volume l = to_f32 (volume_at b p)" "limit_price l = limit_price (limit_at b p)"
    using l by (simp_all add: get_active_volume_def volume_at_def limit_at_def)
  note qo = Cons.prems(5,6) and n = Cons.prems(7)
  have qty: "current_qty qo = qty_at b q" using qo by (simp add: qty_at_def)
  have valid: "valid_it ?t a" using at by (simp add: valid_it_def)
  have rest: "map snd xs' = map fst ls" "levels_ok b ls" "q \<notin> resting ls"
    using Cons.prems(2) ok v xs by auto
  consider (skip) "aon" "to_f32 (volume_at b p) < qty_at b q"
    | (stop) "\<not> (aon \<and> to_f32 (volume_at b p) < qty_at b q)" "cross_at (price qo) ty buy (limit_price l) = None"
    | (cross) cp where "\<not> (aon \<and> to_f32 (volume_at b p) < qty_at b q)"
        "cross_at (price qo) ty buy (limit_price l) = Some cp" by blast
  then show ?case
  proof cases
    case skip
    from Cons.IH [OF idx(2) rest qo n, of fd] match_result_skip [OF _ ok(1) _ skip] ok(2)
      match_loop_skip [OF valid at(1,3) l qo(1) skip(1), of ty fd ch] skip vol qty xs v
    show ?thesis by fastforce
  next
    case stop
    with match_loop_stop [OF valid at(1) l qo(1), of aon] match_post_refl [OF ok(1), of q] vol qty qo xs v
    show ?thesis
      by (intro exI [of _ "(p, os) # ls"] exI [of _ b] exI [of _ False]) (auto simp: match_result_def)
  next
    case (cross cp)
    from match_loop_crossing [OF idx(1) ok qo n cross(1) cross(2) [unfolded vol(2)], of fd ch]
    obtain os' b1 fd' where
      "(match_loop a aon buy ty q fd ch b = Some (Inr (b1, True)) \<and>
        match_result aon ty buy q ((p, os) # ls) b True ((p, os') # ls) b1) \<or>
       (match_loop a aon buy ty q fd ch b = match_loop (it_of (nil ?t) xs') aon buy ty q fd' ch b1 \<and>
        limits_of (\<not> buy) b1 = ?t \<and> levels_ok b1 ls \<and>
        (\<exists>q1. order_mem b1 q = Some q1 \<and> has_param q1 AON = aon) \<and>
        (good_qty (qty_at b1 q) \<or> qty_at b1 q = 0) \<and>
        (\<forall>r ls' b'. match_result aon ty buy q ls b1 r ls' b' \<longrightarrow>
          match_result aon ty buy q ((p, os) # ls) b r ((p, os') # ls') b'))" by blast
    with Cons.IH [of b1 "xs0 @ [(a, p)]" xs' _ fd'] idx(2) rest(1,3) xs v show ?thesis by fastforce
  qed
qed

end
