(* ===== verification/Book_Inv.thy ===== *)
theory Book_Inv
  imports Matching
begin

text \<open>
  The invariant of an order book and the correctness of the operations that change it. \<open>book_ok
  b bl al\<close> says that the bid tree and the ask tree are indexes of the limits of \<open>bl\<close> and \<open>al\<close>, that
  each limit's list holds the given orders with the right side and price, and that the id map
  contains exactly the resting orders.
\<close>

section \<open>The invariant\<close>

definition order_fits :: "OrderBook \<Rightarrow> bool \<Rightarrow> nat \<Rightarrow> nat \<Rightarrow> bool" where
  "order_fits b buy p x \<longleftrightarrow>
     is_buy (order_at b x) = buy \<and> price (order_at b x) = limit_price (limit_at b p) \<and>
     \<not> cancelled (order_at b x)"

definition side_ok :: "bool \<Rightarrow> OrderBook \<Rightarrow> side_shape \<Rightarrow> bool" where
  "side_ok buy b ls \<longleftrightarrow>
     (\<exists>xs. is_index (limits_lt buy b) (limits_of buy b) xs \<and> map snd xs = map fst ls) \<and>
     levels_ok b ls \<and> (\<forall>(p, os) \<in> set ls. \<forall>x \<in> set os. order_fits b buy p x)"

definition ids_ok :: "OrderBook \<Rightarrow> nat set \<Rightarrow> bool" where
  "ids_ok b R \<longleftrightarrow>
     (\<forall>i q. map_of (orders b) i = Some q \<longleftrightarrow> q \<in> R \<and> order_id (order_at b q) = i)"

definition keys_ok :: "OrderBook \<Rightarrow> (nat \<Rightarrow> nat \<Rightarrow> bool) \<Rightarrow> nat rbtree \<Rightarrow> bool" where
  "keys_ok b lt t \<longleftrightarrow> (\<exists>xs. is_index lt t xs \<and> (\<forall>x \<in> set xs. order_mem b (snd x) \<noteq> None))"

definition parked_ok :: "OrderBook \<Rightarrow> bool" where
  "parked_ok b \<longleftrightarrow>
     keys_ok b (ask_stop_lt b) (ask_stop_orders b) \<and> keys_ok b (bid_stop_lt b) (bid_stop_orders b) \<and>
     keys_ok b (date_lt b) (date_orders b)"

definition book_struct :: "OrderBook \<Rightarrow> side_shape \<Rightarrow> side_shape \<Rightarrow> bool" where
  "book_struct b bl al \<longleftrightarrow>
     side_ok True b bl \<and> side_ok False b al \<and>
     fst ` set bl \<inter> fst ` set al = {} \<and> resting bl \<inter> resting al = {} \<and> parked_ok b \<and>
     (\<forall>p \<ge> next_limit b. limit_mem b p = None)"

definition book_ok :: "OrderBook \<Rightarrow> side_shape \<Rightarrow> side_shape \<Rightarrow> bool" where
  "book_ok b bl al \<longleftrightarrow> book_struct b bl al \<and> ids_ok b (resting bl \<union> resting al)"

text \<open>The shapes of a side and of the opposite side.\<close>

definition side_of :: "bool \<Rightarrow> 'a \<Rightarrow> 'a \<Rightarrow> 'a" where
  "side_of buy bl al = (if buy then bl else al)"

section \<open>Comparators of a book\<close>

lemma limits_lt_cong:
  assumes "\<And>p. limit_price (limit_at b' p) = limit_price (limit_at b p)"
  shows "limits_lt buy b' = limits_lt buy b"
  using assms by (simp add: limits_lt_def ask_lt_def [abs_def] bid_lt_def [abs_def] LimitComparator_def)

text \<open>No object appears or disappears, and none changes a field that a tree of orders is sorted by.\<close>

definition same_keys :: "OrderBook \<Rightarrow> OrderBook \<Rightarrow> bool" where
  "same_keys b b' \<longleftrightarrow> (\<forall>q. (order_mem b' q = None \<longleftrightarrow> order_mem b q = None) \<and>
     price (order_at b' q) = price (order_at b q) \<and>
     timestamp (order_at b' q) = timestamp (order_at b q) \<and>
     expire_time (order_at b' q) = expire_time (order_at b q))"

lemma same_core_keys: "same_core b b' \<Longrightarrow> same_keys b b'"
  using same_coreD [of b b'] core_eqD [OF same_coreD(1) [of b b']] by (simp add: same_keys_def)

lemma parked_lt_cong:
  assumes "same_keys b b'"
  shows "ask_stop_lt b' = ask_stop_lt b" "bid_stop_lt b' = bid_stop_lt b" "date_lt b' = date_lt b"
  using assms
  by (simp_all add: ask_stop_lt_def [abs_def] bid_stop_lt_def [abs_def] date_lt_def [abs_def]
      OrderComparator_def DateOrderComparator_def same_keys_def)

interpretation limit_order: comparator "limits_lt buy b" for buy b
  by unfold_locales (auto simp: limits_lt_def ask_lt_def bid_lt_def LimitComparator_def split: if_splits)

interpretation ask_stop_order: comparator "ask_stop_lt b" for b
  by unfold_locales (auto simp: ask_stop_lt_def OrderComparator_def split: if_splits)

interpretation bid_stop_order: comparator "bid_stop_lt b" for b
  by unfold_locales (auto simp: bid_stop_lt_def OrderComparator_def split: if_splits)

interpretation date_order: comparator "date_lt b" for b
  by unfold_locales (auto simp: date_lt_def DateOrderComparator_def split: if_splits)

section \<open>What matching preserves\<close>

lemma order_fits_cong:
  assumes "same_core b b'" "limit_price (limit_at b' p) = limit_price (limit_at b p)"
  shows "order_fits b' buy p x = order_fits b buy p x"
  using core_eqD [OF same_coreD(1) [OF assms(1), of x]] assms(2) by (simp add: order_fits_def is_buy_def)

lemma shrinks_fits:
  assumes S: "shrinks ls ls'" and c: "same_core b b'" and pr: "\<And>p. limit_price (limit_at b' p) = limit_price (limit_at b p)"
    and fit: "\<forall>(p, os) \<in> set ls. \<forall>x \<in> set os. order_fits b buy p x"
  shows "\<forall>(p, os) \<in> set ls'. \<forall>x \<in> set os. order_fits b' buy p x"
  using S fit unfolding shrinks_def
proof (induction rule: list_all2_induct)
  case (Cons x xs y ys)
  then show ?case using order_fits_cong [OF c pr] by (cases x, cases y) auto
qed simp

lemma side_ok_shrinks:
  assumes ok: "side_ok buy b ls" and F: "book_frame P Q b b'" and S: "shrinks ls ls'"
    and c: "same_core b b'" and L: "levels_ok b' ls'"
  shows "side_ok buy b' ls'"
proof -
  have pr: "limit_price (limit_at b' p) = limit_price (limit_at b p)" for p using frame_price [OF F] .
  have "limits_of buy b' = limits_of buy b" using F by (simp add: book_frame_def limits_of_def)
  moreover have "limits_lt buy b' = limits_lt buy b" by (rule limits_lt_cong) (rule pr)
  ultimately show ?thesis
    using ok L shrinksD(1) [OF S] shrinks_fits [OF S c pr] by (auto simp: side_ok_def)
qed

lemma ids_ok_erases:
  assumes ok: "ids_ok b R" and e: "erases X b b'" and c: "same_core b b'" and X: "X \<subseteq> R"
  shows "ids_ok b' (R - X)"
proof -
  have same: "order_id (order_at b' q) = order_id (order_at b q)" for q
    using core_eqD(1) [OF same_coreD(1) [OF c]] .
  have inj: "x = q" if "x \<in> R" "q \<in> R" "order_id (order_at b x) = order_id (order_at b q)" for x q
    using ok that by (metis ids_ok_def option.inject)
  show ?thesis
    unfolding ids_ok_def same
  proof (intro allI)
    fix i q
    show "(map_of (orders b') i = Some q) = (q \<in> R - X \<and> order_id (order_at b q) = i)"
      using ok e X inj unfolding ids_ok_def erases_def by (auto split: if_splits)
  qed
qed

lemma parked_ok_frame:
  assumes "parked_ok b" "book_frame P Q b b'" "same_keys b b'"
  shows "parked_ok b'"
  using assms parked_lt_cong [OF assms(3)]
  by (simp add: parked_ok_def keys_ok_def book_frame_def same_keys_def)

lemma side_ok_other:
  assumes ok: "side_ok buy b ls" and F: "book_frame P Q b b'"
    and out: "fst ` set ls \<inter> P = {}" "resting ls \<inter> Q = {}"
  shows "side_ok buy b' ls"
proof -
  have pr: "limit_price (limit_at b' p) = limit_price (limit_at b p)" for p using frame_price [OF F] .
  have "limits_of buy b' = limits_of buy b" using F by (simp add: book_frame_def limits_of_def)
  moreover have "limits_lt buy b' = limits_lt buy b" by (rule limits_lt_cong) (rule pr)
  moreover have "order_fits b' buy p x = order_fits b buy p x" if "(p, os) \<in> set ls" "x \<in> set os" for p os x
  proof -
    have "x \<in> resting ls" using that by (force simp: resting_def)
    then have "x \<notin> Q" using out(2) by blast
    then have "order_at b' x = order_at b x" using frame_order [OF F] by (simp add: order_at_def)
    then show ?thesis using pr by (simp add: order_fits_def)
  qed
  ultimately show ?thesis using ok frame_levels [OF F out] by (auto simp: side_ok_def)
qed

lemma frame_fresh_limits:
  assumes "\<forall>p \<ge> next_limit b. limit_mem b p = None" "book_frame P Q b b'"
  shows "\<forall>p \<ge> next_limit b'. limit_mem b' p = None"
proof (intro allI impI)
  fix p assume "next_limit b' \<le> p"
  then have "limit_mem b p = None" using assms by (simp add: book_frame_def)
  then have "map_option limit_price (limit_mem b' p) = None" using assms(2) by (simp add: book_frame_def)
  then show "limit_mem b' p = None" by simp
qed

text \<open>An order that does not rest changes in a field that no tree is sorted by.\<close>

lemma book_ok_outside:
  assumes ok: "book_ok b bl al" and F: "book_frame {} {q} b b'" and k: "same_keys b b'"
    and q: "q \<notin> resting bl \<union> resting al" and o: "orders b' = orders b"
  shows "book_ok b' bl al"
proof -
  have same: "order_at b' x = order_at b x" if "x \<in> resting bl \<union> resting al" for x
  proof -
    have "x \<noteq> q" using that q by blast
    then show ?thesis using frame_order [OF F, of x] by (simp add: order_at_def)
  qed
  have "side_ok True b' bl" "side_ok False b' al"
    using ok q by (auto simp: book_ok_def book_struct_def intro!: side_ok_other [OF _ F])
  moreover have "ids_ok b' (resting bl \<union> resting al)"
    using ok same o unfolding book_ok_def ids_ok_def by metis
  ultimately show ?thesis
    using ok parked_ok_frame [OF _ F k] frame_fresh_limits [OF _ F]
    by (simp add: book_ok_def book_struct_def)
qed

lemma match_post_book:
  assumes ok: "book_ok b bl al" and q: "q \<notin> resting bl \<union> resting al"
    and post: "match_post q (side_of (\<not> buy) bl al) b ls' b'"
  shows "book_ok b' (side_of buy bl ls') (side_of buy ls' al)"
proof -
  let ?opp = "side_of (\<not> buy) bl al"
  note defs = book_ok_def book_struct_def side_of_def
  have F: "book_frame (fst ` set ?opp) (insert q (resting ?opp)) b b'" and c: "same_core b b'"
    and S: "shrinks ?opp ls'" and L: "levels_ok b' ls'" and e: "erases (resting ?opp - resting ls') b b'"
    using post by (simp_all add: match_post_def)
  have opp: "side_ok (\<not> buy) b' ls'"
    using ok by (intro side_ok_shrinks [OF _ F S c L]) (cases buy; simp add: defs)
  have own: "side_ok buy b' (side_of buy bl al)"
    using ok q by (intro side_ok_other [OF _ F]; cases buy; auto simp: defs)
  note names = shrinks_names [OF S] and sub = shrinksD(2) [OF S]
  have "ids_ok b' (resting bl \<union> resting al - (resting ?opp - resting ls'))"
    using ok e c by (intro ids_ok_erases) (auto simp: defs)
  moreover have "resting bl \<union> resting al - (resting ?opp - resting ls') =
      resting (side_of buy bl ls') \<union> resting (side_of buy ls' al)"
    using ok sub by (cases buy) (auto simp: defs)
  moreover have "parked_ok b'" "\<forall>p \<ge> next_limit b'. limit_mem b' p = None"
    using ok parked_ok_frame [OF _ F same_core_keys [OF c]] frame_fresh_limits [OF _ F] by (simp_all add: defs)
  ultimately show ?thesis
    using ok opp own names sub unfolding book_ok_def book_struct_def by (cases buy) (auto simp: side_of_def)
qed

text \<open>Matching on a well-formed book returns, does not throw and implements the specification.\<close>

lemma match_order_correct:
  assumes ok: "book_ok b bl al" and q: "q \<notin> resting bl \<union> resting al"
    and qo: "order_mem b q = Some qo" and n: "good_qty (current_qty qo)"
  shows "\<exists>b' r ls'. match_order q b = Some (Inr (b', r)) \<and>
    match_result (has_param qo AON) (order_type qo) (is_buy qo) q (side_of (\<not> is_buy qo) bl al) b r ls' b' \<and>
    book_ok b' (side_of (is_buy qo) bl ls') (side_of (is_buy qo) ls' al)"
proof -
  let ?buy = "is_buy qo" let ?opp = "side_of (\<not> is_buy qo) bl al"
  let ?t = "limits_of (\<not> ?buy) b"
  have opp: "side_ok (\<not> ?buy) b ?opp" using ok by (cases ?buy) (simp_all add: book_ok_def book_struct_def side_of_def)
  then obtain xs where xs: "is_index (limits_lt (\<not> ?buy) b) ?t xs" "map snd xs = map fst ?opp"
    "levels_ok b ?opp" by (auto simp: side_ok_def)
  have "q \<notin> resting ?opp" using q by (simp add: side_of_def)
  moreover have "good_qty (qty_at b q) \<or> qty_at b q = 0" using n qo by (simp add: qty_at_def)
  moreover have "is_index (limits_lt (\<not> ?buy) b) ?t ([] @ xs)" using xs by simp
  ultimately obtain ls' b' r where
    m: "match_loop (it_of (nil ?t) xs) (has_param qo AON) ?buy (order_type qo) q [] [] b = Some (Inr (b', r))"
      "match_result (has_param qo AON) (order_type qo) ?buy q ?opp b r ls' b'"
    using match_loop_levels [OF _ xs(2,3) _ qo refl] by blast
  then have "match_order q b = Some (Inr (b', r))"
    using qo index_begin [OF xs(1)] by (simp add: match_order_def)
  moreover have "book_ok b' (side_of ?buy bl ls') (side_of ?buy ls' al)"
    using m(2) by (intro match_post_book [OF ok q]) (simp add: match_result_def)
  ultimately show ?thesis using m(2) by blast
qed

end
