(* ===== verification/Placing.thy ===== *)
theory Placing
  imports Book_Inv
begin

text \<open>
  Orders entering the book: \<open>add_limit_order\<close> puts an order at the end of the list of its price,
  creating the limit when the price is new; \<open>rest_order\<close> and \<open>add_order\<close> keep the invariant.
\<close>

section \<open>Specification\<close>

text \<open>The limit of the given address takes the place its price has among the limits of the side.\<close>

fun place :: "('k \<Rightarrow> 'k \<Rightarrow> bool) \<Rightarrow> 'k \<Rightarrow> nat \<Rightarrow> ('k \<times> nat list) list \<Rightarrow> ('k \<times> nat list) list" where
  "place lt lim q [] = [(lim, [q])]"
| "place lt lim q ((p, os) # ls) =
     (if lt lim p then (lim, [q]) # (p, os) # ls
      else if lt p lim then (p, os) # place lt lim q ls
      else (p, os @ [q]) # ls)"

context comparator
begin

lemma place_found:
  assumes "sorted_keys lt xs" "map snd xs = map fst ls" "find_entry lt lim xs = Some e"
  shows "\<exists>ls1 os ls2. ls = ls1 @ (snd e, os) # ls2 \<and> place lt lim q ls = ls1 @ (snd e, os @ [q]) # ls2 \<and>
    \<not> lt lim (snd e) \<and> \<not> lt (snd e) lim"
  using assms
proof (induction ls arbitrary: xs)
  case (Cons v ls)
  obtain p os where v: "v = (p, os)" by (cases v)
  obtain a xs' where xs: "xs = (a, p) # xs'" using Cons.prems(2) v by (cases xs) auto
  consider "lt lim p" | "\<not> lt lim p" "lt p lim" | "\<not> lt lim p" "\<not> lt p lim" by blast
  then show ?case
  proof cases
    case 1
    have "over lt lim xs'" using over_mono [OF _ asym [OF 1], of xs'] Cons.prems(1) xs by simp
    from find_entry_over [OF this] 1 Cons.prems(3) xs show ?thesis by simp
  next
    case 2
    with Cons.prems xs v obtain ls1 os' ls2 where "ls = ls1 @ (snd e, os') # ls2"
      "place lt lim q ls = ls1 @ (snd e, os' @ [q]) # ls2" "\<not> lt lim (snd e) \<and> \<not> lt (snd e) lim"
      using Cons.IH [of xs'] by auto
    with 2 v show ?thesis
      by (intro exI [of _ "(p, os) # ls1"] exI [of _ os'] exI [of _ ls2]) simp
  next
    case 3
    with Cons.prems(3) xs v show ?thesis
      by - (rule exI [of _ "[]"], rule exI [of _ os], rule exI [of _ ls], auto)
  qed
qed simp

lemma place_new:
  assumes "sorted_keys lt xs" "map snd xs = map fst ls" "find_entry lt lim xs = None"
  shows "\<exists>ls1 ls2. ls = ls1 @ ls2 \<and> place lt lim q ls = ls1 @ (lim, [q]) # ls2 \<and>
    map snd (ins_entry lt f lim xs) = map fst (place lt lim q ls)"
  using assms
proof (induction ls arbitrary: xs)
  case (Cons v ls)
  obtain p os where v: "v = (p, os)" by (cases v)
  obtain a xs' where xs: "xs = (a, p) # xs'" using Cons.prems(2) v by (cases xs) auto
  consider "lt lim p" | "\<not> lt lim p" "lt p lim" | "\<not> lt lim p" "\<not> lt p lim" by blast
  then show ?case
  proof cases
    case 1
    with Cons.prems xs v show ?thesis
      by - (rule exI [of _ "[]"], rule exI [of _ "(p, os) # ls"], auto)
  next
    case 2
    with Cons.prems xs v obtain ls1 ls2 where "ls = ls1 @ ls2"
      "place lt lim q ls = ls1 @ (lim, [q]) # ls2"
      "map snd (ins_entry lt f lim xs') = map fst (place lt lim q ls)"
      using Cons.IH [of xs'] by auto
    with 2 v xs show ?thesis by (intro exI [of _ "(p, os) # ls1"] exI [of _ ls2]) simp
  next
    case 3
    with Cons.prems(3) xs show ?thesis by simp
  qed
qed simp

end

lemma levels_ok_append:
  "levels_ok b (ks @ ls) \<longleftrightarrow>
     levels_ok b ks \<and> levels_ok b ls \<and> fst ` set ks \<inter> fst ` set ls = {} \<and> resting ks \<inter> resting ls = {}"
proof (induction ks)
  case (Cons k ks)
  then show ?case by (cases k) auto
qed simp

section \<open>Appending to a list\<close>

text \<open>The order object as it enters a list at limit \<open>p\<close> behind the orders \<open>os\<close>.\<close>

definition enter :: "nat \<Rightarrow> nat list \<Rightarrow> nat \<Rightarrow> (nat \<rightharpoonup> order) \<Rightarrow> (nat \<rightharpoonup> order)" where
  "enter p os q mem =
     (let mem = (if os = [] then mem else set_next (last os) q mem) in
      mem(q := map_option (\<lambda>ord. ord\<lparr>limit_parent := p, prev_order := last_or os 0\<rparr>) (mem q)))"

lemma seg_enter:
  assumes S: "seg mem p 0 os 0" and D: "distinct os" "q \<notin> set os" "q \<noteq> 0"
    and q: "mem q = Some qo" "next_order qo = 0"
  shows "seg (enter p os q mem) p 0 (os @ [q]) 0"
proof -
  let ?m = "if os = [] then mem else set_next (last os) q mem"
  have "seg ?m p 0 os q"
  proof (cases os rule: rev_cases)
    case (snoc zs x)
    then show ?thesis using seg_set_next [of mem p 0 zs x 0 q] S D by simp
  qed simp
  moreover have "?m q = Some qo"
    using q D by (cases os rule: rev_cases) auto
  ultimately show ?thesis using D q by (simp add: enter_def Let_def seg_append)
qed

lemma enter_other: "x \<notin> insert q (set os) \<Longrightarrow> enter p os q mem x = mem x"
  by (cases os rule: rev_cases) (auto simp: enter_def Let_def)

lemma core_set_next [simp]: "map_option core (set_next r v mem x) = map_option core (mem x)"
  by (cases "mem r"; cases "x = r"; simp add: set_next_def)

lemma qty_set_next [simp]: "map_option current_qty (set_next r v mem x) = map_option current_qty (mem x)"
  by (cases "mem r"; cases "x = r"; simp add: set_next_def)

lemma enter_core: "map_option core (enter p os q mem x) = map_option core (mem x)"
  "map_option current_qty (enter p os q mem x) = map_option current_qty (mem x)"
  by (cases "x = q"; simp add: enter_def Let_def option.map_comp comp_def)+

lemma qty_at_cong:
  "map_option current_qty (order_mem b' x) = map_option current_qty (order_mem b x) \<Longrightarrow>
   qty_at b' x = qty_at b x"
  by (cases "order_mem b x"; cases "order_mem b' x") (simp_all add: qty_at_def order_at_def)

text \<open>What a book is like after an order entered the list of a limit.\<close>

definition entered :: "nat \<Rightarrow> nat list \<Rightarrow> nat \<Rightarrow> OrderBook \<Rightarrow> OrderBook \<Rightarrow> bool" where
  "entered p os q b b' \<longleftrightarrow>
     links b' p (os @ [q]) \<and> book_frame {p} (insert q (set os)) b b' \<and> same_core b b' \<and>
     (\<forall>x. qty_at b' x = qty_at b x) \<and> volume_at b' p = fadd64 (volume_at b p) (qty_at b q) \<and>
     orders b' = orders b \<and> market_price b' = market_price b"

lemma entered_links:
  assumes L: "links b p os" and l: "limit_mem b p = Some l" and D: "q \<notin> set os" "q \<noteq> 0"
    and q: "order_mem b q = Some qo" "next_order qo = 0"
  shows "entered p os q b (b\<lparr>order_mem := enter p os q (order_mem b), limit_mem := (limit_mem b)
    (p \<mapsto> increase_volume (current_qty qo) (l\<lparr>head_order := first_or os q, tail_order := q\<rparr>))\<rparr>)"
    (is "entered p os q b ?b")
proof -
  have "links ?b p (os @ [q])"
    using L D q seg_enter [of "order_mem b" p os q qo]
    by (auto simp: links_def first_or_append last_or_append)
  moreover have "book_frame {p} (insert q (set os)) b ?b"
    using l by (auto simp: book_frame_def enter_other)
  moreover have "same_core b ?b" by (simp add: same_core_def enter_core)
  moreover have "qty_at ?b x = qty_at b x" for x by (rule qty_at_cong) (simp add: enter_core)
  moreover have "volume_at ?b p = fadd64 (volume_at b p) (qty_at b q)"
    using l q by (simp add: volume_at_def limit_at_def increase_volume_def qty_at_def)
  ultimately show ?thesis by (simp add: entered_def)
qed

lemma prev_order_id: "prev_order x = v \<Longrightarrow> x\<lparr>limit_parent := p, prev_order := v\<rparr> = x\<lparr>limit_parent := p\<rparr>"
  by (cases x) simp

lemma head_order_id: "head_order x = v \<Longrightarrow> x\<lparr>head_order := v, tail_order := w\<rparr> = x\<lparr>tail_order := w\<rparr>"
  by (cases x) simp

lemma add_limit_order_found:
  assumes found: "rb_find (limits_lt buy b) (limits_of buy b) lim = Some (Some p)"
    and L: "links b p os" and D: "q \<notin> set os" "q \<noteq> 0"
    and q: "order_mem b q = Some qo" "next_order qo = 0" "prev_order qo = 0"
  shows "\<exists>b'. add_limit_order buy q lim b = Some b' \<and> entered p os q b b'"
proof -
  obtain l where l: "limit_mem b p = Some l" "head_order l = first_or os 0" "tail_order l = last_or os 0"
    using L by (auto simp: links_def)
  let ?l = "increase_volume (current_qty qo) (l\<lparr>head_order := first_or os q, tail_order := q\<rparr>)"
  let ?b = "b\<lparr>order_mem := enter p os q (order_mem b), limit_mem := (limit_mem b)(p \<mapsto> ?l)\<rparr>"
  have "add_limit_order buy q lim b = Some ?b"
  proof (cases os rule: rev_cases)
    case Nil
    with found l q show ?thesis
      by (simp add: add_limit_order_def mod_order_def mod_limit_def set_limit_parent_def get_qty_def
          enter_def Let_def prev_order_id)
  next
    case (snoc zs x)
    have "x \<noteq> 0" "x \<noteq> q" using L D snoc by (auto simp: links_def seg_append)
    moreover obtain xo where "order_mem b x = Some xo" using L snoc by (auto simp: links_def seg_append)
    moreover have "head_order l \<noteq> 0" "head_order l = first_or os q"
      using l(2) L snoc by (cases zs; auto simp: links_def)+
    ultimately show ?thesis using found l q snoc
      by (simp add: add_limit_order_def mod_order_def mod_limit_def set_limit_parent_def get_qty_def
          enter_def Let_def set_next_def last_or_def fun_upd_twist [of x q] head_order_id)
  qed
  with entered_links [OF L l(1) D q(1,2)] show ?thesis by blast
qed

lemma add_limit_order_new:
  assumes found: "rb_find (limits_lt buy b) (limits_of buy b) lim = Some None"
    and ins: "rb_insert (limits_lt buy b) (limits_of buy b) lim = Some t"
    and l: "limit_mem b lim = Some (new_limit pr)" and q0: "q \<noteq> 0"
    and q: "order_mem b q = Some qo" "next_order qo = 0" "prev_order qo = 0"
  shows "\<exists>b'. add_limit_order buy q lim b = Some b' \<and> entered lim [] q (set_limits buy t b) b'"
proof -
  let ?sb = "set_limits buy t b"
  let ?l = "increase_volume (current_qty qo) ((new_limit pr)\<lparr>head_order := first_or [] q, tail_order := q\<rparr>)"
  have same: "order_mem ?sb = order_mem b" "limit_mem ?sb = limit_mem b" by (simp_all add: set_limits_def)
  have L: "links ?sb lim []" using l by (simp add: links_def same new_limit_def)
  let ?b = "?sb\<lparr>order_mem := enter lim [] q (order_mem ?sb), limit_mem := (limit_mem ?sb)(lim \<mapsto> ?l)\<rparr>"
  have "add_limit_order buy q lim b = Some ?b"
    using found ins l q
    by (simp add: add_limit_order_def mod_order_def mod_limit_def set_limit_parent_def get_qty_def
        enter_def Let_def same prev_order_id)
  moreover have "entered lim [] q ?sb ?b"
    using entered_links [OF L, of "new_limit pr" q qo] l q q0 by (simp add: same)
  ultimately show ?thesis by blast
qed

section \<open>The book with one more order\<close>

lemma enteredD:
  assumes "entered p os q b b'"
  shows "links b' p (os @ [q])" "book_frame {p} (insert q (set os)) b b'" "same_core b b'"
    "qty_at b' x = qty_at b x" "volume_at b' p = fadd64 (volume_at b p) (qty_at b q)"
    "orders b' = orders b" "market_price b' = market_price b" "view b' zs = view b zs"
  using assms by (auto simp: entered_def intro: view_cong)

lemma good_volume_add: "good_volume v \<Longrightarrow> 0 \<le> n \<Longrightarrow> good_volume (fadd64 v n)"
  using f64.rnd_mono [of 0 "v + n"] f64.rnd_0 by (simp add: good_volume_def fadd64_def f64.rnd_idem)

lemma enter_levels:
  assumes ok: "levels_ok b (ls1 @ (p, os) # ls2)" and E: "entered p os q b b'"
    and q: "q \<notin> resting (ls1 @ (p, os) # ls2)" "good_qty (qty_at b q)"
  shows "levels_ok b' (ls1 @ (p, os @ [q]) # ls2)"
proof -
  note e = enteredD [OF E]
  have "fst ` set ls1 \<inter> {p} = {}" "resting ls1 \<inter> insert q (set os) = {}"
    "fst ` set ls2 \<inter> {p} = {}" "resting ls2 \<inter> insert q (set os) = {}"
    using ok q(1) by (auto simp: levels_ok_append)
  then have "levels_ok b' ls1 = levels_ok b ls1" "levels_ok b' ls2 = levels_ok b ls2"
    using frame_levels [OF e(2), of ls1] frame_levels [OF e(2), of ls2] by simp_all
  moreover have "good_volume (volume_at b' p)"
    using ok q(2) e(5) good_volume_add [of "volume_at b p" "qty_at b q"]
    by (simp add: levels_ok_append good_qty_def)
  ultimately show ?thesis
    using ok q e(1,4,8) by (auto simp: levels_ok_append)
qed

lemma enter_side:
  assumes ok: "side_ok buy b (ls1 @ (p, os) # ls2)" and E: "entered p os q b b'"
    and q: "q \<notin> resting (ls1 @ (p, os) # ls2)" "good_qty (qty_at b q)" "order_fits b buy p q"
  shows "side_ok buy b' (ls1 @ (p, os @ [q]) # ls2)"
proof -
  note e = enteredD [OF E]
  have pr: "limit_price (limit_at b' p) = limit_price (limit_at b p)" for p using frame_price [OF e(2)] .
  have "limits_of buy b' = limits_of buy b" using e(2) by (simp add: book_frame_def limits_of_def)
  moreover have "limits_lt buy b' = limits_lt buy b" by (rule limits_lt_cong) (rule pr)
  moreover have "levels_ok b' (ls1 @ (p, os @ [q]) # ls2)"
    using ok by (intro enter_levels [OF _ E q(1,2)]) (simp add: side_ok_def)
  moreover have "\<forall>(p, os) \<in> set (ls1 @ (p, os @ [q]) # ls2). \<forall>x \<in> set os. order_fits b' buy p x"
    using ok q(3) by (auto simp: side_ok_def order_fits_cong [OF e(3) pr])
  ultimately show ?thesis using ok by (auto simp: side_ok_def)
qed

lemma set_limits_same [simp]:
  "order_mem (set_limits buy t b) = order_mem b" "limit_mem (set_limits buy t b) = limit_mem b"
  "orders (set_limits buy t b) = orders b" "limits_of buy (set_limits buy t b) = t"
  "limits_of (\<not> buy) (set_limits buy t b) = limits_of (\<not> buy) b"
  "order_at (set_limits buy t b) = order_at b" "limit_at (set_limits buy t b) = limit_at b"
  by (simp_all add: set_limits_def limits_of_def order_at_def [abs_def] limit_at_def [abs_def])

lemma set_limits_lt [simp]: "limits_lt buy' (set_limits buy t b) = limits_lt buy' b"
  by (rule limits_lt_cong) simp

lemma set_limits_views [simp]:
  "qty_at (set_limits buy t b) = qty_at b" "view (set_limits buy t b) = view b"
  "links (set_limits buy t b) = links b" "volume_at (set_limits buy t b) = volume_at b"
  "order_fits (set_limits buy t b) = order_fits b"
  by (simp_all add: qty_at_def [abs_def] view_def [abs_def] links_def [abs_def]
      volume_at_def [abs_def] order_fits_def [abs_def])

lemma set_limits_levels [simp]: "levels_ok (set_limits buy t b) ls = levels_ok b ls"
  by (induction b ls rule: levels_ok.induct) simp_all

lemma set_limits_other: "side_ok (\<not> buy) b ls \<Longrightarrow> side_ok (\<not> buy) (set_limits buy t b) ls"
  by (simp add: side_ok_def)

text \<open>A limit that is allocated and not yet in a tree.\<close>

definition spare_limit :: "OrderBook \<Rightarrow> nat \<Rightarrow> f32 \<Rightarrow> side_shape \<Rightarrow> bool" where
  "spare_limit b lim pr ls \<longleftrightarrow> limit_mem b lim = Some (new_limit pr) \<and> lim \<notin> fst ` set ls"

lemma spare_side:
  assumes ok: "side_ok buy b (ls1 @ ls2)" and sp: "spare_limit b lim pr (ls1 @ ls2)"
    and t: "is_index (limits_lt buy b) t xs" "map snd xs = map fst (ls1 @ (lim, []) # ls2)"
  shows "side_ok buy (set_limits buy t b) (ls1 @ (lim, []) # ls2)"
proof -
  have "links b lim []" "good_volume (volume_at b lim)"
    using sp by (simp_all add: spare_limit_def links_def new_limit_def volume_at_def limit_at_def good_volume_def)
  then have "levels_ok b (ls1 @ (lim, []) # ls2)"
    using ok sp by (auto simp: side_ok_def spare_limit_def levels_ok_append)
  then show ?thesis using ok t by (auto simp: side_ok_def)
qed

text \<open>
  The order \<open>q\<close> joins a side: it is the last one in the list of the limit with its price, which is
  new when there was none.
\<close>

definition joins :: "OrderBook \<Rightarrow> nat \<Rightarrow> side_shape \<Rightarrow> side_shape \<Rightarrow> bool" where
  "joins b q ls ls' \<longleftrightarrow>
     (\<exists>ls1 p os ls2. ls' = ls1 @ (p, os @ [q]) # ls2 \<and>
        limit_price (limit_at b p) = price (order_at b q) \<and>
        (ls = ls1 @ (p, os) # ls2 \<or> os = [] \<and> ls = ls1 @ ls2))"

lemma joins_resting: "joins b q ls ls' \<Longrightarrow> resting ls' = insert q (resting ls)"
  by (auto simp: joins_def)

lemma side_ok_joins:
  assumes "side_ok buy b (ls1 @ (p, os @ [q]) # ls2)" "ls = ls1 @ (p, os) # ls2 \<or> os = [] \<and> ls = ls1 @ ls2"
  shows "joins b q ls (ls1 @ (p, os @ [q]) # ls2)"
proof -
  have "order_fits b buy p q" using assms(1) by (auto simp: side_ok_def)
  then show ?thesis using assms(2) unfolding joins_def order_fits_def by metis
qed

text \<open>\<open>add_limit_order\<close> on one side: the order ends up last at its price.\<close>

lemma add_limit_order_side:
  assumes ok: "side_ok buy b ls" and sp: "spare_limit b lim (price qo) ls"
    and q: "order_mem b q = Some qo" "next_order qo = 0" "prev_order qo = 0" "q \<noteq> 0" "q \<notin> resting ls"
      "good_qty (current_qty qo)" "is_buy qo = buy" "\<not> cancelled qo"
  shows "\<exists>b' t p os ls'. add_limit_order buy q lim b = Some b' \<and> side_ok buy b' ls' \<and> joins b' q ls ls' \<and>
    entered p os q (set_limits buy t b) b' \<and> p \<in> insert lim (fst ` set ls) \<and> set os \<subseteq> resting ls \<and>
    fst ` set ls' \<subseteq> insert lim (fst ` set ls)"
proof -
  obtain xs where xs: "is_index (limits_lt buy b) (limits_of buy b) xs" "map snd xs = map fst ls"
    using ok by (auto simp: side_ok_def)
  note sorted = is_index_sorted [OF xs(1)]
  have price: "limit_price (limit_at b lim) = price qo"
    using sp by (simp add: spare_limit_def limit_at_def new_limit_def)
  have n: "good_qty (qty_at b q)" using q by (simp add: qty_at_def)
  show ?thesis
  proof (cases "find_entry (limits_lt buy b) lim xs")
    case (Some e)
    let ?p = "snd e"
    obtain ls1 os ls2 where ls: "ls = ls1 @ (?p, os) # ls2"
      "\<not> limits_lt buy b lim ?p" "\<not> limits_lt buy b ?p lim"
      using limit_order.place_found [OF sorted xs(2) Some] by blast
    have "rb_find (limits_lt buy b) (limits_of buy b) lim = Some (Some ?p)"
      using limit_order.rb_find_index [OF xs(1)] Some by simp
    moreover have "links b ?p os" using ok ls(1) by (simp add: side_ok_def levels_ok_append)
    ultimately obtain b' where b': "add_limit_order buy q lim b = Some b'" "entered ?p os q b b'"
      using add_limit_order_found [of buy b lim ?p os q qo] q ls(1) by auto
    have "order_fits b buy ?p q"
      using ls(2,3) price q
      by (auto simp: order_fits_def limits_lt_def ask_lt_def bid_lt_def LimitComparator_def split: if_splits)
    then have side: "side_ok buy b' (ls1 @ (?p, os @ [q]) # ls2)"
      using ok ls(1) q(5) n by (intro enter_side [OF _ b'(2)]) simp_all
    have "set_limits buy (limits_of buy b) b = b" by (simp add: set_limits_def limits_of_def)
    with b' ls(1) side side_ok_joins [OF side, of ls] show ?thesis
      by (intro exI [of _ b'] exI [of _ "limits_of buy b"] exI [of _ ?p] exI [of _ os]
          exI [of _ "ls1 @ (?p, os @ [q]) # ls2"]) auto
  next
    case None
    obtain t where t: "rb_insert (limits_lt buy b) (limits_of buy b) lim = Some t"
      "is_index (limits_lt buy b) t (ins_entry (limits_lt buy b) (fresh (limits_of buy b)) lim xs)"
      using limit_order.rb_insert_index [OF xs(1)] by blast
    let ?ys = "ins_entry (limits_lt buy b) (fresh (limits_of buy b)) lim xs"
    obtain ls1 ls2 where ls: "ls = ls1 @ ls2" "map snd ?ys = map fst (ls1 @ (lim, [q]) # ls2)"
      using limit_order.place_new [OF sorted xs(2) None] by metis
    have "rb_find (limits_lt buy b) (limits_of buy b) lim = Some None"
      using limit_order.rb_find_index [OF xs(1)] None by simp
    then obtain b' where b': "add_limit_order buy q lim b = Some b'"
      "entered lim [] q (set_limits buy t b) b'"
      using add_limit_order_new [OF _ t(1), of "price qo" q qo] sp q by (auto simp: spare_limit_def)
    have "side_ok buy (set_limits buy t b) (ls1 @ (lim, []) # ls2)"
      using ok sp ls t(2) by (intro spare_side) simp_all
    then have side: "side_ok buy b' (ls1 @ (lim, [] @ [q]) # ls2)"
      using enter_side [OF _ b'(2), of buy ls1 ls2] ls(1) q n price by (simp add: order_fits_def)
    with b' ls(1) side_ok_joins [OF side, of ls] show ?thesis
      by (intro exI [of _ b'] exI [of _ t] exI [of _ lim] exI [of _ "[]"]
          exI [of _ "ls1 @ (lim, [] @ [q]) # ls2"]) auto
  qed
qed

text \<open>An order object that may enter a list.\<close>

definition incoming :: "OrderBook \<Rightarrow> nat \<Rightarrow> order \<Rightarrow> side_shape \<Rightarrow> bool" where
  "incoming b q qo ls \<longleftrightarrow>
     order_mem b q = Some qo \<and> next_order qo = 0 \<and> prev_order qo = 0 \<and> q \<noteq> 0 \<and> q \<notin> resting ls \<and>
     good_qty (current_qty qo) \<and> \<not> cancelled qo"

definition same_aside :: "OrderBook \<Rightarrow> OrderBook \<Rightarrow> bool" where
  "same_aside b b' \<longleftrightarrow>
     same_core b b' \<and> (\<forall>x. qty_at b' x = qty_at b x) \<and> orders b' = orders b \<and> market_price b' = market_price b \<and>
     date_orders b' = date_orders b \<and> bid_stop_orders b' = bid_stop_orders b \<and>
     ask_stop_orders b' = ask_stop_orders b \<and> next_limit b' = next_limit b \<and>
     order_queue b' = order_queue b \<and> trade_queue b' = trade_queue b"

lemma set_limits_aside: "same_aside b (set_limits buy t b)"
  by (simp add: same_aside_def same_core_def set_limits_def qty_at_def order_at_def)

lemma same_aside_trans: "same_aside b b' \<Longrightarrow> same_aside b' b'' \<Longrightarrow> same_aside b b''"
  using same_core_trans [of b b' b''] by (simp add: same_aside_def)

lemma entered_aside: "entered p os q b b' \<Longrightarrow> same_aside b b'"
  by (simp add: entered_def same_aside_def book_frame_def)

lemma parked_ok_aside:
  assumes "parked_ok b" "same_aside b b'"
  shows "parked_ok b'"
proof -
  have k: "same_keys b b'" using assms(2) by (intro same_core_keys) (simp add: same_aside_def)
  with assms parked_lt_cong [OF k] show ?thesis
    by (simp add: parked_ok_def keys_ok_def same_aside_def same_keys_def)
qed

lemma add_limit_order_struct:
  assumes ok: "book_struct b bl al" and sp: "spare_limit b lim (price qo) (bl @ al)"
    and q: "incoming b q qo (bl @ al)" and lt: "lim < next_limit b"
  shows "\<exists>b' ls'. add_limit_order (is_buy qo) q lim b = Some b' \<and> same_aside b b' \<and>
    joins b' q (side_of (is_buy qo) bl al) ls' \<and>
    book_struct b' (side_of (is_buy qo) ls' bl) (side_of (is_buy qo) al ls') \<and>
    (\<forall>x. x \<notin> insert q (resting (bl @ al)) \<longrightarrow> order_mem b' x = order_mem b x)"
proof -
  let ?buy = "is_buy qo" let ?ls = "side_of (is_buy qo) bl al" let ?opp = "side_of (\<not> is_buy qo) bl al"
  have own: "side_ok ?buy b ?ls" and opp: "side_ok (\<not> ?buy) b ?opp"
    using ok by (cases ?buy; simp add: book_struct_def side_of_def)+
  have sp': "spare_limit b lim (price qo) ?ls" using sp by (auto simp: spare_limit_def side_of_def)
  have q': "order_mem b q = Some qo" "next_order qo = 0" "prev_order qo = 0" "q \<noteq> 0"
    "q \<notin> resting ?ls" "good_qty (current_qty qo)" "\<not> cancelled qo"
    using q by (simp_all add: incoming_def side_of_def)
  obtain b' t p os ls' where
    b': "add_limit_order ?buy q lim b = Some b'" "side_ok ?buy b' ls'"
      "entered p os q (set_limits ?buy t b) b'" "p \<in> insert lim (fst ` set ?ls)" "set os \<subseteq> resting ?ls"
      "joins b' q ?ls ls'" "fst ` set ls' \<subseteq> insert lim (fst ` set ?ls)"
    using add_limit_order_side [OF own sp' q'(1-6) refl q'(7)] by blast
  have aside: "same_aside b b'"
    using same_aside_trans [OF set_limits_aside entered_aside [OF b'(3)]] .
  have out: "fst ` set ?opp \<inter> {p} = {}" "resting ?opp \<inter> insert q (set os) = {}"
    using ok sp q b'(4,5) by (cases ?buy; auto simp: book_struct_def side_of_def spare_limit_def incoming_def)+
  have opp': "side_ok (\<not> ?buy) b' ?opp"
    using side_ok_other [OF set_limits_other [OF opp] enteredD(2) [OF b'(3)] out] .
  have "\<forall>p \<ge> next_limit b'. limit_mem b' p = None"
  proof (rule frame_fresh_limits [OF _ enteredD(2) [OF b'(3)]])
    show "\<forall>p \<ge> next_limit (set_limits ?buy t b). limit_mem (set_limits ?buy t b) p = None"
      using ok by (auto simp: book_struct_def set_limits_def)
  qed
  moreover have "parked_ok b'" using ok parked_ok_aside [OF _ aside] by (simp add: book_struct_def)
  moreover have "fst ` set ls' \<inter> fst ` set ?opp = {}"
    using b'(7) ok sp
    by (cases ?buy) (auto simp: book_struct_def spare_limit_def side_of_def)
  moreover have "resting ls' \<inter> resting ?opp = {}"
    using ok q joins_resting [OF b'(6)]
    by (cases ?buy) (auto simp: book_struct_def side_of_def incoming_def)
  ultimately have "book_struct b' (side_of ?buy ls' bl) (side_of ?buy al ls')"
    using b'(2) opp' by (cases ?buy) (auto simp: book_struct_def side_of_def)
  moreover have "order_mem b' x = order_mem b x" if "x \<notin> insert q (resting (bl @ al))" for x
    using frame_order [OF enteredD(2) [OF b'(3)], of x] that b'(5) by (auto simp: side_of_def split: if_splits)
  ultimately show ?thesis using b'(1,6) aside by blast
qed

section \<open>A new limit\<close>

lemma levels_names: "levels_ok b ls \<Longrightarrow> p \<in> fst ` set ls \<Longrightarrow> limit_mem b p \<noteq> None"
  by (induction b ls rule: levels_ok.induct) (auto simp: links_def)

lemma levels_ok_cong:
  assumes "\<And>p. p \<in> fst ` set ls \<Longrightarrow> limit_mem b' p = limit_mem b p" "order_mem b' = order_mem b"
  shows "levels_ok b' ls = levels_ok b ls"
  using assms
proof (induction ls)
  case (Cons v ls)
  then show ?case
    by (cases v) (simp add: links_def view_def qty_at_def order_at_def volume_at_def limit_at_def)
qed simp

lemma make_limit_side:
  assumes ok: "side_ok buy b ls" and b': "make_limit pr b = (lim, b')" and new: "limit_mem b lim = None"
  shows "side_ok buy b' ls" "lim \<notin> fst ` set ls"
proof -
  have L: "levels_ok b ls" using ok by (simp add: side_ok_def)
  show lim: "lim \<notin> fst ` set ls" using levels_names [OF L] new by blast
  have mem: "order_mem b' = order_mem b" "limits_of buy b' = limits_of buy b"
    "\<And>p. p \<noteq> lim \<Longrightarrow> limit_mem b' p = limit_mem b p"
    using b' by (auto simp: make_limit_def limits_of_def)
  obtain xs where xs: "is_index (limits_lt buy b) (limits_of buy b) xs" "map snd xs = map fst ls"
    using ok by (auto simp: side_ok_def)
  have "snd ` set xs = fst ` set ls" using xs(2) by (metis list.set_map)
  moreover have "limit_at b' p = limit_at b p" if "p \<in> fst ` set ls" for p
    using that mem(3) [of p] lim by (cases "p = lim") (auto simp: limit_at_def)
  ultimately have "is_index (limits_lt buy b') (limits_of buy b) xs"
    by (intro is_index_cong [OF xs(1)]) (simp add: limits_lt_def ask_lt_def bid_lt_def)
  moreover have "levels_ok b' ls" using L levels_ok_cong [of ls b' b] mem(1,3) lim by metis
  moreover have "order_fits b' buy p x = order_fits b buy p x" if "(p, os) \<in> set ls" for p os x
  proof -
    have "p \<noteq> lim" using that lim by force
    then show ?thesis using mem by (simp add: order_fits_def order_at_def limit_at_def)
  qed
  ultimately show "side_ok buy b' ls" using ok xs(2) mem(2) by (auto simp: side_ok_def)
qed

lemma make_limit_struct:
  assumes ok: "book_struct b bl al" and b': "make_limit pr b = (lim, b')"
  shows "book_struct b' bl al" "spare_limit b' lim pr (bl @ al)" "lim < next_limit b'"
    "order_mem b' = order_mem b" "orders b' = orders b" "market_price b' = market_price b"
    "order_queue b' = order_queue b" "trade_queue b' = trade_queue b"
    "date_orders b' = date_orders b"
proof -
  have new: "limit_mem b lim = None" using ok b' by (auto simp: book_struct_def make_limit_def)
  have sides: "side_ok True b' bl" "lim \<notin> fst ` set bl" "side_ok False b' al" "lim \<notin> fst ` set al"
    using ok make_limit_side [OF _ b' new, of True bl] make_limit_side [OF _ b' new, of False al]
    by (simp_all add: book_struct_def)
  show rest: "lim < next_limit b'" "order_mem b' = order_mem b" "orders b' = orders b"
    "market_price b' = market_price b" "order_queue b' = order_queue b" "trade_queue b' = trade_queue b"
    "date_orders b' = date_orders b"
    using b' by (auto simp: make_limit_def)
  show "spare_limit b' lim pr (bl @ al)"
    using b' sides by (auto simp: spare_limit_def make_limit_def)
  have "same_keys b b'" using rest by (simp add: same_keys_def order_at_def)
  then have "parked_ok b'"
    using ok b' parked_lt_cong [of b b'] unfolding book_struct_def parked_ok_def keys_ok_def
    by (auto simp: make_limit_def)
  then show "book_struct b' bl al"
    using ok sides b' by (auto simp: book_struct_def make_limit_def)
qed

end
