(* ===== verification/Adding.thy ===== *)
theory Adding
  imports Placing
begin

text \<open>
  \<open>rest_order\<close> and \<open>add_order\<close>: on a well-formed book an incoming order is matched, cancelled,
  parked or rests, and the book stays well formed.
\<close>

section \<open>Fields the sides do not depend on\<close>

lemma side_ok_cong:
  assumes "order_mem b' = order_mem b" "limit_mem b' = limit_mem b" "limits_of buy b' = limits_of buy b"
  shows "side_ok buy b' ls = side_ok buy b ls"
proof -
  have at: "order_at b' = order_at b" "limit_at b' = limit_at b"
    using assms by (simp_all add: order_at_def [abs_def] limit_at_def [abs_def])
  then have "limits_lt buy b' = limits_lt buy b" by (intro limits_lt_cong) simp
  then show ?thesis
    using assms at levels_ok_cong [of ls b' b] by (simp add: side_ok_def order_fits_def)
qed

lemma book_struct_cong:
  assumes "order_mem b' = order_mem b" "limit_mem b' = limit_mem b" "bid_limits b' = bid_limits b"
    "ask_limits b' = ask_limits b" "next_limit b' = next_limit b" "parked_ok b'"
  shows "book_struct b bl al \<Longrightarrow> book_struct b' bl al"
  using assms side_ok_cong [of b' b] by (simp add: book_struct_def limits_of_def)

lemma parked_ok_cong:
  assumes "order_mem b' = order_mem b" "ask_stop_orders b' = ask_stop_orders b"
    "bid_stop_orders b' = bid_stop_orders b" "date_orders b' = date_orders b"
  shows "parked_ok b' = parked_ok b"
proof -
  have "same_keys b b'" using assms by (simp add: same_keys_def order_at_def)
  from parked_lt_cong [OF this] assms show ?thesis by (simp add: parked_ok_def keys_ok_def)
qed

lemma ids_ok_cong: "order_mem b' = order_mem b \<Longrightarrow> orders b' = orders b \<Longrightarrow> ids_ok b' R = ids_ok b R"
  by (simp add: ids_ok_def order_at_def)

lemma ids_ok_core: "ids_ok b R \<Longrightarrow> same_core b b' \<Longrightarrow> orders b' = orders b \<Longrightarrow> ids_ok b' R"
  using core_eqD(1) [OF same_coreD(1)] by (simp add: ids_ok_def)

lemma ids_ok_update:
  assumes "ids_ok b R" "map_of (orders b) (order_id (order_at b q)) = None"
  shows "ids_ok (b\<lparr>orders := AList.update (order_id (order_at b q)) q (orders b)\<rparr>) (insert q R)"
proof -
  let ?i = "order_id (order_at b q)"
  have at: "order_at (b\<lparr>orders := os\<rparr>) = order_at b" for os by (simp add: order_at_def [abs_def])
  have iff: "map_of (orders b) i = Some x \<longleftrightarrow> x \<in> R \<and> order_id (order_at b x) = i" for i x
    using assms(1) by (simp add: ids_ok_def)
  then have "order_id (order_at b x) \<noteq> ?i" if "x \<in> R" for x using assms(2) that by (metis option.distinct(1))
  then show ?thesis by (auto simp: ids_ok_def at iff update_conv' split: if_splits)
qed

section \<open>Parking an order\<close>

lemma snd_ins_entry: "snd ` set (ins_entry lt a v xs) \<subseteq> insert v (snd ` set xs)"
  by (induction lt a v xs rule: ins_entry.induct) auto

lemma keys_ok_insert:
  assumes "comparator lt" "keys_ok b lt t" "order_mem b q \<noteq> None"
  shows "\<exists>t'. rb_insert lt t q = Some t' \<and> keys_ok b lt t' \<and>
    iterate t' (begin_it t') [] = map_option (put_key lt q) (iterate t (begin_it t) [])"
proof -
  obtain xs where xs: "is_index lt t xs" "\<forall>x \<in> set xs. order_mem b (snd x) \<noteq> None"
    using assms(2) by (auto simp: keys_ok_def)
  have "insert q (snd ` set xs) \<subseteq> dom (order_mem b)" using xs(2) assms(3) by auto
  with snd_ins_entry [of lt "fresh t" q xs] have "snd ` set (ins_entry lt (fresh t) q xs) \<subseteq> dom (order_mem b)"
    by (rule order_trans)
  then have "\<forall>x \<in> set (ins_entry lt (fresh t) q xs). order_mem b (snd x) \<noteq> None" by (auto simp: dom_def)
  moreover obtain t' where "rb_insert lt t q = Some t'" "is_index lt t' (ins_entry lt (fresh t) q xs)"
    using comparator.rb_insert_index [OF assms(1) xs(1)] by blast
  moreover from iterate_index [OF this(2)]
  have "iterate t' (begin_it t') [] = map_option (put_key lt q) (iterate t (begin_it t) [])"
    using iterate_index [OF xs(1)] map_snd_ins_entry [of lt "fresh t" q xs] by simp
  ultimately show ?thesis by (auto simp: keys_ok_def)
qed

text \<open>The dated orders after one more order.\<close>

definition dates_after :: "order \<Rightarrow> nat \<Rightarrow> OrderBook \<Rightarrow> OrderBook \<Rightarrow> bool" where
  "dates_after qo q b b' \<longleftrightarrow> get_orders_with_experation b' =
     (if has_param qo GFD \<or> has_param qo GTD then map_option (put_key (date_lt b) q) (get_orders_with_experation b)
      else get_orders_with_experation b)"

lemma dates_after_cong:
  assumes "dates_after qo q b b'" "date_orders c = date_orders b" "same_keys b c" "date_orders c' = date_orders b'"
    "\<And>f. has_param qo' f = has_param qo f"
  shows "dates_after qo' q c c'"
  using assms parked_lt_cong(3) [OF assms(3)] by (simp add: dates_after_def get_orders_with_experation_def)

lemma add_date_order_book:
  assumes ok: "book_ok b bl al" and q: "order_mem b q = Some qo"
  shows "\<exists>t. add_date_order q b = Some (b\<lparr>date_orders := t\<rparr>) \<and> book_ok (b\<lparr>date_orders := t\<rparr>) bl al \<and>
    dates_after qo q b (b\<lparr>date_orders := t\<rparr>)"
proof -
  have P: "parked_ok b" using ok by (simp add: book_ok_def book_struct_def)
  have set_date: "book_ok (b\<lparr>date_orders := t\<rparr>) bl al" if "keys_ok b (date_lt b) t" for t
  proof -
    let ?b = "b\<lparr>date_orders := t\<rparr>"
    have "same_keys b ?b" by (simp add: same_keys_def order_at_def)
    from parked_lt_cong [OF this] P that have "parked_ok ?b" by (simp add: parked_ok_def keys_ok_def)
    then show ?thesis
      using ok book_struct_cong [of ?b b bl al] ids_ok_cong [of ?b b] by (simp add: book_ok_def)
  qed
  show ?thesis
  proof (cases "has_param qo GFD \<or> has_param qo GTD")
    case True
    obtain t where "rb_insert (date_lt b) (date_orders b) q = Some t" "keys_ok b (date_lt b) t"
      "iterate t (begin_it t) [] = map_option (put_key (date_lt b) q) (get_orders_with_experation b)"
      using keys_ok_insert [OF date_order.comparator_axioms [of b], of b "date_orders b" q] P q
      by (auto simp: parked_ok_def get_orders_with_experation_def)
    with True q set_date show ?thesis
      by (intro exI [of _ t]) (auto simp: add_date_order_def dates_after_def get_orders_with_experation_def)
  next
    case False
    with q ok show ?thesis by (intro exI [of _ "date_orders b"]) (auto simp: add_date_order_def dates_after_def)
  qed
qed

text \<open>The stop orders after one more of the given side.\<close>

definition stops_after :: "bool \<Rightarrow> nat \<Rightarrow> OrderBook \<Rightarrow> OrderBook \<Rightarrow> bool" where
  "stops_after buy q b b' \<longleftrightarrow>
     (get_bid_stop_orders b', get_ask_stop_orders b') =
     (if buy then (map_option (put_key (bid_stop_lt b) q) (get_bid_stop_orders b), get_ask_stop_orders b)
      else (get_bid_stop_orders b, map_option (put_key (ask_stop_lt b) q) (get_ask_stop_orders b)))"

lemmas stops_defs = stops_after_def get_bid_stop_orders_def get_ask_stop_orders_def

lemma add_stop_order_struct:
  assumes ok: "book_struct b bl al" and q: "order_mem b q = Some qo"
  shows "\<exists>b'. add_stop_order buy q b = Some b' \<and> book_struct b' bl al \<and> order_mem b' = order_mem b \<and>
    orders b' = orders b \<and> order_queue b' = order_queue b \<and> trade_queue b' = trade_queue b \<and>
    market_price b' = market_price b \<and> stops_after buy q b b'"
proof -
  have P: "parked_ok b" using ok by (simp add: book_struct_def)
  have keep: "book_struct b' bl al"
    if "order_mem b' = order_mem b" "limit_mem b' = limit_mem b" "bid_limits b' = bid_limits b"
      "ask_limits b' = ask_limits b" "next_limit b' = next_limit b" "orders b' = orders b"
      "keys_ok b (ask_stop_lt b) (ask_stop_orders b')" "keys_ok b (bid_stop_lt b) (bid_stop_orders b')"
      "date_orders b' = date_orders b" for b'
  proof -
    have "same_keys b b'" using that by (simp add: same_keys_def order_at_def)
    from parked_lt_cong [OF this] P that have "parked_ok b'" by (simp add: parked_ok_def keys_ok_def)
    then show ?thesis
      using ok that book_struct_cong [of b' b bl al] by simp
  qed
  show ?thesis
  proof (cases buy)
    case True
    obtain t where "rb_insert (bid_stop_lt b) (bid_stop_orders b) q = Some t" "keys_ok b (bid_stop_lt b) t"
      "iterate t (begin_it t) [] = map_option (put_key (bid_stop_lt b) q) (get_bid_stop_orders b)"
      using keys_ok_insert [OF bid_stop_order.comparator_axioms [of b], of b "bid_stop_orders b" q] P q
      by (auto simp: parked_ok_def get_bid_stop_orders_def)
    with True P keep [of "b\<lparr>bid_stop_orders := t\<rparr>"] show ?thesis
      by (simp add: add_stop_order_def parked_ok_def stops_defs)
  next
    case False
    obtain t where "rb_insert (ask_stop_lt b) (ask_stop_orders b) q = Some t" "keys_ok b (ask_stop_lt b) t"
      "iterate t (begin_it t) [] = map_option (put_key (ask_stop_lt b) q) (get_ask_stop_orders b)"
      using keys_ok_insert [OF ask_stop_order.comparator_axioms [of b], of b "ask_stop_orders b" q] P q
      by (auto simp: parked_ok_def get_ask_stop_orders_def)
    with False P keep [of "b\<lparr>ask_stop_orders := t\<rparr>"] show ?thesis
      by (simp add: add_stop_order_def parked_ok_def stops_defs)
  qed
qed

lemma add_stop_order_book:
  assumes ok: "book_ok b bl al" and q: "order_mem b q = Some qo"
  shows "\<exists>b'. add_stop_order buy q b = Some b' \<and> book_ok b' bl al \<and> order_mem b' = order_mem b \<and>
    orders b' = orders b \<and> order_queue b' = order_queue b \<and> trade_queue b' = trade_queue b \<and>
    market_price b' = market_price b \<and> stops_after buy q b b'"
proof -
  have S: "book_struct b bl al" and I: "ids_ok b (resting bl \<union> resting al)" using ok by (simp_all add: book_ok_def)
  from add_stop_order_struct [OF S q, of buy] obtain b' where
    b': "add_stop_order buy q b = Some b'" "book_struct b' bl al" "order_mem b' = order_mem b" "orders b' = orders b"
      "order_queue b' = order_queue b" "trade_queue b' = trade_queue b" "market_price b' = market_price b"
      "stops_after buy q b b'" by blast
  moreover have "book_ok b' bl al" using b'(2) I ids_ok_cong [OF b'(3,4)] by (simp add: book_ok_def)
  ultimately show ?thesis by blast
qed

section \<open>An order that matching has not filled\<close>

text \<open>An order object with an id that is not in the book.\<close>

definition arriving :: "OrderBook \<Rightarrow> nat \<Rightarrow> order \<Rightarrow> side_shape \<Rightarrow> bool" where
  "arriving b q qo ls \<longleftrightarrow> incoming b q qo ls \<and> map_of (orders b) (order_id qo) = None"

lemma rest_order_cancels:
  assumes ok: "book_ok b bl al" and q: "incoming b q qo (bl @ al)" and FOK: "has_param qo FOK"
  shows "rest_order q b = Some (b\<lparr>order_mem := (order_mem b)(q \<mapsto> cancel qo)\<rparr>, NOT_MATCHED)"
    "book_ok (b\<lparr>order_mem := (order_mem b)(q \<mapsto> cancel qo)\<rparr>) bl al"
proof -
  let ?b = "b\<lparr>order_mem := (order_mem b)(q \<mapsto> cancel qo)\<rparr>"
  have qo: "order_mem b q = Some qo" using q by (simp add: incoming_def)
  then show "rest_order q b = Some (?b, NOT_MATCHED)"
    using FOK by (simp add: rest_order_def mod_order_def)
  show "book_ok ?b bl al"
    using qo q by (intro book_ok_outside [OF ok, of q])
      (auto simp: book_frame_def same_keys_def order_at_def cancel_def incoming_def)
qed

lemma rest_order_rests:
  assumes ok: "book_ok b bl al" and q: "arriving b q qo (bl @ al)" and FOK: "\<not> has_param qo FOK"
  shows "\<exists>b' ls'. rest_order q b = Some (b', ACCEPTED) \<and> joins b' q (side_of (is_buy qo) bl al) ls' \<and>
    book_ok b' (side_of (is_buy qo) ls' bl) (side_of (is_buy qo) al ls') \<and>
    same_core b b' \<and> (\<forall>x. qty_at b' x = qty_at b x) \<and> map_of (orders b') (order_id qo) = Some q \<and>
    market_price b' = market_price b \<and> order_queue b' = order_queue b \<and> trade_queue b' = trade_queue b \<and>
    dates_after qo q b b'"
proof -
  let ?buy = "is_buy qo"
  obtain lim b1 where m: "make_limit (price qo) b = (lim, b1)" by (cases "make_limit (price qo) b")
  have S: "book_struct b bl al" and I: "ids_ok b (resting bl \<union> resting al)"
    using ok by (simp_all add: book_ok_def)
  note b1 = make_limit_struct [OF S m]
  have "incoming b1 q qo (bl @ al)" using q b1(4) by (simp add: arriving_def incoming_def)
  from add_limit_order_struct [OF b1(1,2) this b1(3)] obtain b2 ls' where
    b2: "add_limit_order ?buy q lim b1 = Some b2" "same_aside b1 b2" "joins b2 q (side_of ?buy bl al) ls'"
      "book_struct b2 (side_of ?buy ls' bl) (side_of ?buy al ls')" by blast
  have qo: "order_mem b q = Some qo" "map_of (orders b) (order_id qo) = None"
    using q by (simp_all add: arriving_def incoming_def)
  have core: "same_core b b2" using b2(2) b1(4) by (simp add: same_aside_def same_core_def)
  have id2: "order_id (order_at b2 q) = order_id qo"
    using core_eqD(1) [OF same_coreD(1) [OF core, of q]] qo by simp
  let ?b3 = "b2\<lparr>orders := AList.update (order_id qo) q (orders b2)\<rparr>"
  have o2: "orders b2 = orders b" using b2(2) b1(5) by (simp add: same_aside_def)
  have "ids_ok b2 (resting bl \<union> resting al)" using ids_ok_core [OF I core o2] .
  then have "ids_ok ?b3 (insert q (resting bl \<union> resting al))"
    using ids_ok_update [of b2 _ q] id2 qo o2 by simp
  moreover have "insert q (resting bl \<union> resting al) =
      resting (side_of ?buy ls' bl) \<union> resting (side_of ?buy al ls')"
    using joins_resting [OF b2(3)] by (cases ?buy) (auto simp: side_of_def)
  moreover have "book_struct ?b3 (side_of ?buy ls' bl) (side_of ?buy al ls')"
  proof (rule book_struct_cong [OF _ _ _ _ _ _ b2(4)])
    show "parked_ok ?b3" using b2(4) parked_ok_cong [of ?b3 b2] by (simp add: book_struct_def)
  qed simp_all
  ultimately have ok3: "book_ok ?b3 (side_of ?buy ls' bl) (side_of ?buy al ls')" by (simp add: book_ok_def)
  have "order_mem b2 q \<noteq> None" using same_coreD(2) [OF core, of q] qo by simp
  then obtain qo2 where qo2: "order_mem ?b3 q = Some qo2" by auto
  from add_date_order_book [OF ok3 this] obtain t where
    t: "add_date_order q ?b3 = Some (?b3\<lparr>date_orders := t\<rparr>)"
      "book_ok (?b3\<lparr>date_orders := t\<rparr>) (side_of ?buy ls' bl) (side_of ?buy al ls')"
      "dates_after qo2 q ?b3 (?b3\<lparr>date_orders := t\<rparr>)" by blast
  have "same_keys b b2" using core by (rule same_core_keys)
  then have keys: "same_keys ?b3 b" by (simp add: same_keys_def order_at_def)
  have param: "has_param qo f = has_param qo2 f" for f
    using core_eqD [OF same_coreD(1) [OF core, of q]] qo qo2 by (simp add: has_param_def order_at_def)
  have dates: "date_orders b = date_orders ?b3" using b2(2) m by (auto simp: same_aside_def make_limit_def)
  have "dates_after qo q b (?b3\<lparr>date_orders := t\<rparr>)"
    by (rule dates_after_cong [OF t(3) dates keys refl param])
  moreover have "rest_order q b = Some (?b3\<lparr>date_orders := t\<rparr>, ACCEPTED)"
    using qo FOK m b2(1) t(1) by (simp add: rest_order_def)
  moreover have "joins (?b3\<lparr>date_orders := t\<rparr>) q (side_of ?buy bl al) ls'"
    using b2(3) by (simp add: joins_def order_at_def limit_at_def)
  moreover have "same_core b (?b3\<lparr>date_orders := t\<rparr>)" using core by (simp add: same_core_def)
  moreover have "qty_at (?b3\<lparr>date_orders := t\<rparr>) x = qty_at b x" for x
    using b2(2) b1(4) by (simp add: same_aside_def qty_at_def order_at_def)
  ultimately show ?thesis
    using t(2) b2(2) b1
    by (intro exI [of _ "?b3\<lparr>date_orders := t\<rparr>"] exI [of _ ls']) (simp add: same_aside_def update_conv')
qed

section \<open>Adding an order\<close>

text \<open>The condition under which \<open>add_order\<close> parks a stop order (orderbook.cpp, line 34).\<close>

definition parks :: "f32 \<Rightarrow> order \<Rightarrow> bool" where
  "parks mp qo \<longleftrightarrow> has_param qo STOP \<and>
     (if is_buy qo then mp > stop_price qo else mp < stop_price qo)"

text \<open>The order that matching sees: a triggered stop market order has become immediate-or-cancel.\<close>

definition released :: "order \<Rightarrow> order" where
  "released qo = (if has_param qo STOP \<and> order_type qo = MARKET then set_params IOC qo else qo)"

lemma released_same [simp]:
  "current_qty (released qo) = current_qty qo" "is_buy (released qo) = is_buy qo"
  "order_type (released qo) = order_type qo" "price (released qo) = price qo"
  "order_id (released qo) = order_id qo" "next_order (released qo) = next_order qo"
  "prev_order (released qo) = prev_order qo" "cancelled (released qo) = cancelled qo"
  "timestamp (released qo) = timestamp qo" "expire_time (released qo) = expire_time qo"
  by (simp_all add: released_def set_params_def is_buy_def)

definition release :: "nat \<Rightarrow> order \<Rightarrow> OrderBook \<Rightarrow> OrderBook" where
  "release q qo b = b\<lparr>order_queue := order_queue b @ [q], order_mem := (order_mem b)(q \<mapsto> released qo)\<rparr>"

lemma release_book:
  assumes ok: "book_ok b bl al" and q: "arriving b q qo (bl @ al)"
  shows "book_ok (release q qo b) bl al" "arriving (release q qo b) q (released qo) (bl @ al)"
proof -
  let ?b1 = "b\<lparr>order_mem := (order_mem b)(q \<mapsto> released qo)\<rparr>"
  have qo: "order_mem b q = Some qo" "q \<notin> resting bl \<union> resting al"
    using q by (simp_all add: arriving_def incoming_def)
  have ok1: "book_ok ?b1 bl al"
    using qo by (intro book_ok_outside [OF ok, of q]) (auto simp: book_frame_def same_keys_def order_at_def)
  show "book_ok (release q qo b) bl al"
    unfolding book_ok_def
  proof (rule conjI [OF book_struct_cong [of _ ?b1]])
    show "parked_ok (release q qo b)"
      using ok1 parked_ok_cong [of "release q qo b" ?b1]
      by (simp add: release_def book_ok_def book_struct_def)
    show "ids_ok (release q qo b) (resting bl \<union> resting al)"
      using ok1 ids_ok_cong [of "release q qo b" ?b1] by (simp add: release_def book_ok_def)
    show "book_struct ?b1 bl al" using ok1 by (simp add: book_ok_def)
  qed (simp_all add: release_def)
  show "arriving (release q qo b) q (released qo) (bl @ al)"
    using q by (simp add: arriving_def incoming_def release_def)
qed

lemma add_order_parks:
  assumes ok: "book_ok b bl al" and q: "order_mem b q = Some qo" and p: "parks (market_price b) qo"
  shows "\<exists>b'. add_order q b = Some (Inr (b', ACCEPTED)) \<and> book_ok b' bl al \<and> orders b' = orders b \<and>
    order_mem b' = order_mem b \<and> market_price b' = market_price b \<and> trade_queue b' = trade_queue b \<and>
    stops_after (is_buy qo) q b b' \<and> dates_after qo q b b'"
proof -
  let ?b = "enqueue_order q b"
  have same: "order_mem ?b = order_mem b" "orders ?b = orders b" by (simp_all add: enqueue_order_def)
  have ok': "book_ok ?b bl al"
    using ok book_struct_cong [of ?b b bl al] parked_ok_cong [of ?b b] ids_ok_cong [of ?b b]
    by (simp add: book_ok_def book_struct_def enqueue_order_def)
  obtain b1 where b1: "add_stop_order (is_buy qo) q ?b = Some b1" "book_ok b1 bl al"
    "order_mem b1 = order_mem b" "orders b1 = orders b" "trade_queue b1 = trade_queue ?b"
    "market_price b1 = market_price ?b" "stops_after (is_buy qo) q ?b b1"
    using add_stop_order_book [OF ok', of q qo "is_buy qo"] q same by auto
  from add_date_order_book [OF b1(2), of q qo] b1(3) q obtain t where
    t: "add_date_order q b1 = Some (b1\<lparr>date_orders := t\<rparr>)" "book_ok (b1\<lparr>date_orders := t\<rparr>) bl al"
      "dates_after qo q b1 (b1\<lparr>date_orders := t\<rparr>)" by auto
  have "date_orders b = date_orders b1" "same_keys b1 b"
    using b1(1,3) by (auto simp: add_stop_order_def enqueue_order_def same_keys_def order_at_def split: if_splits bind_splits)
  from dates_after_cong [OF t(3) this refl refl] have "dates_after qo q b (b1\<lparr>date_orders := t\<rparr>)" .
  moreover have "add_order q b = Some (Inr (b1\<lparr>date_orders := t\<rparr>, ACCEPTED))"
    using p q same b1(1) t(1)
    by (simp add: add_order_def parks_def enqueue_order_def split: if_splits)
  moreover have "stops_after (is_buy qo) q b (b1\<lparr>date_orders := t\<rparr>)"
    using b1(7) by (simp add: stops_defs enqueue_order_def bid_stop_lt_def [abs_def] ask_stop_lt_def [abs_def] order_at_def [abs_def])
  ultimately show ?thesis using t(2) b1 by (intro exI) (auto simp: enqueue_order_def)
qed

lemma add_order_matches:
  assumes q: "order_mem b q = Some qo" and p: "\<not> parks (market_price b) qo"
  shows "add_order q b = Option.bind (match_order q (release q qo b)) (\<lambda>r. case r of
      Inl f \<Rightarrow> Some (Inl f)
    | Inr (b, True) \<Rightarrow> Some (Inr (b, MATCHED))
    | Inr (b, False) \<Rightarrow> map_option Inr (rest_order q b))"
proof -
  have same: "(order_mem b)(q \<mapsto> qo) = order_mem b" using q by auto
  show ?thesis
    using q p by (cases "has_param qo STOP"; cases "is_buy qo"; cases "order_type qo")
      (simp_all add: add_order_def parks_def Let_def release_def released_def mod_order_def enqueue_order_def same)
qed

lemma match_levels_rest:
  "match_levels aon cross n vs mp = (r, n', vs', mp') \<Longrightarrow> good_qty n \<Longrightarrow>
   (r \<longleftrightarrow> n' = 0) \<and> (n' = 0 \<or> good_qty n')"
proof (induction vs arbitrary: n mp r n' vs' mp')
  case (Cons v vs)
  have fq: "good_qty (fst (fill_queue aon n (lv_queue v))) \<or> fst (fill_queue aon n (lv_queue v)) = 0"
    using fill_queue_qty Cons.prems(2) by blast
  show ?case
  proof (cases "aon \<and> to_f32 (lv_volume v) < n")
    case True
    with Cons.prems(1) obtain ws where "match_levels aon cross n vs mp = (r, n', ws, mp')"
      by (auto split: prod.splits)
    then show ?thesis using Cons.IH Cons.prems(2) by blast
  next
    case False
    have "n \<noteq> 0" using Cons.prems(2) by (simp add: good_qty_def)
    with False Cons.prems fq show ?thesis
      by (auto split: option.splits prod.splits if_splits dest!: Cons.IH)
  qed
qed (auto simp: good_qty_def)

lemma qty_eqD:
  assumes "x\<lparr>current_qty := 0\<rparr> = y\<lparr>current_qty := 0\<rparr>"
  shows "has_param x f = has_param y f" "is_buy x = is_buy y" "order_id x = order_id y"
    "next_order x = next_order y" "prev_order x = prev_order y" "cancelled x = cancelled y"
  using assms by (cases x; cases y; simp add: has_param_def is_buy_def)+

lemma matched_arriving:
  assumes q: "arriving b q qo (bl @ al)" and m: "match_result aon ty buy q opp b r opp' b1"
    and opp: "opp = side_of (\<not> buy) bl al"
  shows "\<exists>qo1. order_mem b1 q = Some qo1 \<and> qo1\<lparr>current_qty := 0\<rparr> = qo\<lparr>current_qty := 0\<rparr> \<and>
    (r \<longleftrightarrow> current_qty qo1 = 0) \<and>
    (\<not> r \<longrightarrow> arriving b1 q qo1 (side_of buy bl opp' @ side_of buy opp' al))"
proof -
  have qo: "order_mem b q = Some qo" "good_qty (current_qty qo)" "q \<noteq> 0" "q \<notin> resting bl" "q \<notin> resting al"
    "map_of (orders b) (order_id qo) = None" "next_order qo = 0" "prev_order qo = 0" "\<not> cancelled qo"
    using q by (simp_all add: arriving_def incoming_def)
  have post: "match_post q opp b opp' b1" and ml:
    "(r, qty_at b1 q, map (level_of b1) opp', market_price b1) =
       match_levels aon (cross_at (price (order_at b q)) ty buy) (qty_at b q) (map (level_of b) opp) (market_price b)"
    using m by (simp_all add: match_result_def)
  have "same_but_qty q b b1" using post by (simp add: match_post_def)
  then obtain qo1 where qo1: "order_mem b1 q = Some qo1" "qo1\<lparr>current_qty := 0\<rparr> = qo\<lparr>current_qty := 0\<rparr>"
    using qo by (auto simp: same_but_qty_def)
  then have same: "order_id qo1 = order_id qo" "next_order qo1 = 0" "prev_order qo1 = 0" "\<not> cancelled qo1"
    using qty_eqD [OF qo1(2)] qo by simp_all
  have "good_qty (qty_at b q)" using qo by (simp add: qty_at_def)
  from match_levels_rest [OF ml [symmetric] this] have
    r: "r \<longleftrightarrow> current_qty qo1 = 0" "current_qty qo1 = 0 \<or> good_qty (current_qty qo1)"
    using qo1 by (simp_all add: qty_at_Some)
  have "erases (resting opp - resting opp') b b1" using post by (simp add: match_post_def)
  then have id: "map_of (orders b1) (order_id qo1) = None" using qo(6) same by (auto simp: erases_def)
  have "resting opp' \<subseteq> resting opp" using post shrinksD(2) by (simp add: match_post_def)
  then have "q \<notin> resting opp'" using qo opp by (auto simp: side_of_def split: if_splits)
  then have "arriving b1 q qo1 (side_of buy bl opp' @ side_of buy opp' al)" if "\<not> r"
    using that r qo qo1 same id by (auto simp: arriving_def incoming_def side_of_def)
  with qo1 r show ?thesis by blast
qed

text \<open>What \<open>add_order\<close> does with an order that is not parked.\<close>

definition add_result ::
    "nat \<Rightarrow> order \<Rightarrow> side_shape \<Rightarrow> side_shape \<Rightarrow> OrderBook \<Rightarrow> OrderStatus \<Rightarrow> side_shape \<Rightarrow> side_shape \<Rightarrow> OrderBook \<Rightarrow> bool" where
  "add_result q qo own opp b st own' opp' b' \<longleftrightarrow>
     (\<exists>r b1. match_result (has_param (released qo) AON) (order_type qo) (is_buy qo) q opp (release q qo b) r opp' b1 \<and>
        (if r then st = MATCHED \<and> b' = b1 \<and> own' = own
         else if has_param (released qo) FOK then
           st = NOT_MATCHED \<and> own' = own \<and>
           b' = b1\<lparr>order_mem := (order_mem b1)(q := map_option cancel (order_mem b1 q))\<rparr>
         else st = ACCEPTED \<and> joins b' q own own' \<and> same_core b1 b' \<and> (\<forall>x. qty_at b' x = qty_at b1 x) \<and>
           map_of (orders b') (order_id qo) = Some q \<and> market_price b' = market_price b1 \<and>
           trade_queue b' = trade_queue b1 \<and> dates_after (released qo) q b1 b'))"

lemma add_order_book:
  assumes ok: "book_ok b bl al" and q: "arriving b q qo (bl @ al)" and p: "\<not> parks (market_price b) qo"
  shows "\<exists>b' st own' opp'. add_order q b = Some (Inr (b', st)) \<and>
    add_result q qo (side_of (is_buy qo) bl al) (side_of (\<not> is_buy qo) bl al) b st own' opp' b' \<and>
    book_ok b' (side_of (is_buy qo) own' opp') (side_of (is_buy qo) opp' own')"
proof -
  let ?buy = "is_buy qo" let ?own = "side_of (is_buy qo) bl al" let ?opp = "side_of (\<not> is_buy qo) bl al"
  let ?b = "release q qo b"
  note rel = release_book [OF ok q]
  have qo: "order_mem b q = Some qo" using q by (simp add: arriving_def incoming_def)
  have "q \<notin> resting bl \<union> resting al" "order_mem ?b q = Some (released qo)" "good_qty (current_qty (released qo))"
    using rel(2) by (simp_all add: arriving_def incoming_def)
  from match_order_correct [OF rel(1) this] obtain b1 r opp' where
    m: "match_order q ?b = Some (Inr (b1, r))"
      "match_result (has_param (released qo) AON) (order_type qo) ?buy q ?opp ?b r opp' b1"
      "book_ok b1 (side_of ?buy bl opp') (side_of ?buy opp' al)" by auto
  from matched_arriving [OF rel(2) m(2) refl] obtain qo1 where
    qo1: "order_mem b1 q = Some qo1" "qo1\<lparr>current_qty := 0\<rparr> = (released qo)\<lparr>current_qty := 0\<rparr>"
      "\<not> r \<Longrightarrow> arriving b1 q qo1 (side_of ?buy bl opp' @ side_of ?buy opp' al)" by blast
  have same: "has_param qo1 f = has_param (released qo) f" "is_buy qo1 = ?buy" "order_id qo1 = order_id qo" for f
    using qty_eqD [OF qo1(2)] by simp_all
  let ?bl = "side_of ?buy bl opp'" let ?al = "side_of ?buy opp' al"
  have sides: "?bl = side_of ?buy ?own opp'" "?al = side_of ?buy opp' ?own"
    by (simp_all add: side_of_def)
  note add = add_order_matches [OF qo p, unfolded m(1)]
  consider "r" | "\<not> r" "has_param (released qo) FOK" | "\<not> r" "\<not> has_param (released qo) FOK" by blast
  then show ?thesis
  proof cases
    case 1
    then have "add_order q b = Some (Inr (b1, MATCHED))" using add by simp
    moreover have "add_result q qo ?own ?opp b MATCHED ?own opp' b1"
      using m(2) 1 by (auto simp: add_result_def)
    ultimately show ?thesis using m(3) sides by metis
  next
    case 2
    have inc: "incoming b1 q qo1 (?bl @ ?al)" using qo1(3) 2 by (simp add: arriving_def)
    have F: "has_param qo1 FOK" using 2 same by simp
    let ?b' = "b1\<lparr>order_mem := (order_mem b1)(q \<mapsto> cancel qo1)\<rparr>"
    have "add_order q b = Some (Inr (?b', NOT_MATCHED))"
      using add 2 rest_order_cancels(1) [OF m(3) inc F] by simp
    moreover have "add_result q qo ?own ?opp b NOT_MATCHED ?own opp' ?b'"
      using m(2) 2 qo1(1) unfolding add_result_def by (intro exI [of _ r] exI [of _ b1]) simp
    ultimately show ?thesis using rest_order_cancels(2) [OF m(3) inc F] sides by metis
  next
    case 3
    have arr: "arriving b1 q qo1 (?bl @ ?al)" using qo1(3) 3 by simp
    have F: "\<not> has_param qo1 FOK" using 3 same by simp
    obtain b' ls' where b': "rest_order q b1 = Some (b', ACCEPTED)" "joins b' q (side_of ?buy ?bl ?al) ls'"
      "book_ok b' (side_of ?buy ls' ?bl) (side_of ?buy ?al ls')" "same_core b1 b'"
      "\<forall>x. qty_at b' x = qty_at b1 x" "map_of (orders b') (order_id qo) = Some q"
      "market_price b' = market_price b1" "trade_queue b' = trade_queue b1" "dates_after qo1 q b1 b'"
      using rest_order_rests [OF m(3) arr F] same by auto
    have dates: "dates_after (released qo) q b1 b'" using b'(9) same(1) by (simp add: dates_after_def)
    have "add_order q b = Some (Inr (b', ACCEPTED))" using add 3 b'(1) by simp
    moreover have "side_of ?buy ?bl ?al = ?own" "side_of ?buy ls' ?bl = side_of ?buy ls' opp'"
      "side_of ?buy ?al ls' = side_of ?buy opp' ls'" by (simp_all add: side_of_def)
    moreover from this have "add_result q qo ?own ?opp b ACCEPTED ls' opp' b'"
      using m(2) 3 b' dates unfolding add_result_def by (intro exI [of _ r] exI [of _ b1]) simp
    ultimately show ?thesis using b'(3) by metis
  qed
qed

section \<open>The new book\<close>

lemma empty_book_ok: "book_ok (empty_book instr mp mem now) [] []"
proof -
  have "keys_ok b lt (new_rbtree 0)" for b lt
    unfolding keys_ok_def using new_rbtree_index [of lt] by (intro exI [of _ "[]"]) simp
  moreover have "is_index lt (new_rbtree 0) []" for lt :: "nat \<Rightarrow> nat \<Rightarrow> bool" by (rule new_rbtree_index)
  ultimately show ?thesis
    by (simp add: book_ok_def book_struct_def side_ok_def ids_ok_def parked_ok_def empty_book_def limits_of_def)
qed

end
