(* ===== verification/Priority.thy ===== *)
theory Priority
  imports Adding
begin

text \<open>
  What the matching specification means: orders are served in price-time order, an all-or-nothing
  order is filled by one resting order or not at all, quantities are conserved, and an order that
  rests leaves no order it could have traded with.
\<close>

section \<open>Orders that may be filled in parts\<close>

lemma fill_queue_rest: "fill_queue False n qs = (n', qs') \<Longrightarrow> good_qty n \<Longrightarrow> n' \<noteq> 0 \<Longrightarrow> qs' = []"
proof (induction "False" n qs arbitrary: n' qs' rule: fill_queue.induct)
  case (2 n x m qs)
  then show ?case using fsub32_pos [of m n] by (auto simp: good_qty_def [of n] split: if_splits)
qed simp

lemma fill_queue_append:
  assumes "good_qty n"
  shows "fill_queue False n (qs @ ps) =
    (case fill_queue False n qs of (n', qs') \<Rightarrow>
       if n' = 0 then (0, qs' @ ps) else fill_queue False n' ps)"
  using assms
proof (induction qs arbitrary: n)
  case (Cons y qs)
  obtain x m where y: "y = (x, m)" by (cases y)
  have "0 < n" using Cons.prems by (simp add: good_qty_def)
  then show ?case using Cons.IH [of "fsub32 n m"] fsub32_pos [of m n] by (auto simp: y)
qed (auto simp: good_qty_def)

text \<open>
  The queue that is left: the orders before some point are gone, the order at that point has at
  most its quantity, the orders behind it are as they were.
\<close>

definition served :: "queue \<Rightarrow> queue \<Rightarrow> bool" where
  "served qs qs' \<longleftrightarrow>
     (\<exists>ps. qs = ps @ qs') \<or>
     (\<exists>ps x m m' zs. qs = ps @ (x, m) # zs \<and> qs' = (x, m') # zs \<and> 0 < m' \<and> m' \<le> m)"

lemma fill_queue_served:
  "fill_queue False n qs = (n', qs') \<Longrightarrow> good_qty n \<or> n = 0 \<Longrightarrow> good_queue qs \<Longrightarrow> served qs qs'"
proof (induction "False" n qs arbitrary: n' qs' rule: fill_queue.induct)
  case (1 n)
  then show ?case by (simp add: served_def)
next
  case (2 n x m qs)
  consider "n \<le> 0" | "0 < n" "n \<le> m" | "0 < n" "m < n" by linarith
  then show ?case
  proof cases
    case 1
    with 2 show ?thesis by (auto simp: served_def)
  next
    case 2
    show ?thesis
    proof (cases "m = n")
      case True
      with 2 "2.prems" show ?thesis by (auto simp: served_def)
    next
      case False
      have "0 < fsub32 m n" "fsub32 m n \<le> m"
        using 2 False "2.prems"(3) fsub32_pos [of n m] f32.sub_le [of m n]
        by (auto simp: good_qty_def fsub32_def)
      with 2 False "2.prems"(1) show ?thesis
        unfolding served_def by (intro disjI2) (auto intro!: exI [of _ "[]"])
    qed
  next
    case 3
    then have "served qs qs'"
      using "2.hyps" [of n' qs'] "2.prems" fsub32_pos [of m n] by (simp del: served_def)
    then show ?thesis unfolding served_def by (metis append_Cons)
  qed
qed

section \<open>The levels of a side in a line\<close>

text \<open>One level: skipped for its volume, not crossing, enough to fill the order, or not enough.\<close>

lemma match_levels_cases [consumes 1, case_names skipped apart enough short]:
  assumes "match_levels aon cross n (v # vs) mp = (r, n', vs', mp')"
  obtains ws where "aon" "match_levels aon cross n vs mp = (r, n', ws, mp')" "vs' = v # ws"
  | "cross (lv_price v) = None" "\<not> r" "n' = n" "vs' = v # vs" "mp' = mp"
  | cp qs where "cross (lv_price v) = Some cp" "fill_queue aon n (lv_queue v) = (0, qs)" "r" "n' = 0"
      "vs' = v\<lparr>lv_queue := qs\<rparr> # vs" "mp' = cp"
  | cp k qs ws where "cross (lv_price v) = Some cp" "fill_queue aon n (lv_queue v) = (k, qs)" "k \<noteq> 0"
      "match_levels aon cross k vs cp = (r, n', ws, mp')" "vs' = v\<lparr>lv_queue := qs\<rparr> # ws"
proof (cases "aon \<and> to_f32 (lv_volume v) < n")
  case True
  with assms that(1) show ?thesis by (auto split: prod.splits)
next
  case False
  obtain k qs where "fill_queue aon n (lv_queue v) = (k, qs)" by fastforce
  with False assms that(2-4) show ?thesis
    by (cases "cross (lv_price v)"; cases "k = 0") (auto split: prod.splits)
qed

abbreviation line :: "level list \<Rightarrow> queue" where
  "line vs \<equiv> concat (map lv_queue vs)"

text \<open>
  Matching an order that may be filled in parts is serving the orders of the crossing levels in a
  line: by price, then by their place in the level.
\<close>

lemma match_levels_line:
  assumes "match_levels False cross n vs mp = (r, n', vs', mp')" "good_qty n"
  shows "(n', line vs') = (case fill_queue False n (line (takeWhile (\<lambda>v. cross (lv_price v) \<noteq> None) vs)) of
    (k, qs) \<Rightarrow> (k, qs @ line (dropWhile (\<lambda>v. cross (lv_price v) \<noteq> None) vs)))"
  using assms
proof (induction vs arbitrary: n mp r n' vs' mp')
  case (Cons v vs)
  let ?C = "\<lambda>v. cross (lv_price v) \<noteq> None"
  from Cons.prems(1) show ?case
  proof (cases rule: match_levels_cases)
    case (enough cp qs)
    have "line vs = line (takeWhile ?C vs) @ line (dropWhile ?C vs)"
      by (metis concat_append map_append takeWhile_dropWhile_id)
    with enough Cons.prems(2) show ?thesis by (simp add: fill_queue_append)
  next
    case (short cp k qs ws)
    have qs: "qs = []" "good_qty k"
      using fill_queue_rest [OF short(2) Cons.prems(2) short(3)] fill_queue_qty [of n False "lv_queue v"]
        Cons.prems(2) short(2,3) by simp_all
    with Cons.IH [OF short(4) qs(2)] short Cons.prems(2) show ?thesis by (simp add: fill_queue_append)
  qed simp_all
qed simp

lemma match_levels_unfilled:
  assumes "match_levels False cross n vs mp = (False, n', vs', mp')" "good_qty n"
    and "sorted_wrt (\<lambda>v w. cross (lv_price v) = None \<longrightarrow> cross (lv_price w) = None) vs"
  shows "\<forall>v \<in> set vs'. lv_queue v \<noteq> [] \<longrightarrow> cross (lv_price v) = None"
  using assms
proof (induction vs arbitrary: n mp n' vs' mp')
  case (Cons v vs)
  from Cons.prems(1) show ?case
  proof (cases rule: match_levels_cases)
    case (short cp k qs ws)
    have qs: "qs = []" "good_qty k"
      using fill_queue_rest [OF short(2) Cons.prems(2) short(3)] fill_queue_qty [of n False "lv_queue v"]
        Cons.prems(2) short(2,3) by simp_all
    have "\<forall>v \<in> set ws. lv_queue v \<noteq> [] \<longrightarrow> cross (lv_price v) = None"
      by (rule Cons.IH [OF _ qs(2)]) (use short(2,4) Cons.prems(3) in \<open>auto simp del: not_None_eq\<close>)
    with qs(1) short(5) show ?thesis by simp
  qed (use Cons.prems(3) in auto)
qed simp

section \<open>All-or-nothing orders\<close>

lemma fill_queue_aon:
  "fill_queue True n qs = (n', qs') \<Longrightarrow> 0 < n \<Longrightarrow> n' = 0 \<or> n' = n \<and> qs' = qs"
proof (induction qs arbitrary: n' qs')
  case (Cons y qs)
  obtain x m where y: "y = (x, m)" by (cases y)
  show ?case
  proof (cases "n \<le> m")
    case False
    with Cons.prems y obtain zs where zs: "fill_queue True n qs = (n', zs)" "qs' = y # zs"
      by (auto split: prod.splits)
    with Cons.IH [OF zs(1) Cons.prems(2)] show ?thesis by simp
  qed (use Cons.prems y in auto)
qed simp

lemma match_levels_aon:
  "match_levels True cross n vs mp = (r, n', vs', mp') \<Longrightarrow> 0 < n \<Longrightarrow> r \<and> n' = 0 \<or> \<not> r \<and> n' = n \<and> vs' = vs"
proof (induction vs arbitrary: mp r n' vs' mp')
  case (Cons v vs)
  from Cons.prems(1) show ?case
  proof (cases rule: match_levels_cases)
    case (short cp k qs ws)
    then have "k = n" "qs = lv_queue v" using fill_queue_aon [OF short(2) Cons.prems(2)] by auto
    with Cons.IH Cons.prems(2) short show ?thesis by simp
  qed (use Cons in auto)
qed auto

section \<open>Conservation\<close>

text \<open>Quantities that are whole numbers of units below \<open>2^24\<close>, which \<^verbatim>\<open>float\<close> represents exactly.\<close>

definition whole :: "f32 \<Rightarrow> bool" where
  "whole n \<longleftrightarrow> (\<exists>k. n = fl k \<and> 0 \<le> k \<and> k < 2 ^ 24)"

definition whole_queue :: "queue \<Rightarrow> bool" where
  "whole_queue qs \<longleftrightarrow> list_all (\<lambda>x. whole (snd x)) qs"

definition total :: "queue \<Rightarrow> int" where
  "total qs = sum_list (map snd qs)"

lemma total_simps [simp]: "total [] = 0" "total ((x, m) # qs) = m + total qs" "total (qs @ ps) = total qs + total ps"
  by (simp_all add: total_def)

lemma whole_queue_simps [simp]: "whole_queue []" "whole_queue ((x, m) # qs) \<longleftrightarrow> whole m \<and> whole_queue qs"
  "whole_queue (qs @ ps) \<longleftrightarrow> whole_queue qs \<and> whole_queue ps"
  by (simp_all add: whole_queue_def)

lemma fsub32_whole: "whole m \<Longrightarrow> whole n \<Longrightarrow> n \<le> m \<Longrightarrow> fsub32 m n = m - n \<and> whole (fsub32 m n)"
  by (auto simp: whole_def fsub32_def fl_diff rnd32_fl intro!: exI [of _ "_ - _"])

lemma fill_queue_total:
  "fill_queue aon n qs = (n', qs') \<Longrightarrow> whole n \<Longrightarrow> whole_queue qs \<Longrightarrow>
   n - n' = total qs - total qs' \<and> whole n' \<and> whole_queue qs'"
proof (induction aon n qs arbitrary: n' qs' rule: fill_queue.induct)
  case (2 aon n x m qs)
  have "whole 0" by (auto simp: whole_def intro: exI [of _ 0])
  with 2 show ?case using fsub32_whole [of m n] fsub32_whole [of n m]
    by (auto split: if_splits prod.splits)
qed simp

lemma match_levels_total:
  "match_levels aon cross n vs mp = (r, n', vs', mp') \<Longrightarrow> whole n \<Longrightarrow> whole_queue (line vs) \<Longrightarrow>
   n - n' = total (line vs) - total (line vs') \<and> whole n' \<and> whole_queue (line vs')"
proof (induction vs arbitrary: n mp r n' vs' mp')
  case (Cons v vs)
  note fq = fill_queue_total [OF _ Cons.prems(2), of aon "lv_queue v"]
  from Cons.prems(1) show ?case
  proof (cases rule: match_levels_cases)
    case (skipped ws)
    with Cons.IH [OF skipped(2)] Cons.prems show ?thesis by simp
  next
    case (enough cp qs)
    with fq [OF enough(2)] Cons.prems(3) show ?thesis by simp
  next
    case (short cp k qs ws)
    with fq [OF short(2)] Cons.IH [OF short(4)] Cons.prems(3) show ?thesis by simp
  qed (use Cons.prems in simp)
qed simp

section \<open>The price of a trade\<close>

lemma match_levels_price:
  "match_levels aon cross n vs mp = (r, n', vs', mp') \<Longrightarrow>
   mp' = mp \<or> (\<exists>v \<in> set vs. cross (lv_price v) = Some mp')"
proof (induction vs arbitrary: n mp r n' vs' mp')
  case (Cons v vs)
  from Cons.prems show ?case
  proof (cases rule: match_levels_cases)
    case (skipped ws)
    with Cons.IH [OF skipped(2)] show ?thesis by auto
  next
    case (short cp k qs ws)
    with Cons.IH [OF short(4)] show ?thesis by auto
  qed auto
qed simp

end
