(* ===== verification/Session.thy ===== *)
theory Session
  imports Adding
begin

text \<open>
  A session of trading: a new book and the orders added to it one after the other, each a new
  object. Every book of a session is well formed and not crossed, and adding the next order
  always returns.
\<close>

section \<open>A new order object\<close>

definition fresh_order :: "order \<Rightarrow> bool" where
  "fresh_order qo \<longleftrightarrow>
     good_qty (current_qty qo) \<and> next_order qo = 0 \<and> prev_order qo = 0 \<and> \<not> cancelled qo"

definition alloc_order :: "nat \<Rightarrow> order \<Rightarrow> int \<Rightarrow> OrderBook \<Rightarrow> OrderBook" where
  "alloc_order q qo now b = b\<lparr>order_mem := (order_mem b)(q \<mapsto> qo), clock := now\<rparr>"

lemma seg_None: "seg mem p pv os nx \<Longrightarrow> mem q = None \<Longrightarrow> q \<notin> set os"
  by (auto dest: seg_dom)

lemma levels_None: "levels_ok b ls \<Longrightarrow> order_mem b q = None \<Longrightarrow> q \<notin> resting ls"
  by (induction b ls rule: levels_ok.induct) (auto simp: links_def dest: seg_None)

lemma alloc_frame: "order_mem b q = None \<Longrightarrow> book_frame {} {q} b (b\<lparr>order_mem := (order_mem b)(q \<mapsto> qo)\<rparr>)"
  by (simp add: book_frame_def)

lemma alloc_keys:
  assumes K: "keys_ok b lt t" and new: "order_mem b q = None"
    and lt: "\<And>k j. k \<noteq> q \<Longrightarrow> j \<noteq> q \<Longrightarrow> lt' k j = lt k j"
    and mem: "\<And>k. k \<noteq> q \<Longrightarrow> order_mem b' k = order_mem b k"
  shows "keys_ok b' lt' t"
proof -
  obtain xs where xs: "is_index lt t xs" "\<forall>x \<in> set xs. order_mem b (snd x) \<noteq> None"
    using K by (auto simp: keys_ok_def)
  then have "q \<notin> snd ` set xs" using new by auto
  then have "is_index lt' t xs" using lt by (intro is_index_cong [OF xs(1)]) metis
  moreover have "\<forall>x \<in> set xs. order_mem b' (snd x) \<noteq> None"
    using xs(2) mem \<open>q \<notin> snd ` set xs\<close> by (metis image_eqI)
  ultimately show ?thesis by (auto simp: keys_ok_def)
qed

lemma alloc_parked:
  assumes "parked_ok b" "order_mem b q = None"
  shows "parked_ok (alloc_order q qo now b)"
proof -
  let ?b = "alloc_order q qo now b"
  have mem: "order_mem ?b k = order_mem b k" if "k \<noteq> q" for k using that by (simp add: alloc_order_def)
  then have at: "order_at ?b k = order_at b k" if "k \<noteq> q" for k using that by (simp add: order_at_def)
  have "keys_ok ?b (ask_stop_lt ?b) (ask_stop_orders b)"
    by (rule alloc_keys [where lt = "ask_stop_lt b", OF _ assms(2) _ mem])
       (use assms(1) at in \<open>simp_all add: parked_ok_def ask_stop_lt_def\<close>)
  moreover have "keys_ok ?b (bid_stop_lt ?b) (bid_stop_orders b)"
    by (rule alloc_keys [where lt = "bid_stop_lt b", OF _ assms(2) _ mem])
       (use assms(1) at in \<open>simp_all add: parked_ok_def bid_stop_lt_def\<close>)
  moreover have "keys_ok ?b (date_lt ?b) (date_orders b)"
    by (rule alloc_keys [where lt = "date_lt b", OF _ assms(2) _ mem])
       (use assms(1) at in \<open>simp_all add: parked_ok_def date_lt_def\<close>)
  ultimately show ?thesis by (simp add: parked_ok_def) (simp add: alloc_order_def)
qed

lemma alloc_book:
  assumes ok: "book_ok b bl al" and new: "order_mem b q = None" "q \<noteq> 0" and qo: "fresh_order qo"
    and id: "map_of (orders b) (order_id qo) = None"
  shows "book_ok (alloc_order q qo now b) bl al" "arriving (alloc_order q qo now b) q qo (bl @ al)"
proof -
  let ?b = "b\<lparr>order_mem := (order_mem b)(q \<mapsto> qo)\<rparr>" and ?c = "alloc_order q qo now b"
  have S: "side_ok True b bl" "side_ok False b al" and I: "ids_ok b (resting bl \<union> resting al)"
    using ok by (simp_all add: book_ok_def book_struct_def)
  then have out: "q \<notin> resting bl" "q \<notin> resting al"
    using levels_None [OF _ new(1)] by (simp_all add: side_ok_def)
  have "side_ok True ?b bl" "side_ok False ?b al"
    using side_ok_other [OF S(1) alloc_frame [OF new(1)]] side_ok_other [OF S(2) alloc_frame [OF new(1)]] out
    by simp_all
  then have sides: "side_ok True ?c bl" "side_ok False ?c al"
    using side_ok_cong [of ?c ?b] by (simp_all add: alloc_order_def limits_of_def)
  have "order_at ?c x = order_at b x" if "x \<in> resting bl \<union> resting al" for x
    using that out by (auto simp: order_at_def alloc_order_def)
  moreover have "orders ?c = orders b" by (simp add: alloc_order_def)
  ultimately have "ids_ok ?c (resting bl \<union> resting al)"
    using I unfolding ids_ok_def by metis
  then show "book_ok ?c bl al"
    using ok sides alloc_parked [OF _ new(1), of qo now]
    by (auto simp: book_ok_def book_struct_def) (auto simp: alloc_order_def)
  show "arriving ?c q qo (bl @ al)"
    using qo out new id by (simp add: arriving_def incoming_def alloc_order_def fresh_order_def)
qed

section \<open>Sessions\<close>

inductive session :: "OrderBook \<Rightarrow> bool" where
  open_book: "session (empty_book instr mp Map.empty now)"
| order: "session b \<Longrightarrow> order_mem b q = None \<Longrightarrow> q \<noteq> 0 \<Longrightarrow> fresh_order qo \<Longrightarrow>
    map_of (orders b) (order_id qo) = None \<Longrightarrow>
    add_order q (alloc_order q qo now b) = Some (Inr (b', st)) \<Longrightarrow> session b'"

lemma add_order_returns:
  assumes ok: "book_ok b bl al" and q: "arriving b q qo (bl @ al)"
  shows "\<exists>b' st bl' al'. add_order q b = Some (Inr (b', st)) \<and> book_ok b' bl' al'"
proof (cases "parks (market_price b) qo")
  case True
  then show ?thesis using add_order_parks [OF ok _ True] q by (force simp: arriving_def incoming_def)
next
  case False
  then show ?thesis using add_order_book [OF ok q] by metis
qed

lemma session_book: "session b \<Longrightarrow> \<exists>bl al. book_ok b bl al"
proof (induction rule: session.induct)
  case (open_book instr mp now)
  show ?case using empty_book_ok by blast
next
  case (order b q qo now b' st)
  then obtain bl al where "book_ok b bl al" by blast
  note new = alloc_book [OF this order.hyps(2-5), of now]
  from add_order_returns [OF new] order.hyps(6) show ?case by (metis Inr_inject Pair_inject option.inject)
qed

end
