(* ===== verification/Book_Props.thy ===== *)
theory Book_Props
  imports Priority Session
begin

text \<open>
  The properties of the order book: what adding an order does to a well-formed book, told in the
  terms of the two sides and of the open quantities of their orders.
\<close>

section \<open>Adding an order, level by level\<close>

text \<open>The open orders of a side in price-time order.\<close>

definition side_line :: "OrderBook \<Rightarrow> side_shape \<Rightarrow> queue" where
  "side_line b ls = concat (map (\<lambda>lv. view b (snd lv)) ls)"

definition crosses :: "OrderBook \<Rightarrow> order \<Rightarrow> nat \<times> nat list \<Rightarrow> bool" where
  "crosses b qo lv \<longleftrightarrow>
     (if is_buy qo then limit_price (limit_at b (fst lv)) \<le> price qo
      else price qo \<le> limit_price (limit_at b (fst lv)))"

lemma line_level_of: "line (map (level_of b) ls) = side_line b ls"
  by (induction ls) (auto simp: side_line_def level_of_def)

lemma crosses_cross_at:
  "cross_at (price qo) ty (is_buy qo) (lv_price (level_of b lv)) \<noteq> None \<longleftrightarrow> crosses b qo lv"
  by (cases lv) (auto simp: cross_at_def crosses_def)

lemma side_line_cong: "(\<And>x. qty_at b' x = qty_at b x) \<Longrightarrow> side_line b' ls = side_line b ls"
  by (simp add: side_line_def view_def)

lemma release_views:
  assumes "order_mem b q = Some qo"
  shows "qty_at (release q qo b) x = qty_at b x" "level_of (release q qo b) = level_of b"
    "market_price (release q qo b) = market_price b" "price (order_at (release q qo b) q) = price qo"
    "trade_queue (release q qo b) = trade_queue b" "orders (release q qo b) = orders b"
proof -
  show qty: "qty_at (release q qo b) x = qty_at b x" for x
    using assms by (simp add: release_def qty_at_def order_at_def)
  then show "level_of (release q qo b) = level_of b"
    by (auto simp: level_of_def view_def volume_at_def limit_at_def release_def)
qed (use assms in \<open>simp_all add: release_def order_at_def\<close>)

text \<open>
  The facts about a completed \<open>add_order\<close>: what matching left, whether the order is filled, and
  what became of it.
\<close>

lemma add_order_facts:
  assumes ok: "book_ok b bl al" and q: "arriving b q qo (bl @ al)" and p: "\<not> parks (market_price b) qo"
    and add: "add_order q b = Some (Inr (b', st))"
  obtains own' opp' b1 where
    "book_ok b' (side_of (is_buy qo) own' opp') (side_of (is_buy qo) opp' own')"
    "(st = MATCHED, qty_at b' q, map (level_of b1) opp', market_price b') =
       match_levels (has_param (released qo) AON) (cross_at (price qo) (order_type qo) (is_buy qo))
         (current_qty qo) (map (level_of b) (side_of (\<not> is_buy qo) bl al)) (market_price b)"
    "shrinks (side_of (\<not> is_buy qo) bl al) opp'"
    "\<And>p. limit_price (limit_at b1 p) = limit_price (limit_at b p)" "\<And>x. qty_at b' x = qty_at b1 x"
    "if st = ACCEPTED then joins b' q (side_of (is_buy qo) bl al) own' \<and> \<not> has_param (released qo) FOK
     else own' = side_of (is_buy qo) bl al"
    "st = MATCHED \<or> st = ACCEPTED \<or> st = NOT_MATCHED \<and> has_param (released qo) FOK \<and> cancelled (order_at b' q)"
    "trade_queue b' = trade_queue b" "\<And>x. price (order_at b' x) = price (order_at b x)"
proof -
  let ?buy = "is_buy qo" let ?opp = "side_of (\<not> is_buy qo) bl al" let ?own = "side_of (is_buy qo) bl al"
  have qo: "order_mem b q = Some qo" using q by (simp add: arriving_def incoming_def)
  note rel = release_views [OF qo]
  obtain own' opp' where ok': "book_ok b' (side_of ?buy own' opp') (side_of ?buy opp' own')"
    and R: "add_result q qo ?own ?opp b st own' opp' b'"
    using add_order_book [OF ok q p] add by auto
  then obtain r b1 where m: "match_result (has_param (released qo) AON) (order_type qo) ?buy q ?opp (release q qo b) r opp' b1"
    and cs: "if r then st = MATCHED \<and> b' = b1 \<and> own' = ?own
       else if has_param (released qo) FOK then
         st = NOT_MATCHED \<and> own' = ?own \<and>
         b' = b1\<lparr>order_mem := (order_mem b1)(q := map_option cancel (order_mem b1 q))\<rparr>
       else st = ACCEPTED \<and> joins b' q ?own own' \<and> same_core b1 b' \<and> (\<forall>x. qty_at b' x = qty_at b1 x) \<and>
         map_of (orders b') (order_id qo) = Some q \<and> market_price b' = market_price b1 \<and>
         trade_queue b' = trade_queue b1"
    by (auto simp: add_result_def)
  have post: "shrinks ?opp opp'" "book_frame (fst ` set ?opp) (insert q (resting ?opp)) (release q qo b) b1"
    "same_core (release q qo b) b1"
    using m by (simp_all add: match_result_def match_post_def)
  have core: "price (order_at b1 x) = price (order_at b x)" for x
    using core_eqD(3) [OF same_coreD(1) [OF post(3), of x]] qo
    by (cases "x = q") (simp_all add: release_def order_at_def)
  have "order_mem b1 q \<noteq> None" using same_coreD(2) [OF post(3), of q] by (simp add: release_def)
  then obtain qo1 where qo1: "order_mem b1 q = Some qo1" by auto
  consider "r" | "\<not> r" "has_param (released qo) FOK" | "\<not> r" "\<not> has_param (released qo) FOK" by blast
  then have qty: "qty_at b' x = qty_at b1 x" and pr: "price (order_at b' x) = price (order_at b1 x)"
    and st: "st = MATCHED \<longleftrightarrow> r" "market_price b' = market_price b1" "trade_queue b' = trade_queue b1" for x
    using cs qo1 core_eqD(3) [OF same_coreD(1), of b1 b' x]
    by (cases; simp add: qty_at_def order_at_def cancel_def split: if_splits)+
  show thesis
  proof (rule that)
    show "book_ok b' (side_of ?buy own' opp') (side_of ?buy opp' own')" by (rule ok')
    show "(st = MATCHED, qty_at b' q, map (level_of b1) opp', market_price b') =
       match_levels (has_param (released qo) AON) (cross_at (price qo) (order_type qo) ?buy)
         (current_qty qo) (map (level_of b) ?opp) (market_price b)"
      using m qo by (simp add: match_result_def rel st qty qty_at_Some)
    show "shrinks ?opp opp'" by (rule post(1))
    show "limit_price (limit_at b1 p) = limit_price (limit_at b p)" for p
      using frame_price [OF post(2), of p] by (simp add: release_def limit_at_def)
    show "trade_queue b' = trade_queue b" using post(2) st(3) by (simp add: book_frame_def release_def)
    show "price (order_at b' x) = price (order_at b x)" for x using core pr by simp
    show "if st = ACCEPTED then joins b' q ?own own' \<and> \<not> has_param (released qo) FOK else own' = ?own"
      using cs by (auto split: if_splits)
    show "st = MATCHED \<or> st = ACCEPTED \<or> st = NOT_MATCHED \<and> has_param (released qo) FOK \<and> cancelled (order_at b' q)"
      using cs qo1 by (auto simp: order_at_def cancel_def split: if_splits)
  qed (rule qty)
qed

section \<open>The book is never crossed\<close>

definition uncrossed :: "OrderBook \<Rightarrow> side_shape \<Rightarrow> side_shape \<Rightarrow> bool" where
  "uncrossed b bl al \<longleftrightarrow>
     (\<forall>x \<in> resting bl. \<forall>y \<in> resting al. price (order_at b x) < price (order_at b y))"

lemma side_sorted:
  assumes "side_ok buy b ls"
  shows "sorted_wrt (\<lambda>v w. if buy then limit_price (limit_at b (fst w)) < limit_price (limit_at b (fst v))
    else limit_price (limit_at b (fst v)) < limit_price (limit_at b (fst w))) ls"
proof -
  obtain xs where xs: "is_index (limits_lt buy b) (limits_of buy b) xs" "map snd xs = map fst ls"
    using assms by (auto simp: side_ok_def)
  have "sorted_wrt (limits_lt buy b) (map fst ls)"
    using is_index_sorted [OF xs(1)] by (simp add: sorted_keys_def sorted_wrt_map flip: xs(2))
  then show ?thesis unfolding sorted_wrt_map
    by (rule sorted_wrt_mono_rel [rotated])
       (simp add: limits_lt_def bid_lt_def ask_lt_def LimitComparator_def split: if_splits)
qed

lemma shrinks_level:
  assumes "shrinks ls ls'" "(p, os') \<in> set ls'"
  shows "\<exists>os. (p, os) \<in> set ls \<and> set os' \<subseteq> set os"
  using assms unfolding shrinks_def
proof (induction rule: list_all2_induct)
  case (Cons x xs y ys)
  then show ?case by (cases x) auto
qed simp

text \<open>An order that is not filled leaves no order of the opposite side that it crosses.\<close>

lemma unfilled_uncrossed:
  assumes ok: "side_ok (\<not> is_buy qo) b opp" and S: "shrinks opp opp'"
    and ml: "(False, n', map (level_of b1) opp', mp') =
      match_levels False (cross_at (price qo) ty (is_buy qo)) n (map (level_of b) opp) mp"
    and n: "good_qty n" and pr: "\<And>p. limit_price (limit_at b1 p) = limit_price (limit_at b p)"
    and y: "y \<in> resting opp'"
  shows "if is_buy qo then price qo < price (order_at b y) else price (order_at b y) < price qo"
proof -
  let ?cross = "cross_at (price qo) ty (is_buy qo)"
  obtain p os' where os': "(p, os') \<in> set opp'" "y \<in> set os'" using y by (auto simp: resting_def)
  obtain os where os: "(p, os) \<in> set opp" "y \<in> set os" using shrinks_level [OF S os'(1)] os'(2) by blast
  have "price (order_at b y) = limit_price (limit_at b p)"
    using ok os by (auto simp: side_ok_def order_fits_def)
  moreover have "sorted_wrt (\<lambda>v w. ?cross (lv_price v) = None \<longrightarrow> ?cross (lv_price w) = None) (map (level_of b) opp)"
    using side_sorted [OF ok] unfolding sorted_wrt_map
    by (rule sorted_wrt_mono_rel [rotated]) (auto simp: cross_at_def level_of_def split: if_splits)
  from match_levels_unfilled [OF ml [symmetric] n this]
  have "?cross (lv_price (level_of b1 (p, os'))) = None"
    using os' by (force simp: view_def)
  then have "if is_buy qo then price qo < limit_price (limit_at b p) else limit_price (limit_at b p) < price qo"
    by (simp add: cross_at_def pr split: if_splits)
  ultimately show ?thesis by simp
qed

lemma add_order_uncrossed:
  assumes ok: "book_ok b bl al" and q: "arriving b q qo (bl @ al)" and p: "\<not> parks (market_price b) qo"
    and add: "add_order q b = Some (Inr (b', st))" and U: "uncrossed b bl al"
  shows "\<exists>bl' al'. book_ok b' bl' al' \<and> uncrossed b' bl' al'"
proof -
  let ?opp = "side_of (\<not> is_buy qo) bl al" let ?own = "side_of (is_buy qo) bl al"
  obtain own' opp' b1 where f: "book_ok b' (side_of (is_buy qo) own' opp') (side_of (is_buy qo) opp' own')"
    "(st = MATCHED, qty_at b' q, map (level_of b1) opp', market_price b') =
       match_levels (has_param (released qo) AON) (cross_at (price qo) (order_type qo) (is_buy qo))
         (current_qty qo) (map (level_of b) ?opp) (market_price b)"
    "shrinks ?opp opp'" "\<And>p. limit_price (limit_at b1 p) = limit_price (limit_at b p)"
    "if st = ACCEPTED then joins b' q ?own own' \<and> \<not> has_param (released qo) FOK else own' = ?own"
    "\<And>x. price (order_at b' x) = price (order_at b x)"
    using add_order_facts [OF ok q p add] by metis
  have qo: "order_at b q = qo" "good_qty (current_qty qo)" using q by (simp_all add: arriving_def incoming_def)
  have sub: "resting opp' \<subseteq> resting ?opp" using shrinksD(2) [OF f(3)] .
  have side: "side_ok (\<not> is_buy qo) b ?opp"
    using ok by (cases "is_buy qo") (simp_all add: book_ok_def book_struct_def side_of_def)
  have "if is_buy qo then price qo < price (order_at b y) else price (order_at b y) < price qo"
    if "st = ACCEPTED" "y \<in> resting opp'" for y
  proof -
    have "\<not> has_param (released qo) AON" using f(5) that(1) by (simp add: has_param_FOK)
    then show ?thesis
      using unfilled_uncrossed [OF side f(3) _ qo(2) f(4) that(2)] f(2) that(1) by auto
  qed
  then have "uncrossed b' (side_of (is_buy qo) own' opp') (side_of (is_buy qo) opp' own')"
    using U sub f(5) qo joins_resting [of b' q ?own own']
    by (cases "is_buy qo"; cases "st = ACCEPTED") (fastforce simp: uncrossed_def side_of_def f(6))+
  with f(1) show ?thesis by blast
qed

lemma session_uncrossed: "session b \<Longrightarrow> \<exists>bl al. book_ok b bl al \<and> uncrossed b bl al"
proof (induction rule: session.induct)
  case (open_book instr mp now)
  show ?case using empty_book_ok by (fastforce simp: uncrossed_def)
next
  case (order b q qo now b' st)
  let ?b = "alloc_order q qo now b"
  obtain bl al where bl: "book_ok b bl al" "uncrossed b bl al" using order.IH by blast
  note new = alloc_book [OF bl(1) order.hyps(2-5), of now]
  have out: "q \<notin> resting bl" "q \<notin> resting al" using new(2) by (simp_all add: arriving_def incoming_def)
  have "order_at ?b x = order_at b x" if "x \<noteq> q" for x
    using that by (simp add: order_at_def alloc_order_def)
  then have U: "uncrossed ?b bl al" using bl(2) out unfolding uncrossed_def by metis
  show ?case
  proof (cases "parks (market_price ?b) qo")
    case True
    have "order_mem ?b q = Some qo" by (simp add: alloc_order_def)
    from add_order_parks [OF new(1) this True] order.hyps(6) U show ?thesis
      by (auto simp: uncrossed_def order_at_def)
  next
    case False
    from add_order_uncrossed [OF new False order.hyps(6) U] show ?thesis .
  qed
qed

end
