(* ===== verification/Book_Query.thy ===== *)
theory Book_Query
  imports Book_Props
begin

text \<open>
  The queries of the book and the removal of an order: the lists and the snapshot follow the two
  sides, a cancelled order leaves its list, and the id map forgets it.
\<close>

section \<open>Walking the limits\<close>

lemma list_from_seg: "seg (order_mem b) p pv os 0 \<Longrightarrow> list_from b (first_or os 0) acc = Some (acc @ os)"
proof (induction os arbitrary: pv acc)
  case Nil
  show ?case by (subst list_from.simps) simp
next
  case (Cons x os)
  then obtain ord where "order_mem b x = Some ord" "next_order ord = first_or os 0" "x \<noteq> 0"
    "seg (order_mem b) p x os 0" by auto
  with Cons.IH [of x "acc @ [x]"] show ?case by (subst list_from.simps) simp
qed

lemma list_limits_index:
  assumes "is_index lt t (ys @ zs)" "map snd zs = map fst ls" "levels_ok b ls"
  shows "list_limits b t (it_of (nil t) zs) acc = Some (acc @ concat (map snd ls))"
  using assms
proof (induction zs arbitrary: ys ls acc)
  case Nil
  then show ?case by (subst list_limits.simps) (simp add: valid_it_def)
next
  case (Cons z zs)
  obtain a p where z: "z = (a, p)" by (cases z)
  with Cons.prems(2) obtain os ls' where ls: "ls = (p, os) # ls'" by (cases ls) auto
  have I: "is_index lt t (ys @ (a, p) # zs)" using Cons.prems(1) z by simp
  obtain l where l: "limit_mem b p = Some l" "head_order l = first_or os 0" "seg (order_mem b) p 0 os 0"
    using Cons.prems(3) ls by (auto simp: links_def)
  have "list_limits b t a acc = list_limits b t (it_of (nil t) zs) (acc @ os)"
    using index_reads [OF I] l list_from_seg [OF l(3)] by (subst list_limits.simps) (simp add: valid_it_def)
  with Cons.IH [of "ys @ [z]" ls' "acc @ os"] Cons.prems z ls show ?case by simp
qed

lemma snapshot_limits_index:
  assumes "is_index lt t (ys @ zs)" "map snd zs = map fst ls" "levels_ok b ls"
  shows "snapshot_limits b t (it_of (nil t) zs) acc = Some (acc @
    map (\<lambda>lv. \<lparr>snap_price = limit_price (limit_at b (fst lv)), snap_qty = to_f32 (volume_at b (fst lv))\<rparr>) ls)"
  using assms
proof (induction zs arbitrary: ys ls acc)
  case Nil
  then show ?case by (subst snapshot_limits.simps) (simp add: valid_it_def)
next
  case (Cons z zs)
  obtain a p where z: "z = (a, p)" by (cases z)
  with Cons.prems(2) obtain os ls' where ls: "ls = (p, os) # ls'" by (cases ls) auto
  have I: "is_index lt t (ys @ (a, p) # zs)" using Cons.prems(1) z by simp
  obtain l where l: "limit_mem b p = Some l" using Cons.prems(3) ls by (auto simp: links_def)
  have "snapshot_limits b t a acc = snapshot_limits b t (it_of (nil t) zs)
      (acc @ [\<lparr>snap_price = limit_price l, snap_qty = get_active_volume l\<rparr>])"
    using index_reads [OF I] l by (subst snapshot_limits.simps) (simp add: valid_it_def)
  moreover have "limit_at b p = l" using l by (simp add: limit_at_def)
  ultimately show ?case
    using Cons.IH [of "ys @ [z]" ls'] Cons.prems z ls by (simp add: volume_at_def get_active_volume_def)
qed

lemma levels_distinct: "levels_ok b ls \<Longrightarrow> distinct (concat (map snd ls))"
  by (induction b ls rule: levels_ok.induct) (auto simp: links_def resting_def)

lemma side_queries:
  assumes "side_ok buy b ls"
  shows "list_limits b (limits_of buy b) (begin_it (limits_of buy b)) [] = Some (concat (map snd ls))"
    "snapshot_limits b (limits_of buy b) (begin_it (limits_of buy b)) [] = Some
      (map (\<lambda>lv. \<lparr>snap_price = limit_price (limit_at b (fst lv)), snap_qty = to_f32 (volume_at b (fst lv))\<rparr>) ls)"
proof -
  obtain xs where xs: "is_index (limits_lt buy b) (limits_of buy b) xs" "map snd xs = map fst ls" "levels_ok b ls"
    using assms by (auto simp: side_ok_def)
  with list_limits_index [of _ _ "[]" xs ls b "[]"] snapshot_limits_index [of _ _ "[]" xs ls b "[]"] index_begin [OF xs(1)]
  show "list_limits b (limits_of buy b) (begin_it (limits_of buy b)) [] = Some (concat (map snd ls))"
    "snapshot_limits b (limits_of buy b) (begin_it (limits_of buy b)) [] = Some
      (map (\<lambda>lv. \<lparr>snap_price = limit_price (limit_at b (fst lv)), snap_qty = to_f32 (volume_at b (fst lv))\<rparr>) ls)"
    by simp_all
qed

lemma side_first_last:
  assumes ok: "side_ok buy b ls"
  shows "rb_first (limits_of buy b) = Some (if ls = [] then None else Some (fst (hd ls)))"
    "ls \<noteq> [] \<Longrightarrow> rb_last (limits_of buy b) = Some (Some (fst (last ls)))"
    "ls \<noteq> [] \<Longrightarrow> price_behind b (Some (fst (last ls))) = Some (limit_price (limit_at b (fst (last ls))))"
    "ls \<noteq> [] \<Longrightarrow> price_behind b (Some (fst (hd ls))) = Some (limit_price (limit_at b (fst (hd ls))))"
proof -
  obtain xs where xs: "is_index (limits_lt buy b) (limits_of buy b) xs" "map snd xs = map fst ls" "levels_ok b ls"
    using ok by (auto simp: side_ok_def)
  have ne: "xs = [] \<longleftrightarrow> ls = []" using xs(2) by (metis Nil_is_map_conv)
  have "ls \<noteq> [] \<Longrightarrow> snd (hd xs) = fst (hd ls)" "ls \<noteq> [] \<Longrightarrow> snd (last xs) = fst (last ls)"
    using xs(2) ne by (metis hd_map, metis last_map)
  with is_index_first [OF xs(1)] is_index_last [OF xs(1)] ne
  show "rb_first (limits_of buy b) = Some (if ls = [] then None else Some (fst (hd ls)))"
    "ls \<noteq> [] \<Longrightarrow> rb_last (limits_of buy b) = Some (Some (fst (last ls)))"
    by simp_all
  have "price_behind b (Some p) = Some (limit_price (limit_at b p))" if "p \<in> fst ` set ls" for p
    using levels_names [OF xs(3) that] by (auto simp: price_behind_def limit_at_def)
  then show "ls \<noteq> [] \<Longrightarrow> price_behind b (Some (fst (last ls))) = Some (limit_price (limit_at b (fst (last ls))))"
    "ls \<noteq> [] \<Longrightarrow> price_behind b (Some (fst (hd ls))) = Some (limit_price (limit_at b (fst (hd ls))))"
    by simp_all
qed

lemma snapshot_book:
  assumes "book_ok b bl al" "bl \<noteq> []" "al \<noteq> []"
  shows "get_snapshot b = Some
    \<lparr>asks = map (\<lambda>lv. \<lparr>snap_price = limit_price (limit_at b (fst lv)), snap_qty = to_f32 (volume_at b (fst lv))\<rparr>) al,
     bids = map (\<lambda>lv. \<lparr>snap_price = limit_price (limit_at b (fst lv)), snap_qty = to_f32 (volume_at b (fst lv))\<rparr>) bl,
     spread = \<lparr>best_bid_price = limit_price (limit_at b (fst (last bl))),
       best_ask_price = limit_price (limit_at b (fst (hd al))), spread_market_price = market_price b\<rparr>\<rparr>"
proof -
  have S: "side_ok True b bl" "side_ok False b al" using assms by (simp_all add: book_ok_def book_struct_def)
  show ?thesis
    using side_queries(2) [OF S(1)] side_queries(2) [OF S(2)] side_first_last [OF S(1)] side_first_last [OF S(2)] assms
    by (simp add: get_snapshot_def get_snapshot_asks_def get_snapshot_bids_def get_spread_def limits_of_def)
qed

section \<open>Removing an order\<close>

definition drop_order :: "nat \<Rightarrow> side_shape \<Rightarrow> side_shape" where
  "drop_order q ls = map (\<lambda>(p, os). (p, filter (\<lambda>x. x \<noteq> q) os)) ls"

lemma drop_order_simps [simp]: "drop_order q [] = []"
  "drop_order q ((p, os) # ls) = (p, filter (\<lambda>x. x \<noteq> q) os) # drop_order q ls"
  "drop_order q (ls @ ks) = drop_order q ls @ drop_order q ks"
  by (simp_all add: drop_order_def)

lemma drop_order_id: "q \<notin> resting ls \<Longrightarrow> drop_order q ls = ls"
proof (induction ls)
  case (Cons v ls)
  then show ?case by (cases v) (auto simp: filter_id_conv)
qed simp

lemma resting_drop: "resting (drop_order q ls) = resting ls - {q}"
proof (induction ls)
  case (Cons v ls)
  then show ?case by (cases v) auto
qed simp

lemma map_fst_drop: "map fst (drop_order q ls) = map fst ls"
  by (auto simp: drop_order_def)

lemma resting_focus:
  assumes "q \<in> resting ls" "levels_ok b ls"
  obtains ls1 p xs ys ls2 where "ls = ls1 @ (p, xs @ q # ys) # ls2" "drop_order q ls = ls1 @ (p, xs @ ys) # ls2"
proof -
  obtain p os where os: "(p, os) \<in> set ls" "q \<in> set os" using assms(1) by (auto simp: resting_def)
  obtain ls1 ls2 where ls: "ls = ls1 @ (p, os) # ls2" using os(1) by (meson split_list)
  obtain xs ys where o: "os = xs @ q # ys" using os(2) by (meson split_list)
  have "q \<notin> resting ls1" "q \<notin> resting ls2" "distinct os"
    using assms(2) os(2) ls by (auto simp: levels_ok_append links_def)
  moreover from this o have "filter (\<lambda>x. x \<noteq> q) xs = xs" "filter (\<lambda>x. x \<noteq> q) ys = ys"
    by (auto intro!: filter_True)
  ultimately have "drop_order q ls = ls1 @ (p, xs @ ys) # ls2"
    using ls o by (simp add: drop_order_id)
  with ls o that show ?thesis by blast
qed

text \<open>The order is marked as cancelled first.\<close>

definition mark :: "nat \<Rightarrow> OrderBook \<Rightarrow> OrderBook" where
  "mark q b = b\<lparr>order_mem := (order_mem b)(q := map_option cancel (order_mem b q))\<rparr>"

lemma mark_frame: "book_frame {} {q} b (mark q b)"
  by (simp add: book_frame_def mark_def)

lemma seg_mark: "seg (order_mem (mark q b)) p pv os nx = seg (order_mem b) p pv os nx"
proof (induction os arbitrary: pv)
  case (Cons x os)
  then show ?case by (cases "x = q"; cases "order_mem b q") (auto simp: mark_def cancel_def)
qed simp

lemma mark_at: "order_at (mark q b) x = (if x = q \<and> order_mem b q \<noteq> None then cancel (order_at b q) else order_at b x)"
  by (auto simp: mark_def order_at_def)

lemma mark_qty: "qty_at (mark q b) x = qty_at b x"
  by (simp add: qty_at_def mark_at cancel_def)

lemma mark_levels: "levels_ok (mark q b) ls = levels_ok b ls"
proof (induction ls)
  case (Cons v ls)
  have "limit_mem (mark q b) = limit_mem b" by (simp add: mark_def)
  with Cons show ?case
    by (cases v) (simp add: links_def seg_mark view_def mark_qty volume_at_def limit_at_def)
qed simp

lemma mark_keys: "same_keys b (mark q b)"
  unfolding same_keys_def by (auto simp: mark_at cancel_def) (auto simp: mark_def split: if_splits)

lemma remove_limit_order_levels:
  assumes L: "levels_ok b (ls1 @ (p, xs @ q # ys) # ls2)"
  shows "\<exists>b'. remove_limit_order q b = Some b' \<and> levels_ok b' (ls1 @ (p, xs @ ys) # ls2) \<and>
    book_frame {p} (set xs \<union> set ys) b b' \<and> same_core b b' \<and> order_mem b' q = order_mem b q \<and>
    erases {q} b b' \<and> map_of (orders b') (order_id (order_at b q)) = None"
proof -
  have lk: "links b p (xs @ q # ys)" using L by (simp add: levels_ok_append)
  then obtain l ord where l: "limit_mem b p = Some l" and q: "order_mem b q = Some ord"
    by (auto simp: links_def dest: seg_dom)
  obtain b' l' where b': "remove_limit_order q b = Some b'" "links b' p (xs @ ys)"
    "book_frame {p} (set xs \<union> set ys) b b'"
    "\<And>x. map_option linkless (order_mem b' x) = map_option linkless (order_mem b x)"
    "order_mem b' q = Some ord" "limit_mem b' p = Some l'"
    "active_volume l' = max 0 (fsub64 (active_volume l) (current_qty ord))"
    "orders b' = AList.delete (order_id ord) (orders b)"
    using remove_limit_order_links [OF lk l q] by blast
  note core = same_core_linkless [OF b'(4)]
  have out: "fst ` set ls1 \<inter> {p} = {}" "resting ls1 \<inter> (set xs \<union> set ys) = {}"
    "fst ` set ls2 \<inter> {p} = {}" "resting ls2 \<inter> (set xs \<union> set ys) = {}"
    using L by (auto simp: levels_ok_append)
  have "levels_ok b' ls1" "levels_ok b' ls2"
    using frame_levels [OF b'(3) out(1,2)] frame_levels [OF b'(3) out(3,4)] L by (simp_all add: levels_ok_append)
  moreover have "good_volume (volume_at b' p)"
    using b'(6,7) by (simp add: good_volume_def volume_at_def limit_at_def fsub64_def max_def f64.rnd_idem)
  moreover have "view b' (xs @ ys) = view b (xs @ ys)" by (rule view_cong) (simp add: core(2))
  ultimately have "levels_ok b' (ls1 @ (p, xs @ ys) # ls2)"
    using L b'(2) by (auto simp: levels_ok_append)
  moreover have "erases {q} b b'" "map_of (orders b') (order_id (order_at b q)) = None"
    using q b'(8) by (auto simp: erases_def delete_conv')
  ultimately show ?thesis using b' core(1) q by auto
qed

lemma cancelled_side:
  assumes ok: "side_ok buy b ls" and q: "q \<in> resting ls"
  shows "\<exists>b' p X. remove_limit_order q (mark q b) = Some b' \<and> side_ok buy b' (drop_order q ls) \<and>
    book_frame {p} X (mark q b) b' \<and> p \<in> fst ` set ls \<and> X \<subseteq> resting ls \<and> same_core (mark q b) b' \<and>
    order_mem b' q = order_mem (mark q b) q \<and> erases {q} (mark q b) b' \<and>
    map_of (orders b') (order_id (order_at b q)) = None"
proof -
  have L: "levels_ok b ls" using ok by (simp add: side_ok_def)
  obtain ls1 p xs ys ls2 where ls: "ls = ls1 @ (p, xs @ q # ys) # ls2" "drop_order q ls = ls1 @ (p, xs @ ys) # ls2"
    using resting_focus [OF q L] by blast
  have id: "order_id (order_at (mark q b) q) = order_id (order_at b q)" by (simp add: mark_at cancel_def)
  have "levels_ok (mark q b) (ls1 @ (p, xs @ q # ys) # ls2)" using L ls(1) by (simp add: mark_levels)
  from remove_limit_order_levels [OF this] id obtain b' where
    b': "remove_limit_order q (mark q b) = Some b'" "levels_ok b' (drop_order q ls)"
      "book_frame {p} (set xs \<union> set ys) (mark q b) b'" "same_core (mark q b) b'"
      "order_mem b' q = order_mem (mark q b) q" "erases {q} (mark q b) b'"
      "map_of (orders b') (order_id (order_at b q)) = None"
    unfolding ls(2) by auto
  have pr: "limit_price (limit_at b' r) = limit_price (limit_at b r)" for r
    using frame_price [OF b'(3), of r] frame_price [OF mark_frame, of q b r] by simp
  have "limits_of buy b' = limits_of buy b"
    using b'(3) by (simp add: book_frame_def limits_of_def mark_def)
  moreover have "limits_lt buy b' = limits_lt buy b" by (rule limits_lt_cong) (rule pr)
  moreover have "order_fits b' buy r x" if r: "(r, os) \<in> set (drop_order q ls)" "x \<in> set os" for r os x
  proof -
    obtain os0 where "(r, os0) \<in> set ls" "x \<in> set os0" "x \<noteq> q"
      using r by (auto simp: drop_order_def)
    then have "order_fits b buy r x" using ok by (auto simp: side_ok_def)
    with \<open>x \<noteq> q\<close> core_eqD [OF same_coreD(1) [OF b'(4), of x]] pr show ?thesis
      by (simp add: order_fits_def mark_at is_buy_def)
  qed
  ultimately have "side_ok buy b' (drop_order q ls)"
    using ok b'(2) map_fst_drop [of q ls] by (auto simp: side_ok_def)
  moreover have "p \<in> fst ` set ls" "set xs \<union> set ys \<subseteq> resting ls" using ls(1) by auto
  ultimately show ?thesis using b' by blast
qed

lemma resting_Some: "side_ok buy b ls \<Longrightarrow> q \<in> resting ls \<Longrightarrow> order_mem b q \<noteq> None"
  using levels_None [of b ls q] by (auto simp: side_ok_def)

lemma remove_resting:
  assumes ok: "book_ok b bl al" and q: "q \<in> resting bl \<union> resting al"
  shows "\<exists>b'. remove_limit_order q (mark q b) = Some b' \<and> book_ok b' (drop_order q bl) (drop_order q al) \<and>
    cancelled (order_at b' q) \<and> map_of (orders b') (order_id (order_at b q)) = None"
proof -
  define buy where "buy \<longleftrightarrow> q \<in> resting bl"
  let ?own = "side_of buy bl al" let ?opp = "side_of (\<not> buy) bl al" let ?m = "mark q b"
  have S: "side_ok buy b ?own" "side_ok (\<not> buy) b ?opp" and q': "q \<in> resting ?own" "q \<notin> resting ?opp"
    and I: "ids_ok b (resting bl \<union> resting al)" and dis: "fst ` set ?own \<inter> fst ` set ?opp = {}"
      "resting ?own \<inter> resting ?opp = {}"
    using ok q by (cases buy; auto simp: buy_def side_of_def book_ok_def book_struct_def)+
  obtain b' p X where b': "remove_limit_order q ?m = Some b'" "side_ok buy b' (drop_order q ?own)"
    "book_frame {p} X ?m b'" "p \<in> fst ` set ?own" "X \<subseteq> resting ?own" "same_core ?m b'"
    "order_mem b' q = order_mem ?m q" "erases {q} ?m b'" "map_of (orders b') (order_id (order_at b q)) = None"
    using cancelled_side [OF S(1) q'(1)] by blast
  have "side_ok (\<not> buy) ?m ?opp" using q' by (intro side_ok_other [OF S(2) mark_frame]) auto
  then have "side_ok (\<not> buy) b' ?opp" using dis b'(4,5) by (intro side_ok_other [OF _ b'(3)]) auto
  then have opp: "side_ok (\<not> buy) b' (drop_order q ?opp)" using q'(2) by (simp add: drop_order_id)
  have sides: "side_ok True b' (drop_order q bl)" "side_ok False b' (drop_order q al)"
    using b'(2) opp by (cases buy; simp add: side_of_def)+
  have "ids_ok ?m (resting bl \<union> resting al)"
    using I by (simp add: ids_ok_def mark_at cancel_def) (simp add: mark_def cong: conj_cong)
  then have "ids_ok b' (resting bl \<union> resting al - {q})" using q by (intro ids_ok_erases [OF _ b'(8,6)]) auto
  moreover have "resting (drop_order q bl) \<union> resting (drop_order q al) = resting bl \<union> resting al - {q}"
    by (auto simp: resting_drop)
  moreover have "parked_ok b'"
    using ok parked_ok_frame [OF parked_ok_frame [OF _ mark_frame mark_keys] b'(3) same_core_keys [OF b'(6)]]
    by (simp add: book_ok_def book_struct_def)
  moreover have "\<forall>p \<ge> next_limit b'. limit_mem b' p = None"
    using ok frame_fresh_limits [OF frame_fresh_limits [OF _ mark_frame] b'(3)]
    by (simp add: book_ok_def book_struct_def)
  moreover have "fst ` set (drop_order q ls) = fst ` set ls" for ls
    using map_fst_drop [of q ls] by (metis list.set_map)
  ultimately have "book_ok b' (drop_order q bl) (drop_order q al)"
    using ok sides by (auto simp: book_ok_def book_struct_def resting_drop)
  moreover have "cancelled (order_at b' q)"
    using b'(7) resting_Some [OF S(1) q'(1)] by (auto simp: order_at_def mark_def cancel_def)
  ultimately show ?thesis using b'(1,9) by blast
qed

lemma levels_good: "levels_ok b ls \<Longrightarrow> q \<in> resting ls \<Longrightarrow> good_qty (qty_at b q)"
  by (induction b ls rule: levels_ok.induct) (auto simp: good_queue_def list_all_iff view_def)

lemma resting_order:
  assumes "side_ok buy b ls" "q \<in> resting ls"
  shows "good_qty (qty_at b q) \<and> \<not> cancelled (order_at b q) \<and> is_buy (order_at b q) = buy"
proof -
  obtain p os where "(p, os) \<in> set ls" "q \<in> set os" using assms(2) by (auto simp: resting_def)
  with assms levels_good show ?thesis by (auto simp: side_ok_def order_fits_def)
qed

lemma mod_order_mark: "order_mem b q \<noteq> None \<Longrightarrow> mod_order cancel b q = Some (mark q b)"
  by (auto simp: mod_order_def mark_def)

lemma listed_order:
  assumes "book_ok b bl al" "map_of (orders b) i = Some q"
  shows "q \<in> resting bl \<union> resting al" "order_id (order_at b q) = i" "order_mem b q \<noteq> None"
proof -
  show q: "q \<in> resting bl \<union> resting al" "order_id (order_at b q) = i"
    using assms by (auto simp: book_ok_def ids_ok_def)
  then show "order_mem b q \<noteq> None"
    using assms(1) resting_Some [of True b bl q] resting_Some [of False b al q]
    by (auto simp: book_ok_def book_struct_def)
qed

lemma mark_param: "order_mem (mark q b) q = Some ord \<Longrightarrow> has_param ord f = has_param (order_at b q) f"
  by (auto simp: mark_def order_at_def cancel_def has_param_def)

lemma cancel_order_book:
  assumes ok: "book_ok b bl al" and i: "map_of (orders b) i = Some q" and s: "\<not> has_param (order_at b q) STOP"
  shows "\<exists>b'. cancel_order i b = Some (Inl (Erased_entry, b')) \<and>
    book_ok b' (drop_order q bl) (drop_order q al) \<and> cancelled (order_at b' q) \<and> map_of (orders b') i = None"
proof -
  note q = listed_order [OF ok i]
  obtain b' where b': "remove_limit_order q (mark q b) = Some b'" "book_ok b' (drop_order q bl) (drop_order q al)"
    "cancelled (order_at b' q)" "map_of (orders b') i = None"
    using remove_resting [OF ok q(1)] q(2) by auto
  obtain ord where "order_mem (mark q b) q = Some ord" using q(3) by (auto simp: mark_def)
  with b' i s mark_param [of q b ord STOP] mod_order_mark [OF q(3)] show ?thesis
    by (auto simp: cancel_order_def)
qed

lemma modify_order_erased:
  assumes ok: "book_ok b bl al" and n: "order_mem b n = Some new" and i: "map_of (orders b) (order_id new) = Some q"
    and s: "\<not> has_param (order_at b q) STOP"
  shows "\<exists>b'. modify_order n b = Some (Inl (Erased_entry, b')) \<and>
    book_ok b' (drop_order q bl) (drop_order q al) \<and> map_of (orders b') (order_id new) = None"
proof -
  note q = listed_order [OF ok i]
  obtain b' where b': "remove_limit_order q (mark q b) = Some b'" "book_ok b' (drop_order q bl) (drop_order q al)"
    "map_of (orders b') (order_id new) = None"
    using remove_resting [OF ok q(1)] q(2) by auto
  obtain ord where ord: "order_mem b q = Some ord" using q(3) by auto
  have "\<not> cancelled ord" "good_qty (current_qty ord)"
    using ok q(1) ord resting_order [of True b bl q] resting_order [of False b al q]
    by (auto simp: book_ok_def book_struct_def qty_at_def)
  with ord b' n i s mod_order_mark [OF q(3)] show ?thesis
    by (auto simp: modify_order_def is_cancelled_def is_fullfilled_def good_qty_def)
qed

end
