(* ===== verification/RBTree_Fixup.thy ===== *)
theory RBTree_Fixup
  imports RBTree_Index
begin

text \<open>
  The deletion fix-up (\<^verbatim>\<open>rebalance_delete\<close>): its loop ends, keeps the entries and restores the
  red-black invariants of a tree in which one subtree lacks one black node.
\<close>

section \<open>The state of the loop\<close>

text \<open>
  The loop is at a subtree \<open>s\<close>, possibly the sentinel, whose \<^verbatim>\<open>parent\<close> field leads to the path. Its root
  may be red below a red node; its black height is one short.
\<close>

definition linked :: "'a rbtree \<Rightarrow> 'a frame list \<Rightarrow> 'a shape \<Rightarrow> bool" where
  "linked t fs s \<longleftrightarrow> rep t (plug fs s) \<and> get_parent t (topaddr (nil t) s) = Some (above (nil t) fs)"

fun invc2 :: "'a shape \<Rightarrow> bool" where
  "invc2 Tip = True"
| "invc2 (Br c l a k r) = (invc l \<and> invc r)"

definition delete_state :: "'a rbtree \<Rightarrow> 'a frame list \<Rightarrow> 'a shape \<Rightarrow> bool" where
  "delete_state t fs s \<longleftrightarrow> linked t fs s \<and> invc2 s \<and> invh s \<and> path_ok (Suc (bheight s)) fs"

lemma invc2_black: "invc2 s \<Longrightarrow> black s \<Longrightarrow> invc s"
  by (cases s) auto

lemma linked_Br: "rep t (plug fs (Br c l a k r)) \<Longrightarrow> linked t fs (Br c l a k r)"
  by (simp add: linked_def rep_reads)

lemma linked_cong:
  assumes "linked t fs s" "same_meta t t'" "rep t' (plug fs' s)" "above (nil t) fs' = above (nil t) fs"
  shows "linked t' fs' s"
proof (cases s)
  case Tip
  then show ?thesis using assms by (simp add: linked_def same_meta_def get_parent_def)
next
  case (Br c l a k r)
  then show ?thesis using assms(3) by (simp add: linked_Br)
qed

text \<open>The node the loop is at, its parent and its sibling.\<close>

lemma linked_left:
  assumes L: "linked t (InL c p pk (Br sc sl sa sk sr) # fs) s"
  shows "get_parent t (topaddr (nil t) s) = Some p" "get_left t p = Some (topaddr (nil t) s)"
    "get_right t p = Some sa" "get_black t p = Some c" "get_black t sa = Some sc"
    "get_left t sa = Some (topaddr (nil t) sl)" "get_right t sa = Some (topaddr (nil t) sr)"
    "get_black t (topaddr (nil t) sl) = Some (black sl)" "get_black t (topaddr (nil t) sr) = Some (black sr)"
proof -
  have P: "rep t (plug fs (Br c s p pk (Br sc sl sa sk sr)))" "rep t (plug (InR c s p pk # fs) (Br sc sl sa sk sr))"
    "rep t (plug (InL sc sa sk sr # InR c s p pk # fs) sl)" "rep t (plug (InR sc sl sa sk # InR c s p pk # fs) sr)"
    using L by (simp_all add: linked_def)
  have b: "(case x of Tip \<Rightarrow> True | Br c l a k r \<Rightarrow> c) = black x" for x :: "'a shape" by (cases x) auto
  show "get_parent t (topaddr (nil t) s) = Some p" using L by (simp add: linked_def)
  show "get_left t p = Some (topaddr (nil t) s)" "get_right t p = Some sa" "get_black t p = Some c"
    using rep_reads [OF P(1)] by simp_all
  show "get_black t sa = Some sc" "get_left t sa = Some (topaddr (nil t) sl)" "get_right t sa = Some (topaddr (nil t) sr)"
    using rep_reads [OF P(2)] by simp_all
  show "get_black t (topaddr (nil t) sl) = Some (black sl)" "get_black t (topaddr (nil t) sr) = Some (black sr)"
    using rep_get_black_top [OF P(3)] rep_get_black_top [OF P(4)] b by simp_all
qed

lemma linked_right:
  assumes L: "linked t (InR c (Br sc sl sa sk sr) p pk # fs) s"
  shows "get_parent t (topaddr (nil t) s) = Some p" "get_right t p = Some (topaddr (nil t) s)"
    "get_left t p = Some sa" "get_black t p = Some c" "get_black t sa = Some sc"
    "get_left t sa = Some (topaddr (nil t) sl)" "get_right t sa = Some (topaddr (nil t) sr)"
    "get_black t (topaddr (nil t) sl) = Some (black sl)" "get_black t (topaddr (nil t) sr) = Some (black sr)"
proof -
  have P: "rep t (plug fs (Br c (Br sc sl sa sk sr) p pk s))" "rep t (plug (InL c p pk s # fs) (Br sc sl sa sk sr))"
    "rep t (plug (InL sc sa sk sr # InL c p pk s # fs) sl)" "rep t (plug (InR sc sl sa sk # InL c p pk s # fs) sr)"
    using L by (simp_all add: linked_def)
  have b: "(case x of Tip \<Rightarrow> True | Br c l a k r \<Rightarrow> c) = black x" for x :: "'a shape" by (cases x) auto
  show "get_parent t (topaddr (nil t) s) = Some p" using L by (simp add: linked_def)
  show "get_right t p = Some (topaddr (nil t) s)" "get_left t p = Some sa" "get_black t p = Some c"
    using rep_reads [OF P(1)] by simp_all
  show "get_black t sa = Some sc" "get_left t sa = Some (topaddr (nil t) sl)" "get_right t sa = Some (topaddr (nil t) sr)"
    using rep_reads [OF P(2)] by simp_all
  show "get_black t (topaddr (nil t) sl) = Some (black sl)" "get_black t (topaddr (nil t) sr) = Some (black sr)"
    using rep_get_black_top [OF P(3)] rep_get_black_top [OF P(4)] b by simp_all
qed

section \<open>One iteration at a left child\<close>

text \<open>A red sibling is rotated away; the iteration goes on with a black one.\<close>

lemma delete_left_red:
  assumes L: "linked t (InL True p pk (Br False (Br True ll la lk lr) sa sk sr) # fs) s"
  obtains t' where "rebalance_delete_left t (topaddr (nil t) s) = rebalance_delete_left t' (topaddr (nil t) s)"
    "linked t' (InL False p pk (Br True ll la lk lr) # InL True sa sk sr # fs) s" "same_meta t t'"
proof -
  let ?x = "topaddr (nil t) s" let ?sl = "Br True ll la lk lr"
  note r = linked_left [OF L]
  have "rep t (plug (InR True s p pk # fs) (Br False ?sl sa sk sr))" using L by (simp add: linked_def)
  from recolour [OF this] obtain t1 where t1: "set_black t sa True = Some t1" "same_meta t t1"
    "rep t1 (plug (InR True s p pk # fs) (Br True ?sl sa sk sr))" by auto
  then have "rep t1 (plug fs (Br True s p pk (Br True ?sl sa sk sr)))" by simp
  from recolour [OF this] obtain t2 where t2: "set_black t1 p False = Some t2" "same_meta t1 t2"
    "rep t2 (plug fs (Br False s p pk (Br True ?sl sa sk sr)))" by auto
  from rotate_left_rep [OF t2(3)] obtain t3 where t3: "rotate_left t2 p = Some t3" "same_meta t2 t3"
    "rep t3 (plug fs (Br True (Br False s p pk ?sl) sa sk sr))" by auto
  have m: "same_meta t t3" "same_meta t t1" using t1 t2 t3 same_meta_trans by blast+
  have "linked t1 (InL True p pk (Br True ?sl sa sk sr) # fs) s" using t1(3) by (intro linked_cong [OF L m(2)]) simp_all
  note r1 = linked_left [OF this, unfolded same_meta_nil [OF m(2)]]
  have L3: "linked t3 (InL False p pk ?sl # InL True sa sk sr # fs) s" using t3(3) by (intro linked_cong [OF L m(1)]) simp_all
  note r3 = linked_left [OF L3, unfolded same_meta_nil [OF m(1)]]
  have "rebalance_delete_left t ?x = rebalance_delete_left t3 ?x"
    unfolding rebalance_delete_left_def using r r1 r3 t1(1) t2(1) t3(1) by simp
  then show ?thesis using that L3 m by blast
qed

text \<open>A black sibling with black children becomes red, and the loop goes on at the parent.\<close>

lemma delete_left_up:
  assumes L: "linked t (InL c p pk (Br True sl sa sk sr) # fs) s" and b: "black sl" "black sr"
  obtains t' where "rebalance_delete_left t (topaddr (nil t) s) = Some (t', p)"
    "rep t' (plug fs (Br c s p pk (Br False sl sa sk sr)))" "same_meta t t'"
proof -
  note r = linked_left [OF L]
  have "rep t (plug (InR c s p pk # fs) (Br True sl sa sk sr))" using L by (simp add: linked_def)
  from recolour [OF this] obtain t1 where t1: "set_black t sa False = Some t1" "same_meta t t1"
    "rep t1 (plug (InR c s p pk # fs) (Br False sl sa sk sr))" by auto
  have "linked t1 (InL c p pk (Br False sl sa sk sr) # fs) s" using t1(3) by (intro linked_cong [OF L t1(2)]) simp_all
  note r1 = linked_left [OF this, unfolded same_meta_nil [OF t1(2)]]
  have "rebalance_delete_left t (topaddr (nil t) s) = Some (t1, p)"
    unfolding rebalance_delete_left_def using r r1 t1(1) b by simp
  then show ?thesis using that t1 by simp
qed

text \<open>A red left child of the sibling is rotated to its right.\<close>

lemma delete_left_inner:
  assumes L: "linked t (InL c p pk (Br True (Br False ll la lk lr) sa sk sr) # fs) s"
    and b: "black sr" "black ll"
  obtains t' where "rebalance_delete_left t (topaddr (nil t) s) = rebalance_delete_left t' (topaddr (nil t) s)"
    "linked t' (InL c p pk (Br True ll la lk (Br False lr sa sk sr)) # fs) s" "same_meta t t'"
proof -
  let ?x = "topaddr (nil t) s"
  note r = linked_left [OF L]
  have "rep t (plug (InL True sa sk sr # InR c s p pk # fs) (Br False ll la lk lr))" using L by (simp add: linked_def)
  from recolour [OF this] obtain t1 where t1: "set_black t la True = Some t1" "same_meta t t1"
    "rep t1 (plug (InL True sa sk sr # InR c s p pk # fs) (Br True ll la lk lr))" by auto
  then have "rep t1 (plug (InR c s p pk # fs) (Br True (Br True ll la lk lr) sa sk sr))" by simp
  from recolour [OF this] obtain t2 where t2: "set_black t1 sa False = Some t2" "same_meta t1 t2"
    "rep t2 (plug (InR c s p pk # fs) (Br False (Br True ll la lk lr) sa sk sr))" by auto
  from rotate_right_rep [OF t2(3)] obtain t3 where t3: "rotate_right t2 sa = Some t3" "same_meta t2 t3"
    "rep t3 (plug (InR c s p pk # fs) (Br True ll la lk (Br False lr sa sk sr)))" by auto
  have m: "same_meta t t3" using t1 t2 t3 same_meta_trans by blast
  have L3: "linked t3 (InL c p pk (Br True ll la lk (Br False lr sa sk sr)) # fs) s"
    using t3(3) by (intro linked_cong [OF L m]) simp_all
  note r3 = linked_left [OF L3, unfolded same_meta_nil [OF m]]
  have "rebalance_delete_left t ?x = rebalance_delete_left t3 ?x"
    unfolding rebalance_delete_left_def using r r3 t1(1) t2(1) t3(1) b by simp
  then show ?thesis using that L3 m by blast
qed

text \<open>With a red right child of the sibling one rotation ends the loop.\<close>

lemma delete_left_end:
  assumes L: "linked t (InL c p pk (Br True sl sa sk (Br False rl ra rk rr)) # fs) s"
  obtains t' where "rebalance_delete_left t (topaddr (nil t) s) = Some (t', root t')" "same_meta t t'"
    "rep t' (plug fs (Br c (Br True s p pk sl) sa sk (Br True rl ra rk rr)))"
proof -
  let ?x = "topaddr (nil t) s" let ?sr = "Br False rl ra rk rr"
  note r = linked_left [OF L]
  have "rep t (plug (InR c s p pk # fs) (Br True sl sa sk ?sr))" using L by (simp add: linked_def)
  from recolour [OF this] obtain t1 where t1: "set_black t sa c = Some t1" "same_meta t t1"
    "rep t1 (plug (InR c s p pk # fs) (Br c sl sa sk ?sr))" by auto
  then have "rep t1 (plug fs (Br c s p pk (Br c sl sa sk ?sr)))" by simp
  from recolour [OF this] obtain t2 where t2: "set_black t1 p True = Some t2" "same_meta t1 t2"
    "rep t2 (plug fs (Br True s p pk (Br c sl sa sk ?sr)))" by auto
  then have "rep t2 (plug (InR c sl sa sk # InR True s p pk # fs) ?sr)" by simp
  from recolour [OF this] obtain t3 where t3: "set_black t2 ra True = Some t3" "same_meta t2 t3"
    "rep t3 (plug (InR c sl sa sk # InR True s p pk # fs) (Br True rl ra rk rr))" by auto
  then have "rep t3 (plug fs (Br True s p pk (Br c sl sa sk (Br True rl ra rk rr))))" by simp
  from rotate_left_rep [OF this] obtain t4 where t4: "rotate_left t3 p = Some t4" "same_meta t3 t4"
    "rep t4 (plug fs (Br c (Br True s p pk sl) sa sk (Br True rl ra rk rr)))" by auto
  have m: "same_meta t t2" "same_meta t t3" "same_meta t t4" using t1 t2 t3 t4 same_meta_trans by blast+
  have "linked t2 (InL True p pk (Br c sl sa sk ?sr) # fs) s" using t2(3) by (intro linked_cong [OF L m(1)]) simp_all
  note r2 = linked_left [OF this, unfolded same_meta_nil [OF m(1)]]
  have "linked t3 (InL True p pk (Br c sl sa sk (Br True rl ra rk rr)) # fs) s"
    using t3(3) by (intro linked_cong [OF L m(2)]) simp_all
  note r3 = linked_left [OF this, unfolded same_meta_nil [OF m(2)]]
  have "rebalance_delete_left t ?x = Some (t4, root t4)"
    unfolding rebalance_delete_left_def using r r2 r3 t1(1) t2(1) t3(1) t4(1) by simp
  then show ?thesis using that t4(3) m by blast
qed

section \<open>One iteration at a right child\<close>

lemma delete_right_red:
  assumes L: "linked t (InR True (Br False sr sa sk (Br True lr la lk ll)) p pk # fs) s"
  obtains t' where "rebalance_delete_right t (topaddr (nil t) s) = rebalance_delete_right t' (topaddr (nil t) s)"
    "linked t' (InR False (Br True lr la lk ll) p pk # InR True sr sa sk # fs) s" "same_meta t t'"
proof -
  let ?x = "topaddr (nil t) s" let ?sl = "Br True lr la lk ll"
  note r = linked_right [OF L]
  have "rep t (plug (InL True p pk s # fs) (Br False sr sa sk ?sl))" using L by (simp add: linked_def)
  from recolour [OF this] obtain t1 where t1: "set_black t sa True = Some t1" "same_meta t t1"
    "rep t1 (plug (InL True p pk s # fs) (Br True sr sa sk ?sl))" by auto
  then have "rep t1 (plug fs (Br True (Br True sr sa sk ?sl) p pk s))" by simp
  from recolour [OF this] obtain t2 where t2: "set_black t1 p False = Some t2" "same_meta t1 t2"
    "rep t2 (plug fs (Br False (Br True sr sa sk ?sl) p pk s))" by auto
  from rotate_right_rep [OF t2(3)] obtain t3 where t3: "rotate_right t2 p = Some t3" "same_meta t2 t3"
    "rep t3 (plug fs (Br True sr sa sk (Br False ?sl p pk s)))" by auto
  have m: "same_meta t t3" "same_meta t t1" using t1 t2 t3 same_meta_trans by blast+
  have "linked t1 (InR True (Br True sr sa sk ?sl) p pk # fs) s" using t1(3) by (intro linked_cong [OF L m(2)]) simp_all
  note r1 = linked_right [OF this, unfolded same_meta_nil [OF m(2)]]
  have L3: "linked t3 (InR False ?sl p pk # InR True sr sa sk # fs) s" using t3(3) by (intro linked_cong [OF L m(1)]) simp_all
  note r3 = linked_right [OF L3, unfolded same_meta_nil [OF m(1)]]
  have "rebalance_delete_right t ?x = rebalance_delete_right t3 ?x"
    unfolding rebalance_delete_right_def using r r1 r3 t1(1) t2(1) t3(1) by simp
  then show ?thesis using that L3 m by blast
qed

lemma delete_right_up:
  assumes L: "linked t (InR c (Br True sr sa sk sl) p pk # fs) s" and b: "black sl" "black sr"
  obtains t' where "rebalance_delete_right t (topaddr (nil t) s) = Some (t', p)"
    "rep t' (plug fs (Br c (Br False sr sa sk sl) p pk s))" "same_meta t t'"
proof -
  note r = linked_right [OF L]
  have "rep t (plug (InL c p pk s # fs) (Br True sr sa sk sl))" using L by (simp add: linked_def)
  from recolour [OF this] obtain t1 where t1: "set_black t sa False = Some t1" "same_meta t t1"
    "rep t1 (plug (InL c p pk s # fs) (Br False sr sa sk sl))" by auto
  have "linked t1 (InR c (Br False sr sa sk sl) p pk # fs) s" using t1(3) by (intro linked_cong [OF L t1(2)]) simp_all
  note r1 = linked_right [OF this, unfolded same_meta_nil [OF t1(2)]]
  have "rebalance_delete_right t (topaddr (nil t) s) = Some (t1, p)"
    unfolding rebalance_delete_right_def using r r1 t1(1) b by simp
  then show ?thesis using that t1 by simp
qed

lemma delete_right_inner:
  assumes L: "linked t (InR c (Br True sr sa sk (Br False lr la lk ll)) p pk # fs) s"
    and b: "black sr" "black ll"
  obtains t' where "rebalance_delete_right t (topaddr (nil t) s) = rebalance_delete_right t' (topaddr (nil t) s)"
    "linked t' (InR c (Br True (Br False sr sa sk lr) la lk ll) p pk # fs) s" "same_meta t t'"
proof -
  let ?x = "topaddr (nil t) s"
  note r = linked_right [OF L]
  have "rep t (plug (InR True sr sa sk # InL c p pk s # fs) (Br False lr la lk ll))" using L by (simp add: linked_def)
  from recolour [OF this] obtain t1 where t1: "set_black t la True = Some t1" "same_meta t t1"
    "rep t1 (plug (InR True sr sa sk # InL c p pk s # fs) (Br True lr la lk ll))" by auto
  then have "rep t1 (plug (InL c p pk s # fs) (Br True sr sa sk (Br True lr la lk ll)))" by simp
  from recolour [OF this] obtain t2 where t2: "set_black t1 sa False = Some t2" "same_meta t1 t2"
    "rep t2 (plug (InL c p pk s # fs) (Br False sr sa sk (Br True lr la lk ll)))" by auto
  from rotate_left_rep [OF t2(3)] obtain t3 where t3: "rotate_left t2 sa = Some t3" "same_meta t2 t3"
    "rep t3 (plug (InL c p pk s # fs) (Br True (Br False sr sa sk lr) la lk ll))" by auto
  have m: "same_meta t t3" using t1 t2 t3 same_meta_trans by blast
  have L3: "linked t3 (InR c (Br True (Br False sr sa sk lr) la lk ll) p pk # fs) s"
    using t3(3) by (intro linked_cong [OF L m]) simp_all
  note r3 = linked_right [OF L3, unfolded same_meta_nil [OF m]]
  have "rebalance_delete_right t ?x = rebalance_delete_right t3 ?x"
    unfolding rebalance_delete_right_def using r r3 t1(1) t2(1) t3(1) b by simp
  then show ?thesis using that L3 m by blast
qed

lemma delete_right_end:
  assumes L: "linked t (InR c (Br True (Br False rr ra rk rl) sa sk sl) p pk # fs) s"
  obtains t' where "rebalance_delete_right t (topaddr (nil t) s) = Some (t', root t')" "same_meta t t'"
    "rep t' (plug fs (Br c (Br True rr ra rk rl) sa sk (Br True sl p pk s)))"
proof -
  let ?x = "topaddr (nil t) s" let ?sr = "Br False rr ra rk rl"
  note r = linked_right [OF L]
  have "rep t (plug (InL c p pk s # fs) (Br True ?sr sa sk sl))" using L by (simp add: linked_def)
  from recolour [OF this] obtain t1 where t1: "set_black t sa c = Some t1" "same_meta t t1"
    "rep t1 (plug (InL c p pk s # fs) (Br c ?sr sa sk sl))" by auto
  then have "rep t1 (plug fs (Br c (Br c ?sr sa sk sl) p pk s))" by simp
  from recolour [OF this] obtain t2 where t2: "set_black t1 p True = Some t2" "same_meta t1 t2"
    "rep t2 (plug fs (Br True (Br c ?sr sa sk sl) p pk s))" by auto
  then have "rep t2 (plug (InL c sa sk sl # InL True p pk s # fs) ?sr)" by simp
  from recolour [OF this] obtain t3 where t3: "set_black t2 ra True = Some t3" "same_meta t2 t3"
    "rep t3 (plug (InL c sa sk sl # InL True p pk s # fs) (Br True rr ra rk rl))" by auto
  then have "rep t3 (plug fs (Br True (Br c (Br True rr ra rk rl) sa sk sl) p pk s))" by simp
  from rotate_right_rep [OF this] obtain t4 where t4: "rotate_right t3 p = Some t4" "same_meta t3 t4"
    "rep t4 (plug fs (Br c (Br True rr ra rk rl) sa sk (Br True sl p pk s)))" by auto
  have m: "same_meta t t2" "same_meta t t3" "same_meta t t4" using t1 t2 t3 t4 same_meta_trans by blast+
  have "linked t2 (InR True (Br c ?sr sa sk sl) p pk # fs) s" using t2(3) by (intro linked_cong [OF L m(1)]) simp_all
  note r2 = linked_right [OF this, unfolded same_meta_nil [OF m(1)]]
  have "linked t3 (InR True (Br c (Br True rr ra rk rl) sa sk sl) p pk # fs) s"
    using t3(3) by (intro linked_cong [OF L m(2)]) simp_all
  note r3 = linked_right [OF this, unfolded same_meta_nil [OF m(2)]]
  have "rebalance_delete_right t ?x = Some (t4, root t4)"
    unfolding rebalance_delete_right_def using r r2 r3 t1(1) t2(1) t3(1) t4(1) by simp
  then show ?thesis using that t4(3) m by blast
qed

section \<open>The deletion fix-up loop\<close>

lemma top_plug_in: "fs \<noteq> [] \<Longrightarrow> topaddr n (plug fs s) \<in> path_addrs fs"
proof (induction fs arbitrary: s)
  case (Cons f fs)
  show ?case by (cases "fs = []"; cases f) (auto simp: Cons.IH)
qed simp

lemma linked_not_root:
  assumes "linked t (f # fs) s"
  shows "topaddr (nil t) s \<noteq> root t"
proof -
  have R: "rep t (plug (f # fs) s)" using assms by (simp add: linked_def)
  have "root t \<in> path_addrs (f # fs)" using top_plug_in [of "f # fs"] rep_root [OF R] by simp
  moreover have "topaddr (nil t) s \<notin> path_addrs (f # fs)"
  proof -
    have "distinct (addrs (plug (f # fs) s))" "nil t \<notin> set (addrs (plug (f # fs) s))" using R by (simp_all add: rep_def)
    then show ?thesis
      unfolding addrs_plug using topaddr_in [of "nil t" s] by (auto simp: path_addrs_def)
  qed
  ultimately show ?thesis by metis
qed

lemma linked_black: "linked t fs s \<Longrightarrow> get_black t (topaddr (nil t) s) = Some (black s)"
  using rep_get_black_top [of t fs s] by (cases s) (auto simp: linked_def)

lemma linked_right_not_left:
  assumes L: "linked t (InR c (Br sc sl sa sk sr) p pk # fs) s"
  shows "topaddr (nil t) s \<noteq> sa"
proof -
  have R: "rep t (plug fs (Br c (Br sc sl sa sk sr) p pk s))" using L by (simp add: linked_def)
  from distinct_focus(3) [OF R refl] show ?thesis by simp
qed

lemma linked_left_not_right:
  assumes L: "linked t (InL c p pk (Br sc sl sa sk sr) # fs) s"
  shows "topaddr (nil t) s \<noteq> sa"
proof -
  have R: "rep t (plug fs (Br c s p pk (Br sc sl sa sk sr)))" using L by (simp add: linked_def)
  from distinct_focus(4) [OF R refl] show ?thesis by simp
qed

text \<open>
  After an iteration: either the loop goes on at a subtree that satisfies \<open>Q\<close>, or the tree is
  red-black again and the loop is at the root.
\<close>

definition delete_outcome ::
    "'a rbtree \<Rightarrow> (nat \<times> 'a) list \<Rightarrow> ('a frame list \<Rightarrow> 'a shape \<Rightarrow> bool) \<Rightarrow> 'a rbtree \<Rightarrow> nat \<Rightarrow> bool" where
  "delete_outcome t xs Q t' y \<longleftrightarrow> same_meta t t' \<and>
     ((\<exists>fs s. delete_state t' fs s \<and> y = topaddr (nil t) s \<and> entries (plug fs s) = xs \<and> Q fs s) \<or>
      (\<exists>s. rep t' s \<and> rbt s \<and> entries s = xs \<and> y = root t'))"

lemma delete_outcome_mono:
  assumes "delete_outcome t1 xs Q t' y" "same_meta t t1" "\<And>fs s. Q fs s \<Longrightarrow> Q' fs s"
  shows "delete_outcome t xs Q' t' y"
  using assms same_meta_trans [OF assms(2)] same_meta_nil [OF assms(2)] unfolding delete_outcome_def by metis

lemma delete_black_left:
  assumes S: "delete_state t (InL c p pk (Br True sl sa sk sr) # fs) s" and s: "black s"
  obtains t' y where "rebalance_delete_left t (topaddr (nil t) s) = Some (t', y)"
    "delete_outcome t (entries (plug (InL c p pk (Br True sl sa sk sr) # fs) s))
      (\<lambda>gs u. length gs = length fs \<and> black u = c) t' y"
proof -
  note goal = that
  have L: "linked t (InL c p pk (Br True sl sa sk sr) # fs) s" and inv: "invc s" "invh s"
    "path_ok (Suc (bheight s)) (InL c p pk (Br True sl sa sk sr) # fs)"
    using S s by (auto simp: delete_state_def invc2_black)
  have fin: thesis if L: "linked t1 (InL c p pk (Br True tl ta tk (Br False rl ra rk rr)) # fs) s"
    and m: "same_meta t t1" and st: "rebalance_delete_left t (topaddr (nil t) s) = rebalance_delete_left t1 (topaddr (nil t) s)"
    and ok: "invc tl" "invh tl" "invc rl" "invh rl" "invc rr" "invh rr" "bheight tl = bheight s" "bheight rl = bheight s"
      "bheight rr = bheight s"
    and ent: "entries (Br True tl ta tk (Br False rl ra rk rr)) = entries (Br True sl sa sk sr)"
    for t1 tl ta tk rl ra rk rr
  proof -
    from delete_left_end [OF L] obtain t' where t': "rebalance_delete_left t1 (topaddr (nil t1) s) = Some (t', root t')"
      "same_meta t1 t'" "rep t' (plug fs (Br c (Br True s p pk tl) ta tk (Br True rl ra rk rr)))" by blast
    have "rbt (plug fs (Br c (Br True s p pk tl) ta tk (Br True rl ra rk rr)))"
      using ok inv unfolding rbt_plug by auto
    moreover have "entries (Br True tl ta tk (Br False rl ra rk rr)) @ zs = entries (Br True sl sa sk sr) @ zs" for zs
      by (simp only: ent)
    then have "entries (plug fs (Br c (Br True s p pk tl) ta tk (Br True rl ra rk rr))) =
        entries (plug (InL c p pk (Br True sl sa sk sr) # fs) s)" by simp
    ultimately have "delete_outcome t (entries (plug (InL c p pk (Br True sl sa sk sr) # fs) s))
        (\<lambda>gs u. length gs = length fs \<and> black u = c) t' (root t')"
      using t'(3) same_meta_trans [OF m t'(2)] unfolding delete_outcome_def by blast
    then show thesis using goal t'(1) st same_meta_nil [OF m] by simp
  qed
  show ?thesis
  proof (cases "black sl \<and> black sr")
    case True
    from delete_left_up [OF L] True obtain t' where
      t': "rebalance_delete_left t (topaddr (nil t) s) = Some (t', p)" "same_meta t t'"
      "rep t' (plug fs (Br c s p pk (Br False sl sa sk sr)))" by blast
    have "delete_state t' fs (Br c s p pk (Br False sl sa sk sr))"
      using linked_Br [OF t'(3)] inv True by (auto simp: delete_state_def)
    then have "delete_outcome t (entries (plug (InL c p pk (Br True sl sa sk sr) # fs) s))
        (\<lambda>gs u. length gs = length fs \<and> black u = c) t' p"
      using t'(2) unfolding delete_outcome_def
      by (intro conjI disjI1 exI [of _ fs] exI [of _ "Br c s p pk (Br False sl sa sk sr)"]) simp_all
    with t'(1) that show ?thesis by blast
  next
    case False
    show ?thesis
    proof (cases "black sr")
      case True
      then obtain ll la lk lr where sl: "sl = Br False ll la lk lr" using False by (cases sl) auto
      have "black ll" using inv sl by auto
      with delete_left_inner [OF L [unfolded sl] True] obtain t1 where
        "rebalance_delete_left t (topaddr (nil t) s) = rebalance_delete_left t1 (topaddr (nil t) s)"
        "linked t1 (InL c p pk (Br True ll la lk (Br False lr sa sk sr)) # fs) s" "same_meta t t1" by blast
      then show ?thesis using inv sl by (intro fin) auto
    next
      case False
      then obtain rl ra rk rr where sr: "sr = Br False rl ra rk rr" by (cases sr) auto
      show ?thesis using inv sr by (intro fin [OF L [unfolded sr]]) auto
    qed
  qed
qed

lemma delete_iteration_left:
  assumes S: "delete_state t (InL c p pk sib # fs) s" and s: "black s"
  obtains t' y where "rebalance_delete_loop t (topaddr (nil t) s) = rebalance_delete_loop t' y"
    "delete_outcome t (entries (plug (InL c p pk sib # fs) s)) (\<lambda>gs u. length gs < Suc (length fs) \<or> \<not> black u) t' y"
proof -
  let ?x = "topaddr (nil t) s"
  have L: "linked t (InL c p pk sib # fs) s" and inv: "invc s" "invh s" "path_ok (Suc (bheight s)) (InL c p pk sib # fs)"
    using S s by (auto simp: delete_state_def invc2_black)
  obtain sc sl sa sk sr where sib: "sib = Br sc sl sa sk sr" using inv by (cases sib) auto
  note L = L [unfolded sib]
  have loop: "rebalance_delete_loop t ?x = Option.bind (rebalance_delete_left t ?x) (\<lambda>(t', y). rebalance_delete_loop t' y)"
    using linked_left [OF L] linked_left_not_right [OF L] linked_not_root [OF L] linked_black [OF L] s by (subst rebalance_delete_loop.simps) simp
  show ?thesis
  proof (cases sc)
    case True
    with S sib have "delete_state t (InL c p pk (Br True sl sa sk sr) # fs) s" by simp
    from delete_black_left [OF this s] obtain t' y where "rebalance_delete_left t ?x = Some (t', y)"
      "delete_outcome t (entries (plug (InL c p pk sib # fs) s)) (\<lambda>gs u. length gs = length fs \<and> black u = c) t' y"
      using sib True by auto
    moreover from this(2) have "delete_outcome t (entries (plug (InL c p pk sib # fs) s))
        (\<lambda>gs u. length gs < Suc (length fs) \<or> \<not> black u) t' y"
      by (rule delete_outcome_mono) simp_all
    ultimately show ?thesis using that loop by simp
  next
    case False
    then have c: "c" "black sl" "black sr" "bheight sl = Suc (bheight s)" using inv sib by auto
    then obtain ll la lk lr where sl: "sl = Br True ll la lk lr" by (cases sl) auto
    have "linked t (InL True p pk (Br False (Br True ll la lk lr) sa sk sr) # fs) s" using L c False sl by simp
    from delete_left_red [OF this] obtain t1 where
      t1: "rebalance_delete_left t ?x = rebalance_delete_left t1 ?x"
      "linked t1 (InL False p pk (Br True ll la lk lr) # InL True sa sk sr # fs) s" "same_meta t t1" by blast
    have "delete_state t1 (InL False p pk (Br True ll la lk lr) # InL True sa sk sr # fs) s"
      using S t1(2) inv sib sl c by (auto simp: delete_state_def)
    from delete_black_left [OF this s] obtain t' y where t': "rebalance_delete_left t1 (topaddr (nil t1) s) = Some (t', y)"
      "delete_outcome t1 (entries (plug (InL False p pk (Br True ll la lk lr) # InL True sa sk sr # fs) s))
         (\<lambda>gs u. length gs = length (InL True sa sk sr # fs) \<and> black u = False) t' y" by blast
    have "entries (plug (InL False p pk (Br True ll la lk lr) # InL True sa sk sr # fs) s) = entries (plug (InL c p pk sib # fs) s)"
      by (simp add: sib sl)
    moreover have "delete_outcome t (entries (plug (InL False p pk (Br True ll la lk lr) # InL True sa sk sr # fs) s))
        (\<lambda>gs u. length gs < Suc (length fs) \<or> \<not> black u) t' y"
      using t'(2) t1(3) by (rule delete_outcome_mono) simp_all
    moreover have "rebalance_delete_loop t ?x = rebalance_delete_loop t' y"
      using t'(1) t1(1) loop same_meta_nil [OF t1(3)] by simp
    ultimately show ?thesis using that by metis
  qed
qed

lemma delete_black_right:
  assumes S: "delete_state t (InR c (Br True sr sa sk sl) p pk # fs) s" and s: "black s"
  obtains t' y where "rebalance_delete_right t (topaddr (nil t) s) = Some (t', y)"
    "delete_outcome t (entries (plug (InR c (Br True sr sa sk sl) p pk # fs) s))
      (\<lambda>gs u. length gs = length fs \<and> black u = c) t' y"
proof -
  note goal = that
  have L: "linked t (InR c (Br True sr sa sk sl) p pk # fs) s" and inv: "invc s" "invh s"
    "path_ok (Suc (bheight s)) (InR c (Br True sr sa sk sl) p pk # fs)"
    using S s by (auto simp: delete_state_def invc2_black)
  have fin: thesis if L: "linked t1 (InR c (Br True (Br False rr ra rk rl) ta tk tl) p pk # fs) s"
    and m: "same_meta t t1" and st: "rebalance_delete_right t (topaddr (nil t) s) = rebalance_delete_right t1 (topaddr (nil t) s)"
    and ok: "invc tl" "invh tl" "invc rl" "invh rl" "invc rr" "invh rr" "bheight tl = bheight s" "bheight rl = bheight s"
      "bheight rr = bheight s"
    and ent: "entries (Br True (Br False rr ra rk rl) ta tk tl) = entries (Br True sr sa sk sl)"
    for t1 tl ta tk rl ra rk rr
  proof -
    from delete_right_end [OF L] obtain t' where t': "rebalance_delete_right t1 (topaddr (nil t1) s) = Some (t', root t')"
      "same_meta t1 t'" "rep t' (plug fs (Br c (Br True rr ra rk rl) ta tk (Br True tl p pk s)))" by blast
    have "rbt (plug fs (Br c (Br True rr ra rk rl) ta tk (Br True tl p pk s)))"
      using ok inv unfolding rbt_plug by auto
    moreover have "entries (Br True (Br False rr ra rk rl) ta tk tl) @ zs = entries (Br True sr sa sk sl) @ zs" for zs
      by (simp only: ent)
    then have "entries (plug fs (Br c (Br True rr ra rk rl) ta tk (Br True tl p pk s))) =
        entries (plug (InR c (Br True sr sa sk sl) p pk # fs) s)" by simp
    ultimately have "delete_outcome t (entries (plug (InR c (Br True sr sa sk sl) p pk # fs) s))
        (\<lambda>gs u. length gs = length fs \<and> black u = c) t' (root t')"
      using t'(3) same_meta_trans [OF m t'(2)] unfolding delete_outcome_def by blast
    then show thesis using goal t'(1) st same_meta_nil [OF m] by simp
  qed
  show ?thesis
  proof (cases "black sl \<and> black sr")
    case True
    from delete_right_up [OF L] True obtain t' where
      t': "rebalance_delete_right t (topaddr (nil t) s) = Some (t', p)" "same_meta t t'"
      "rep t' (plug fs (Br c (Br False sr sa sk sl) p pk s))" by blast
    have "delete_state t' fs (Br c (Br False sr sa sk sl) p pk s)"
      using linked_Br [OF t'(3)] inv True by (auto simp: delete_state_def)
    then have "delete_outcome t (entries (plug (InR c (Br True sr sa sk sl) p pk # fs) s))
        (\<lambda>gs u. length gs = length fs \<and> black u = c) t' p"
      using t'(2) unfolding delete_outcome_def
      by (intro conjI disjI1 exI [of _ fs] exI [of _ "Br c (Br False sr sa sk sl) p pk s"]) simp_all
    with t'(1) that show ?thesis by blast
  next
    case False
    show ?thesis
    proof (cases "black sr")
      case True
      then obtain ll la lk lr where sl: "sl = Br False lr la lk ll" using False by (cases sl) auto
      have "black ll" using inv sl by auto
      with delete_right_inner [OF L [unfolded sl] True] obtain t1 where
        "rebalance_delete_right t (topaddr (nil t) s) = rebalance_delete_right t1 (topaddr (nil t) s)"
        "linked t1 (InR c (Br True (Br False sr sa sk lr) la lk ll) p pk # fs) s" "same_meta t t1" by blast
      then show ?thesis using inv sl by (intro fin) auto
    next
      case False
      then obtain rl ra rk rr where sr: "sr = Br False rr ra rk rl" by (cases sr) auto
      show ?thesis using inv sr by (intro fin [OF L [unfolded sr]]) auto
    qed
  qed
qed

lemma delete_iteration_right:
  assumes S: "delete_state t (InR c sib p pk # fs) s" and s: "black s"
  obtains t' y where "rebalance_delete_loop t (topaddr (nil t) s) = rebalance_delete_loop t' y"
    "delete_outcome t (entries (plug (InR c sib p pk # fs) s)) (\<lambda>gs u. length gs < Suc (length fs) \<or> \<not> black u) t' y"
proof -
  let ?x = "topaddr (nil t) s"
  have L: "linked t (InR c sib p pk # fs) s" and inv: "invc s" "invh s" "path_ok (Suc (bheight s)) (InR c sib p pk # fs)"
    using S s by (auto simp: delete_state_def invc2_black)
  obtain sc sl sa sk sr where sib: "sib = Br sc sr sa sk sl" using inv by (cases sib) auto
  note L = L [unfolded sib]
  have loop: "rebalance_delete_loop t ?x = Option.bind (rebalance_delete_right t ?x) (\<lambda>(t', y). rebalance_delete_loop t' y)"
    using linked_right [OF L] linked_right_not_left [OF L] linked_not_root [OF L] linked_black [OF L] s by (subst rebalance_delete_loop.simps) simp
  show ?thesis
  proof (cases sc)
    case True
    with S sib have "delete_state t (InR c (Br True sr sa sk sl) p pk # fs) s" by simp
    from delete_black_right [OF this s] obtain t' y where "rebalance_delete_right t ?x = Some (t', y)"
      "delete_outcome t (entries (plug (InR c sib p pk # fs) s)) (\<lambda>gs u. length gs = length fs \<and> black u = c) t' y"
      using sib True by auto
    moreover from this(2) have "delete_outcome t (entries (plug (InR c sib p pk # fs) s))
        (\<lambda>gs u. length gs < Suc (length fs) \<or> \<not> black u) t' y"
      by (rule delete_outcome_mono) simp_all
    ultimately show ?thesis using that loop by simp
  next
    case False
    then have c: "c" "black sl" "black sr" "bheight sl = Suc (bheight s)" using inv sib by auto
    then obtain ll la lk lr where sl: "sl = Br True lr la lk ll" by (cases sl) auto
    have "linked t (InR True (Br False sr sa sk (Br True lr la lk ll)) p pk # fs) s" using L c False sl by simp
    from delete_right_red [OF this] obtain t1 where
      t1: "rebalance_delete_right t ?x = rebalance_delete_right t1 ?x"
      "linked t1 (InR False (Br True lr la lk ll) p pk # InR True sr sa sk # fs) s" "same_meta t t1" by blast
    have "delete_state t1 (InR False (Br True lr la lk ll) p pk # InR True sr sa sk # fs) s"
      using S t1(2) inv sib sl c by (auto simp: delete_state_def)
    from delete_black_right [OF this s] obtain t' y where t': "rebalance_delete_right t1 (topaddr (nil t1) s) = Some (t', y)"
      "delete_outcome t1 (entries (plug (InR False (Br True lr la lk ll) p pk # InR True sr sa sk # fs) s))
         (\<lambda>gs u. length gs = length (InR True sr sa sk # fs) \<and> black u = False) t' y" by blast
    have "entries (plug (InR False (Br True lr la lk ll) p pk # InR True sr sa sk # fs) s) = entries (plug (InR c sib p pk # fs) s)"
      by (simp add: sib sl)
    moreover have "delete_outcome t (entries (plug (InR False (Br True lr la lk ll) p pk # InR True sr sa sk # fs) s))
        (\<lambda>gs u. length gs < Suc (length fs) \<or> \<not> black u) t' y"
      using t'(2) t1(3) by (rule delete_outcome_mono) simp_all
    moreover have "rebalance_delete_loop t ?x = rebalance_delete_loop t' y"
      using t'(1) t1(1) loop same_meta_nil [OF t1(3)] by simp
    ultimately show ?thesis using that by metis
  qed
qed

lemma paint_black:
  assumes S: "delete_state t fs s" and stop: "fs = [] \<or> \<not> black s"
  shows "\<exists>t' s'. set_black t (topaddr (nil t) s) True = Some t' \<and> rep t' s' \<and> rbt s' \<and> same_meta t t' \<and>
    entries s' = entries (plug fs s)"
proof (cases s)
  case Tip
  with S stop have R: "rep t Tip" "fs = []" by (auto simp: delete_state_def linked_def)
  then obtain nd where nd: "nodes t (nil t) = Some nd" "is_black nd" by (auto simp: rep_def get_black_def)
  then have same: "t\<lparr>nodes := (nodes t)(nil t \<mapsto> nd\<lparr>is_black := True\<rparr>)\<rparr> = t"
    by (cases nd) (auto simp: fun_upd_idem)
  have "set_black t (nil t) True = Some t" using writes(2) [OF nd(1), of True] unfolding same .
  then show ?thesis using Tip R by (intro exI [of _ t] exI [of _ Tip]) (simp add: rbt_def)
next
  case (Br c l a k r)
  then have R: "rep t (plug fs (Br c l a k r))" and inv: "invc l" "invc r" "invh s" "path_ok (Suc (bheight s)) fs"
    using S by (auto simp: delete_state_def linked_def)
  from recolour [OF R, of True] obtain t' where
    t': "set_black t a True = Some t'" "rep t' (plug fs (Br True l a k r))" "same_meta t t'" by blast
  have "rbt (plug fs (Br True l a k r))" using inv stop Br unfolding rbt_plug by (cases c) auto
  with t' Br show ?thesis by (intro exI [of _ t'] exI [of _ "plug fs (Br True l a k r)"]) simp
qed

lemma paint_root:
  assumes "rep t s" "rbt s"
  shows "\<exists>t' s'. set_black t (root t) True = Some t' \<and> rep t' s' \<and> rbt s' \<and> same_meta t t' \<and> entries s' = entries s"
proof (cases s)
  case Tip
  then have "root t = nil t" using rep_root [OF assms(1)] by simp
  obtain nd where nd: "nodes t (nil t) = Some nd" "is_black nd" using assms(1) by (auto simp: rep_def get_black_def)
  then have same: "t\<lparr>nodes := (nodes t)(nil t \<mapsto> nd\<lparr>is_black := True\<rparr>)\<rparr> = t"
    by (cases nd) (auto simp: fun_upd_idem)
  have "set_black t (nil t) True = Some t" using writes(2) [OF nd(1), of True] unfolding same .
  then show ?thesis using assms \<open>root t = nil t\<close> by (intro exI [of _ t] exI [of _ s]) simp
next
  case (Br c l a k r)
  then have R: "rep t (plug [] (Br c l a k r))" "root t = a" "c" using assms by (auto simp: rep_def rbt_def)
  from recolour [OF R(1), of True] obtain t' where
    "set_black t a True = Some t'" "rep t' (plug [] (Br True l a k r))" "same_meta t t'" by blast
  with R assms Br show ?thesis by (intro exI [of _ t'] exI [of _ s]) simp
qed

lemma delete_loop_stop:
  assumes "linked t fs s" "fs = [] \<or> \<not> black s"
  shows "rebalance_delete_loop t (topaddr (nil t) s) = Some (t, topaddr (nil t) s)"
proof (cases "topaddr (nil t) s = root t")
  case True
  then show ?thesis by (subst rebalance_delete_loop.simps) simp
next
  case False
  with assms(1) have "fs \<noteq> []" by (auto simp: linked_def rep_def)
  with False assms(2) linked_black [OF assms(1)] show ?thesis by (subst rebalance_delete_loop.simps) simp
qed

lemma rebalance_delete_rep:
  assumes "delete_state t fs s"
  shows "\<exists>t' s'. rebalance_delete t (topaddr (nil t) s) = Some t' \<and> rep t' s' \<and> rbt s' \<and> same_meta t t' \<and>
    entries s' = entries (plug fs s)"
  using assms
proof (induction "length fs" arbitrary: fs t s rule: less_induct)
  case less
  note S = less.prems
  show ?case
  proof (cases "fs = [] \<or> \<not> black s")
    case True
    have "linked t fs s" using S by (simp add: delete_state_def)
    from delete_loop_stop [OF this True] paint_black [OF S True] show ?thesis by (simp add: rebalance_delete_def)
  next
    case False
    then obtain f fs1 where f: "fs = f # fs1" "black s" by (cases fs) auto
    obtain t' y where st: "rebalance_delete_loop t (topaddr (nil t) s) = rebalance_delete_loop t' y"
      and o: "delete_outcome t (entries (plug fs s)) (\<lambda>gs u. length gs < length fs \<or> \<not> black u) t' y"
    proof (cases f)
      case (InL c p pk sib)
      from delete_iteration_left [OF S [unfolded f(1) InL] f(2)] that f InL show ?thesis by auto
    next
      case (InR c sib p pk)
      from delete_iteration_right [OF S [unfolded f(1) InR] f(2)] that f InR show ?thesis by auto
    qed
    have m: "same_meta t t'" using o by (simp add: delete_outcome_def)
    have same: "rebalance_delete t (topaddr (nil t) s) = rebalance_delete t' y"
      using st by (simp add: rebalance_delete_def)
    from o consider fs' s' where "delete_state t' fs' s'" "y = topaddr (nil t) s'" "entries (plug fs' s') = entries (plug fs s)"
        "length fs' < length fs \<or> \<not> black s'"
      | s' where "rep t' s'" "rbt s'" "entries s' = entries (plug fs s)" "y = root t'"
      unfolding delete_outcome_def by blast
    then have "\<exists>t'' s''. rebalance_delete t' y = Some t'' \<and> rep t'' s'' \<and> rbt s'' \<and> same_meta t' t'' \<and>
      entries s'' = entries (plug fs s)"
    proof cases
      case 1
      note y = 1(2) [folded same_meta_nil [OF m]]
      show ?thesis
      proof (cases "length fs' < length fs")
        case True
        from less.hyps [OF True 1(1)] 1(3) y show ?thesis by simp
      next
        case False
        have "linked t' fs' s'" using 1(1) by (simp add: delete_state_def)
        from delete_loop_stop [OF this] paint_black [OF 1(1)] False 1(3,4) y show ?thesis
          by (simp add: rebalance_delete_def)
      qed
    next
      case 2
      have "rebalance_delete_loop t' y = Some (t', y)" using 2(4) by (subst rebalance_delete_loop.simps) simp
      with paint_root [OF 2(1,2)] 2(3,4) show ?thesis by (simp add: rebalance_delete_def)
    qed
    with same same_meta_trans [OF m] show ?thesis by (simp only:) blast
  qed
qed

end
