(* ===== verification/RBTree_Unlink.thy ===== *)
theory RBTree_Unlink
  imports RBTree_Fixup RBTree_Iter
begin

text \<open>
  Unlinking a node: \<^verbatim>\<open>transplant\<close> and the three cases of \<^verbatim>\<open>remove(Node*)\<close>, on the shape the heap represents.
\<close>

lemma invc2_of_invc: "invc s \<Longrightarrow> invc2 s"
  by (cases s) auto

section \<open>Transplanting a subtree\<close>

text \<open>The subtree \<open>v\<close>, possibly the sentinel, gets a new parent.\<close>

definition hang :: "nat \<Rightarrow> nat \<Rightarrow> 'a shape \<Rightarrow> (nat \<rightharpoonup> 'a node) \<Rightarrow> (nat \<rightharpoonup> 'a node)" where
  "hang n x v h = h(topaddr n v := map_option (\<lambda>nd. nd\<lparr>parent := x\<rparr>) (h (topaddr n v)))"

lemma hang_other: "b \<noteq> topaddr n v \<Longrightarrow> hang n x v h b = h b"
  by (simp add: hang_def)

lemma repr_hang:
  assumes "repr h n p v" "distinct (addrs v)" "n \<notin> set (addrs v)"
  shows "repr (hang n x v h) n x v"
  using assms by (cases v) (auto simp: hang_def)

lemma transplant_exec:
  assumes nd: "nodes t a = Some nd" "parent nd = above (nil t) fs" and path: "repr_path (nodes t) (nil t) a fs"
    and sep: "a \<notin> path_addrs fs" "nil t \<notin> path_addrs fs" "a \<noteq> nil t" "topaddr (nil t) v \<notin> path_addrs fs"
    and v: "nodes t (topaddr (nil t) v) \<noteq> None"
  shows "transplant t a (topaddr (nil t) v) = Some (t\<lparr>nodes := hang (nil t) (above (nil t) fs) v
      (rehang (nil t) (topaddr (nil t) v) fs (nodes t)), root := (if fs = [] then topaddr (nil t) v else root t)\<rparr>)"
proof -
  obtain vd where vd: "nodes t (topaddr (nil t) v) = Some vd" using v by auto
  show ?thesis
  proof (cases fs)
    case Nil
    then show ?thesis using nd vd by (simp add: transplant_def heap_simps hang_def)
  next
    case (Cons f fs')
    show ?thesis
    proof (cases f)
      case (InL c p pk r)
      with Cons path sep have p: "nodes t p = Some \<lparr>key = pk, is_black = c, parent = above (nil t) fs', left = a, right = topaddr (nil t) r\<rparr>"
        "p \<noteq> nil t" "p \<noteq> a" "topaddr (nil t) v \<noteq> p" by auto
      with Cons InL nd vd show ?thesis by (simp add: transplant_def heap_simps hang_def)
    next
      case (InR c l p pk)
      with Cons path sep have p: "nodes t p = Some \<lparr>key = pk, is_black = c, parent = above (nil t) fs', left = topaddr (nil t) l, right = a\<rparr>"
        "p \<noteq> nil t" "p \<noteq> a" "topaddr (nil t) v \<noteq> p" by auto
      have "a \<noteq> topaddr (nil t) l" using topaddr_in [of "nil t" l] sep(1,3) Cons InR by auto
      with p Cons InR nd vd show ?thesis by (simp add: transplant_def heap_simps hang_def)
    qed
  qed
qed

text \<open>What removal leaves alone: everything but the links, the ends and the size.\<close>

definition same_store :: "'a rbtree \<Rightarrow> 'a rbtree \<Rightarrow> bool" where
  "same_store t t' \<longleftrightarrow> fresh t' = fresh t \<and> nil t' = nil t \<and> first_node t' = first_node t \<and>
     last_node t' = last_node t \<and> tsize t' = tsize t"

lemma transplant_rep:
  assumes R: "rep t (plug fs (Br c l a k r))" and v: "l = Tip \<and> v = r \<or> r = Tip \<and> v = l"
  obtains t' where "transplant t a (topaddr (nil t) v) = Some t'" "linked t' fs v" "same_store t t'"
    "\<And>b. b \<notin> insert (nil t) (set (addrs (plug fs v))) \<Longrightarrow> nodes t' b = nodes t b"
proof -
  let ?n = "nil t" let ?x = "topaddr (nil t) v"
  note node = rep_focus [OF R]
  have D: "distinct (addrs_before fs @ addrs l @ a # addrs r @ addrs_after fs)"
    and N: "?n \<notin> set (addrs_before fs @ addrs l @ a # addrs r @ addrs_after fs)"
    and P: "repr (nodes t) ?n a v" "repr_path (nodes t) ?n a fs" and nil: "nodes t ?n \<noteq> None"
    using R v by (auto simp: rep_def repr_plug get_black_def)
  have sep: "a \<notin> path_addrs fs" "?n \<notin> path_addrs fs" "a \<noteq> ?n" "set (addrs v) \<inter> path_addrs fs = {}"
    "distinct (addrs v)" "?n \<notin> set (addrs v)" "distinct (addrs_before fs @ addrs_after fs)" "a \<notin> set (addrs v)"
    using D N v by (auto simp: path_addrs_def)
  have x: "?x \<notin> path_addrs fs" "nodes t ?x \<noteq> None" "?x = ?n \<or> ?x \<in> set (addrs v)"
    using sep(2,4) topaddr_in [of ?n v] repr_dom [OF P(1)] nil by auto
  let ?h1 = "rehang ?n ?x fs (nodes t)" let ?h = "hang ?n (above ?n fs) v ?h1"
  let ?t = "t\<lparr>nodes := ?h, root := (if fs = [] then ?x else root t)\<rparr>"
  have ex: "transplant t a ?x = Some ?t"
    using transplant_exec [OF node _ P(2) sep(1-3) x(1,2)] by simp
  have keep: "?h b = nodes t b" if "b \<notin> path_addrs fs" "b \<noteq> ?x" for b
    using that by (simp add: hang_other rehang_other)
  have "repr_path ?h1 ?n ?x fs" using P(2) sep(7) by (rule repr_path_rehang)
  moreover have "?h b = ?h1 b" if "b \<in> path_addrs fs" for b using that x(1) by (intro hang_other) auto
  ultimately have path: "repr_path ?h ?n ?x fs" using repr_path_cong [of fs ?h ?h1 ?n ?x] by blast
  have "?h1 b = nodes t b" if "b \<in> set (addrs v)" for b using that sep(4) by (intro rehang_other) auto
  then have "repr ?h1 ?n a v" using P(1) repr_cong [of v ?h1 "nodes t"] by blast
  then have sub: "repr ?h ?n (above ?n fs) v" using sep(5,6) by (rule repr_hang)
  have top: "topaddr ?n (plug fs v) = root ?t"
    using rep_root [OF R] top_plug_neq_Nil [of fs ?n v "Br c l a k r"] by (cases fs) auto
  have none: "?h b = None" if "nodes t b = None" for b
    using that keep [of b] x(2) repr_path_dom [OF P(2), of b] by metis
  have black: "get_black ?t ?n = Some True"
    using R keep [OF sep(2)] rehang_other [OF sep(2), of ?n ?x "nodes t"]
    by (cases "?x = ?n") (auto simp: rep_def get_black_def hang_def option.map_comp comp_def)
  have "rep ?t (plug fs v)"
    using R path sub top none black D N v by (auto simp: rep_def repr_plug)
  moreover have "get_parent ?t ?x = Some (above ?n fs)"
    using x(2) rehang_other [OF x(1), of ?n ?x "nodes t"] by (auto simp: get_parent_def hang_def)
  ultimately have "linked ?t fs v" by (simp add: linked_def)
  moreover have "nodes ?t b = nodes t b" if "b \<notin> insert ?n (set (addrs (plug fs v)))" for b
    using that keep [of b] x(3) by (auto simp: path_addrs_def)
  ultimately show ?thesis using that [of ?t] ex by (simp add: same_store_def)
qed

lemma rep_plugI:
  assumes "repr (nodes t) (nil t) (above (nil t) fs) s" "repr_path (nodes t) (nil t) (topaddr (nil t) s) fs"
    "topaddr (nil t) (plug fs s) = root t" "distinct (addrs (plug fs s))" "nil t \<notin> set (addrs (plug fs s))"
    "get_black t (nil t) = Some True" "nodes t 0 = None" "\<forall>b \<ge> fresh t. nodes t b = None"
  shows "rep t (plug fs s)"
  using assms by (simp add: rep_def repr_plug)

section \<open>A node takes the place of another\<close>

lemma replace_node:
  assumes a: "nodes t a = Some \<lparr>key = k, is_black = c, parent = above (nil t) fs, left = topaddr (nil t) l, right = x\<rparr>"
    and pa: "nodes t pa = Some \<lparr>key = pk, is_black = pc, parent = y, left = z, right = topaddr (nil t) r\<rparr>"
    and l: "repr (nodes t) (nil t) a l" "l \<noteq> Tip" and r: "repr (nodes t) (nil t) pa r"
    and path: "repr_path (nodes t) (nil t) a fs"
    and D: "distinct (addrs_before fs @ addrs l @ a # pa # addrs r @ addrs_after fs)"
    and N: "nil t \<notin> set (addrs_before fs @ addrs l @ a # pa # addrs r @ addrs_after fs)"
    and store: "get_black t (nil t) = Some True" "nodes t 0 = None" "\<forall>b \<ge> fresh t. nodes t b = None"
    and root: "fs \<noteq> [] \<Longrightarrow> root t = topaddr (nil t) (plug fs Tip)"
  shows "\<exists>t'. do { t \<leftarrow> transplant t a pa; nl \<leftarrow> get_left t a; t \<leftarrow> set_left t pa nl; t \<leftarrow> set_parent t nl pa;
      nb \<leftarrow> get_black t a; set_black t pa nb } = Some t' \<and>
    rep t' (plug fs (Br c l pa pk r)) \<and> same_store t t' \<and> nodes t' (nil t) = nodes t (nil t) \<and> nodes t' a = nodes t a"
proof -
  let ?n = "nil t" let ?P = "\<lparr>key = pk, is_black = c, parent = above ?n fs, left = topaddr ?n l, right = topaddr ?n r\<rparr>"
  obtain lc ll la lk lr where L: "l = Br lc ll la lk lr" using l(2) by (cases l) auto
  have sep: "a \<notin> path_addrs fs" "pa \<notin> path_addrs fs" "?n \<notin> path_addrs fs" "a \<noteq> ?n" "pa \<noteq> ?n" "a \<noteq> pa"
    "set (addrs l) \<inter> path_addrs fs = {}" "set (addrs r) \<inter> path_addrs fs = {}" "set (addrs l) \<inter> set (addrs r) = {}"
    "a \<notin> set (addrs l)" "pa \<notin> set (addrs l)" "a \<notin> set (addrs r)" "pa \<notin> set (addrs r)" "?n \<notin> set (addrs l)"
    "?n \<notin> set (addrs r)" "distinct (addrs l)" "distinct (addrs r)" "distinct (addrs_before fs @ addrs_after fs)"
    using D N by (auto simp: path_addrs_def)
  let ?v = "Br pc Tip pa pk Tip :: 'a shape"
  let ?h1 = "rehang ?n pa fs (nodes t)"
  let ?h = "(reparent ?n pa l ?h1)(pa \<mapsto> ?P)"
  let ?t = "t\<lparr>nodes := ?h, root := (if fs = [] then pa else root t)\<rparr>"
  have h1: "?h1 b = nodes t b" if "b \<notin> path_addrs fs" for b using that by (rule rehang_other)
  have tr: "transplant t a pa = Some (t\<lparr>nodes := hang ?n (above ?n fs) ?v ?h1, root := (if fs = [] then pa else root t)\<rparr>)"
    using transplant_exec [OF a _ path sep(1,3,4), of ?v] sep(2) pa by simp
  have la: "la \<noteq> pa" "la \<noteq> a" "la \<notin> path_addrs fs" "a \<noteq> la" "pa \<noteq> la" using sep(7,10,11) L by auto
  have rd: "?h1 a = nodes t a" "?h1 pa = nodes t pa" "?h1 la = nodes t la" using h1 sep(1,2) la(3) by auto
  have lan: "nodes t la = Some \<lparr>key = lk, is_black = lc, parent = a, left = topaddr ?n ll, right = topaddr ?n lr\<rparr>"
    using l(1) L by simp
  have ex: "do { t \<leftarrow> transplant t a pa; nl \<leftarrow> get_left t a; t \<leftarrow> set_left t pa nl; t \<leftarrow> set_parent t nl pa;
      nb \<leftarrow> get_black t a; set_black t pa nb } = Some ?t"
    unfolding tr using a pa lan rd la sep(6) by (auto simp: heap_simps hang_def L fun_eq_iff)
  have keep: "?h b = nodes t b" if "b \<notin> path_addrs fs" "b \<noteq> pa" "b \<notin> set (addrs l)" for b
    using that h1 by (simp add: reparent_other)
  have rl: "repr ?h ?n pa l"
  proof -
    have "repr ?h1 ?n a l" using l(1) repr_cong [of l ?h1 "nodes t"] h1 sep(7) by (metis disjoint_iff)
    from repr_reparent [OF this sep(16), of pa] show ?thesis using sep(11) by simp
  qed
  have rr: "repr ?h ?n pa r"
  proof -
    have "?h b = nodes t b" if "b \<in> set (addrs r)" for b using that sep(8,9,13) by (intro keep) auto
    then show ?thesis using r repr_cong [of r ?h "nodes t"] by blast
  qed
  have rp: "repr_path ?h ?n pa fs"
  proof -
    have "repr_path ?h1 ?n pa fs" using path sep(18) by (rule repr_path_rehang)
    moreover have "?h b = ?h1 b" if "b \<in> path_addrs fs" for b
    proof -
      have "b \<notin> set (addrs l)" "b \<noteq> pa" using that sep(2,7) by auto
      then show ?thesis by (simp add: reparent_other)
    qed
    ultimately show ?thesis using repr_path_cong [of fs ?h ?h1] by blast
  qed
  have none: "?h b = None" if "nodes t b = None" for b
  proof -
    have "b \<notin> path_addrs fs" "b \<noteq> pa" "b \<notin> set (addrs l)"
      using that repr_path_dom [OF path, of b] pa repr_dom [OF l(1), of b] by auto
    then show ?thesis using keep that by simp
  qed
  have nil: "?h ?n = nodes t ?n" "?h a = nodes t a" using keep sep(1,3-6,10,14) by metis+
  have "topaddr ?n (plug fs (Br c l pa pk r)) = root ?t"
    using root top_plug_neq_Nil [of fs ?n "Br c l pa pk r" Tip] by (cases fs) auto
  moreover have "get_black ?t ?n = Some True" using store(1) nil(1) by (simp add: get_black_def)
  moreover have T: "nodes ?t = ?h" by simp
  have "nodes ?t b = None" if "nodes t b = None" for b
    unfolding T using that by (rule none)
  then have "nodes ?t 0 = None" "\<forall>b \<ge> fresh t. nodes ?t b = None" using store(2,3) by blast+
  moreover have "repr (nodes ?t) ?n (above ?n fs) (Br c l pa pk r)" using rl rr by simp
  moreover have "distinct (addrs (plug fs (Br c l pa pk r)))" "?n \<notin> set (addrs (plug fs (Br c l pa pk r)))" using D N by auto
  ultimately have "rep ?t (plug fs (Br c l pa pk r))" using rp by (intro rep_plugI) simp_all
  then show ?thesis using ex nil by (intro exI [of _ ?t] conjI) (simp_all add: same_store_def)
qed

text \<open>The same when the subtree on the right has just been hung below the new node.\<close>

lemma replace_hung:
  assumes t3: "t3 = t\<lparr>nodes := hang (nil t) pa r ((nodes t)(pa \<mapsto>
      \<lparr>key = pk, is_black = pc, parent = y, left = z, right = topaddr (nil t) r\<rparr>))\<rparr>"
    and a: "nodes t a = Some \<lparr>key = k, is_black = c, parent = above (nil t) fs, left = topaddr (nil t) l, right = x\<rparr>"
    and l: "repr (nodes t) (nil t) a l" "l \<noteq> Tip" and r: "repr (nodes t) (nil t) q r"
    and path: "repr_path (nodes t) (nil t) a fs"
    and D: "distinct (addrs_before fs @ addrs l @ a # pa # addrs r @ addrs_after fs)"
    and N: "nil t \<notin> set (addrs_before fs @ addrs l @ a # pa # addrs r @ addrs_after fs)"
    and store: "get_black t (nil t) = Some True" "nodes t 0 = None" "\<forall>b \<ge> fresh t. nodes t b = None" "nodes t pa \<noteq> None"
    and root: "fs \<noteq> [] \<Longrightarrow> root t = topaddr (nil t) (plug fs Tip)"
  shows "\<exists>t'. do { t \<leftarrow> transplant t3 a pa; nl \<leftarrow> get_left t a; t \<leftarrow> set_left t pa nl; t \<leftarrow> set_parent t nl pa;
      nb \<leftarrow> get_black t a; set_black t pa nb } = Some t' \<and>
    rep t' (plug fs (Br c l pa pk r)) \<and> same_store t t' \<and> nodes t' (nil t) = nodes t3 (nil t) \<and> nodes t' a = nodes t a"
proof -
  let ?n = "nil t" let ?x = "topaddr (nil t) r"
  let ?h = "(nodes t)(pa \<mapsto> \<lparr>key = pk, is_black = pc, parent = y, left = z, right = ?x\<rparr>)"
  have same: "nil t3 = ?n" "fresh t3 = fresh t" "root t3 = root t" "nodes t3 = hang ?n pa r ?h" by (simp_all add: t3)
  have sep: "a \<noteq> ?x" "pa \<noteq> ?x" "a \<noteq> pa" "?x \<notin> set (addrs l)" "?x \<notin> path_addrs fs" "pa \<notin> set (addrs l)" "pa \<notin> path_addrs fs"
    "pa \<notin> set (addrs r)" "pa \<noteq> ?n" "distinct (addrs r)" "?n \<notin> set (addrs r)"
    using D N topaddr_in [of ?n r] by (auto simp: path_addrs_def)
  have dom: "nodes t ?x \<noteq> None"
    using repr_dom [OF r] store(1) topaddr_in [of ?n r] by (auto simp: get_black_def)
  have "nodes t3 a = Some \<lparr>key = k, is_black = c, parent = above ?n fs, left = topaddr ?n l, right = x\<rparr>"
    "nodes t3 pa = Some \<lparr>key = pk, is_black = pc, parent = y, left = z, right = ?x\<rparr>"
    using a sep by (simp_all add: same hang_other)
  moreover have "repr (nodes t3) ?n a l" "repr_path (nodes t3) ?n a fs"
    using l(1) path sep by (simp_all add: same hang_def)
  moreover have "repr ?h ?n q r" using r sep by simp
  from repr_hang [OF this sep(10,11)] have "repr (nodes t3) ?n pa r" by (simp add: same)
  moreover have "get_black t3 ?n = Some True"
    using store(1) sep(9) by (cases "?x = ?n") (auto simp: same get_black_def hang_def option.map_comp comp_def)
  moreover have "nodes t3 b = None" if "nodes t b = None" for b
    using that dom store(4) sep by (auto simp: same hang_def)
  then have "nodes t3 0 = None" "\<forall>b \<ge> fresh t. nodes t3 b = None" using store(2,3) by blast+
  ultimately obtain t' where "do { t \<leftarrow> transplant t3 a pa; nl \<leftarrow> get_left t a; t \<leftarrow> set_left t pa nl; t \<leftarrow> set_parent t nl pa;
      nb \<leftarrow> get_black t a; set_black t pa nb } = Some t'"
    "rep t' (plug fs (Br c l pa pk r))" "same_store t3 t'" "nodes t' ?n = nodes t3 ?n" "nodes t' a = nodes t3 a"
    using replace_node [of t3 a k c fs l x pa pk pc y z r] l(2) D N root unfolding same(1-3) by blast
  moreover have "same_store t t3" by (simp add: same_store_def t3)
  moreover have "nodes t3 a = nodes t a" using sep by (simp add: same hang_other)
  ultimately show ?thesis by (auto simp: same_store_def)
qed

section \<open>Unlinking a node\<close>

text \<open>
  The tree after unlinking, seen from the place where a black node may be missing: \<open>b\<close> is the
  colour that left the tree.
\<close>

definition unlinked :: "'a rbtree \<Rightarrow> (nat \<times> 'a) list \<Rightarrow> nat \<Rightarrow> bool \<Rightarrow> 'a rbtree \<Rightarrow> 'a frame list \<Rightarrow> 'a shape \<Rightarrow> bool" where
  "unlinked t xs a b t' fs v \<longleftrightarrow> linked t' fs v \<and> same_store t t' \<and> entries (plug fs v) = xs \<and>
     nodes t' a \<noteq> None \<and> a \<notin> set (addrs (plug fs v)) \<and> a \<noteq> nil t \<and>
     (if b then delete_state t' fs v else rbt (plug fs v))"

lemma unlink_one_child:
  assumes R: "rep t (plug fs (Br c l a k r))" and B: "rbt (plug fs (Br c l a k r))"
    and v: "l = Tip \<and> v = r \<or> r = Tip \<and> v = l"
  shows "\<exists>t'. transplant t a (topaddr (nil t) v) = Some t' \<and>
    unlinked t (before fs @ entries l @ entries r @ after fs) a c t' fs v"
proof -
  from transplant_rep [OF R v] obtain t' where t': "transplant t a (topaddr (nil t) v) = Some t'" "linked t' fs v" "same_store t t'"
    "\<And>b. b \<notin> insert (nil t) (set (addrs (plug fs v))) \<Longrightarrow> nodes t' b = nodes t b" by blast
  have a: "a \<notin> set (addrs (plug fs v))" "a \<noteq> nil t" using R v by (auto simp: rep_def)
  then have "nodes t' a \<noteq> None" using t'(4) [of a] rep_focus [OF R] by simp
  moreover have "if c then delete_state t' fs v else rbt (plug fs v)"
  proof (cases c)
    case True
    then show ?thesis using B t'(2) v unfolding rbt_plug by (auto simp: delete_state_def intro: invc2_of_invc)
  next
    case False
    then show ?thesis using B v unfolding rbt_plug by auto
  qed
  ultimately show ?thesis using t' a v by (auto simp: unlinked_def)
qed

lemma path_ok_append:
  "path_ok n (gs @ InR c l a k # fs) = path_ok n (gs @ InR c l pa pk # fs)"
proof (induction gs arbitrary: n)
  case (Cons f gs)
  have "red_below (gs @ InR c l a k # fs) = red_below (gs @ InR c l pa pk # fs)" by (cases gs) auto
  with Cons show ?case by (cases f) auto
qed simp

text \<open>A node with two children: the next node takes its place.\<close>

lemma unlink_two_children:
  assumes R: "rep t (plug fs (Br c l a k (plug gs (Br pc Tip pa pk pr))))"
    and B: "rbt (plug fs (Br c l a k (plug gs (Br pc Tip pa pk pr))))" and l: "l \<noteq> Tip" and gs: "before gs = []"
    and t': "rep t' (plug fs (Br c l pa pk (plug gs pr)))" "same_store t t'" "nodes t' a = nodes t a"
    and nil: "pr = Tip \<Longrightarrow> get_parent t' (nil t) = Some (above (nil t) (gs @ InR c l pa pk # fs))"
  shows "unlinked t (before fs @ entries l @ entries (plug gs (Br pc Tip pa pk pr)) @ after fs) a pc t' (gs @ InR c l pa pk # fs) pr"
proof -
  let ?G = "gs @ InR c l pa pk # fs"
  have n: "nil t' = nil t" using t'(2) by (simp add: same_store_def)
  have rep': "rep t' (plug ?G pr)" using t'(1) by (simp add: plug_append)
  have L: "linked t' ?G pr"
  proof (cases pr)
    case Tip
    then show ?thesis using rep' nil n by (simp add: linked_def)
  next
    case (Br c0 l0 a0 k0 r0)
    then show ?thesis using rep' linked_Br by metis
  qed
  have a: "a \<notin> set (addrs (plug ?G pr))" "a \<noteq> nil t" "nodes t' a \<noteq> None"
    using R rep_focus [OF R] t'(3) by (auto simp: rep_def plug_append)
  have "rbt (plug (gs @ InR c l a k # fs) (Br pc Tip pa pk pr))" using B by (simp add: plug_append)
  then have P: "invc pr" "invh pr" "bheight pr = 0" "pc \<or> black pr" "pc \<or> red_below (gs @ InR c l a k # fs)"
    "path_ok (if pc then Suc 0 else 0) ?G"
    unfolding rbt_plug path_ok_append [of _ gs c l a k fs pa pk] by (auto split: if_splits)
  have "if pc then delete_state t' ?G pr else rbt (plug ?G pr)"
  proof (cases pc)
    case True
    then show ?thesis using P L by (simp add: delete_state_def invc2_of_invc)
  next
    case False
    then have "rbt (plug ?G pr)" unfolding rbt_plug using P by simp
    then show ?thesis using False by simp
  qed
  then show ?thesis
    using L a t'(2) gs by (simp add: unlinked_def before_append after_append)
qed

lemma unlink_next_child:
  assumes R: "rep t (plug fs (Br c l a k (Br pc Tip pa pk pr)))" and B: "rbt (plug fs (Br c l a k (Br pc Tip pa pk pr)))"
    and l: "l \<noteq> Tip"
  shows "\<exists>t1 t'. set_parent t (topaddr (nil t) pr) pa = Some t1 \<and>
    do { t \<leftarrow> transplant t1 a pa; nl \<leftarrow> get_left t a; t \<leftarrow> set_left t pa nl; t \<leftarrow> set_parent t nl pa;
      nb \<leftarrow> get_black t a; set_black t pa nb } = Some t' \<and>
    unlinked t (before fs @ entries l @ entries (Br pc Tip pa pk pr) @ after fs) a pc t' (InR c l pa pk # fs) pr"
proof -
  let ?n = "nil t" let ?x = "topaddr (nil t) pr"
  have P: "repr (nodes t) ?n a l" "repr (nodes t) ?n pa pr" "repr_path (nodes t) ?n a fs"
    "nodes t pa = Some \<lparr>key = pk, is_black = pc, parent = a, left = ?n, right = ?x\<rparr>"
    "get_black t ?n = Some True" "nodes t 0 = None" "\<forall>b \<ge> fresh t. nodes t b = None"
    using R by (simp_all add: rep_def repr_plug)
  have D: "distinct (addrs_before fs @ addrs l @ a # pa # addrs pr @ addrs_after fs)"
    "?n \<notin> set (addrs_before fs @ addrs l @ a # pa # addrs pr @ addrs_after fs)"
    using R by (auto simp: rep_def)
  have root: "root t = topaddr ?n (plug fs Tip)" if "fs \<noteq> []"
    using rep_root [OF R] top_plug_neq_Nil [OF that] by simp
  have "nodes t ?x \<noteq> None" using repr_dom [OF P(2)] P(5) topaddr_in [of ?n pr] by (auto simp: get_black_def)
  then obtain xd where xd: "nodes t ?x = Some xd" by auto
  let ?t1 = "t\<lparr>nodes := hang ?n pa pr ((nodes t)(pa \<mapsto> \<lparr>key = pk, is_black = pc, parent = a, left = ?n, right = ?x\<rparr>))\<rparr>"
  have "(nodes t)(pa \<mapsto> \<lparr>key = pk, is_black = pc, parent = a, left = ?n, right = ?x\<rparr>) = nodes t"
    using P(4) by (simp add: fun_upd_idem)
  then have t1: "set_parent t ?x pa = Some ?t1" using xd by (simp add: writes hang_def)
  from replace_hung [OF refl rep_focus [OF R] P(1) l P(2,3) D P(5-7) _ root, of pk pc a ?n] P(4) obtain t' where
    t': "do { t \<leftarrow> transplant ?t1 a pa; nl \<leftarrow> get_left t a; t \<leftarrow> set_left t pa nl; t \<leftarrow> set_parent t nl pa;
      nb \<leftarrow> get_black t a; set_black t pa nb } = Some t'" "rep t' (plug fs (Br c l pa pk pr))" "same_store t t'"
    "nodes t' ?n = nodes ?t1 ?n" "nodes t' a = nodes t a" by auto
  have "get_parent t' ?n = Some pa" if "pr = Tip"
    using t'(4) that P(5) D(2) by (auto simp: get_parent_def hang_def get_black_def)
  then have "unlinked t (before fs @ entries l @ entries (plug [] (Br pc Tip pa pk pr)) @ after fs) a pc t' ([] @ InR c l pa pk # fs) pr"
    using R B l t'(2,3,5) by (intro unlink_two_children) simp_all
  then show ?thesis using t1 t'(1) by auto
qed

lemma unlink_next_below:
  assumes R: "rep t (plug fs (Br c l a k (plug gs (Br pc Tip pa pk pr))))"
    and B: "rbt (plug fs (Br c l a k (plug gs (Br pc Tip pa pk pr))))"
    and l: "l \<noteq> Tip" and gs: "gs \<noteq> []" "before gs = []"
  shows "\<exists>t1 nr t2 t3 t'. transplant t pa (topaddr (nil t) pr) = Some t1 \<and> get_right t1 a = Some nr \<and>
    set_right t1 pa nr = Some t2 \<and> set_parent t2 nr pa = Some t3 \<and>
    do { t \<leftarrow> transplant t3 a pa; nl \<leftarrow> get_left t a; t \<leftarrow> set_left t pa nl; t \<leftarrow> set_parent t nl pa;
      nb \<leftarrow> get_black t a; set_black t pa nb } = Some t' \<and>
    unlinked t (before fs @ entries l @ entries (plug gs (Br pc Tip pa pk pr)) @ after fs) a pc t' (gs @ InR c l pa pk # fs) pr"
proof -
  let ?n = "nil t" let ?G = "gs @ InR c l a k # fs" let ?r = "plug gs pr"
  have RG: "rep t (plug ?G (Br pc Tip pa pk pr))" using R by (simp add: plug_append)
  from transplant_rep [OF RG, of pr] obtain t1 where t1: "transplant t pa (topaddr ?n pr) = Some t1" "linked t1 ?G pr"
    "same_store t t1" "\<And>b. b \<notin> insert ?n (set (addrs (plug ?G pr))) \<Longrightarrow> nodes t1 b = nodes t b" by blast
  have n: "nil t1 = ?n" using t1(3) by (simp add: same_store_def)
  have R1: "rep t1 (plug fs (Br c l a k ?r))" using t1(2) by (simp add: linked_def plug_append)
  have r: "?r \<noteq> Tip" using gs(1) by (cases gs rule: rev_cases; cases "last gs") (auto simp: plug_append)
  have "pa \<notin> insert ?n (set (addrs (plug ?G pr)))" using RG by (auto simp: rep_def)
  then have pa: "nodes t1 pa = Some \<lparr>key = pk, is_black = pc, parent = above ?n ?G, left = ?n, right = topaddr ?n pr\<rparr>"
    using t1(4) rep_focus [OF RG] by simp
  have P: "repr (nodes t1) ?n a l" "repr (nodes t1) ?n a ?r" "repr_path (nodes t1) ?n a fs"
    "get_black t1 ?n = Some True" "nodes t1 0 = None" "\<forall>b \<ge> fresh t1. nodes t1 b = None"
    using R1 n by (simp_all add: rep_def repr_plug)
  have D: "distinct (addrs_before fs @ addrs l @ a # pa # addrs ?r @ addrs_after fs)"
    "?n \<notin> set (addrs_before fs @ addrs l @ a # pa # addrs ?r @ addrs_after fs)"
    using R by (auto simp: rep_def)
  have root: "root t1 = topaddr ?n (plug fs Tip)" if "fs \<noteq> []"
    using rep_root [OF R1] top_plug_neq_Nil [OF that] n by simp
  let ?x = "topaddr ?n ?r"
  have x: "?x \<in> set (addrs ?r)" using r by (cases ?r) auto
  then obtain xd where xd: "nodes t1 ?x = Some xd" using repr_dom [OF P(2)] by blast
  have xp: "?x \<noteq> pa" "?x \<noteq> ?n" using x D by auto
  let ?t2 = "t1\<lparr>nodes := (nodes t1)(pa \<mapsto> \<lparr>key = pk, is_black = pc, parent = above ?n ?G, left = ?n, right = ?x\<rparr>)\<rparr>"
  let ?t3 = "t1\<lparr>nodes := hang ?n pa ?r ((nodes t1)(pa \<mapsto> \<lparr>key = pk, is_black = pc, parent = above ?n ?G, left = ?n, right = ?x\<rparr>))\<rparr>"
  have st: "get_right t1 a = Some ?x" "set_right t1 pa ?x = Some ?t2" "set_parent ?t2 ?x pa = Some ?t3"
    using rep_reads(5) [OF R1] n pa xd xp by (simp_all add: writes hang_def)
  from replace_hung [of ?t3 t1 pa ?r pk pc "above ?n ?G" ?n a k c fs l ?x a] rep_focus [OF R1] P l D root pa n obtain t' where
    t': "do { t \<leftarrow> transplant ?t3 a pa; nl \<leftarrow> get_left t a; t \<leftarrow> set_left t pa nl; t \<leftarrow> set_parent t nl pa;
      nb \<leftarrow> get_black t a; set_black t pa nb } = Some t'" "rep t' (plug fs (Br c l pa pk ?r))" "same_store t1 t'"
    "nodes t' ?n = nodes ?t3 ?n" "nodes t' a = nodes t1 a" by auto
  have "get_parent t' ?n = Some (above ?n (gs @ InR c l pa pk # fs))" if "pr = Tip"
  proof -
    have "nodes t' ?n = nodes t1 ?n" using t'(4) xp D(2) by (auto simp: hang_def)
    then have "get_parent t' ?n = Some (above ?n ?G)" using t1(2) that n by (simp add: linked_def get_parent_def)
    then show ?thesis using gs(1) by (cases gs) simp_all
  qed
  moreover have "same_store t t'" using t1(3) t'(3) by (simp add: same_store_def)
  moreover have "nodes t1 a = nodes t a"
    using rep_focus [OF R1] rep_focus [OF R] n top_plug_neq_Nil [OF gs(1), of ?n pr "Br pc Tip pa pk pr"] by simp
  ultimately have "unlinked t (before fs @ entries l @ entries (plug gs (Br pc Tip pa pk pr)) @ after fs) a pc t' (gs @ InR c l pa pk # fs) pr"
    using R B l gs(2) t'(2,5) by (intro unlink_two_children) simp_all
  then show ?thesis using t1(1) st t'(1) by blast
qed

end
