(* ===== verification/RBTree_Delete.thy ===== *)
theory RBTree_Delete
  imports RBTree_Unlink RBTree_Spec
begin

text \<open>
  Removal: \<^verbatim>\<open>remove(Node*)\<close> updates both ends, unlinks the node, frees it and restores the balance;
  \<^verbatim>\<open>remove\<close> refines the removal of the equal key from the sorted list of keys. The contract of the index
  is extended with removal, and the theory ends with the height bound and with \<^verbatim>\<open>clear\<close>.
\<close>

section \<open>All cases of the unlinking\<close>

lemma topaddr_nil: "rep t (plug fs s) \<Longrightarrow> topaddr (nil t) s = nil t \<longleftrightarrow> s = Tip"
  by (cases s) (auto simp: rep_def)

lemma unlink_node_rep:
  assumes R: "rep t (plug fs (Br c l a k r))" and B: "rbt (plug fs (Br c l a k r))"
  shows "\<exists>t' b fs' v. unlink_node t a = Some (t', b, topaddr (nil t) v) \<and>
    unlinked t (before fs @ entries l @ entries r @ after fs) a b t' fs' v"
proof -
  note reads = rep_reads [OF R]
  have top: "topaddr (nil t) l = nil t \<longleftrightarrow> l = Tip" "topaddr (nil t) r = nil t \<longleftrightarrow> r = Tip"
    using topaddr_nil [of t "InL c a k r # fs" l] topaddr_nil [of t "InR c l a k # fs" r] R by simp_all
  consider "l = Tip" | "l \<noteq> Tip" "r = Tip" | "l \<noteq> Tip" "r \<noteq> Tip" by blast
  then show ?thesis
  proof cases
    case 1
    with unlink_one_child [OF R B, of r] obtain t' where t': "transplant t a (topaddr (nil t) r) = Some t'"
      "unlinked t (before fs @ entries l @ entries r @ after fs) a c t' fs r" by blast
    then have "unlink_node t a = Some (t', c, topaddr (nil t) r)" using 1 reads by (simp add: unlink_node_def)
    with t'(2) show ?thesis by blast
  next
    case 2
    with unlink_one_child [OF R B, of l] obtain t' where t': "transplant t a (topaddr (nil t) l) = Some t'"
      "unlinked t (before fs @ entries l @ entries r @ after fs) a c t' fs l" by blast
    then have "unlink_node t a = Some (t', c, topaddr (nil t) l)" using 2 reads top by (simp add: unlink_node_def)
    with t'(2) show ?thesis by blast
  next
    case 3
    from leftmost_entry [of r] 3(2) obtain gs pc pa pk pr where
      r: "r = plug gs (Br pc Tip pa pk pr)" "before gs = []" by (auto simp: entries_Nil_iff)
    have P: "rep t (plug (gs @ InR c l a k # fs) (Br pc Tip pa pk pr))" using R r by (simp add: plug_append)
    have ml: "most_left t (topaddr (nil t) r) = Some pa"
      using most_left_rep [of t "InR c l a k # fs" r] R 3(2) r by simp
    note next_reads = rep_reads [OF P]
    show ?thesis
    proof (cases gs)
      case Nil
      from unlink_next_child [OF R [unfolded r(1) Nil, simplified] B [unfolded r(1) Nil, simplified] 3(1)]
      obtain t1 t' where u: "set_parent t (topaddr (nil t) pr) pa = Some t1"
        "do { t \<leftarrow> transplant t1 a pa; nl \<leftarrow> get_left t a; t \<leftarrow> set_left t pa nl; t \<leftarrow> set_parent t nl pa;
          nb \<leftarrow> get_black t a; set_black t pa nb } = Some t'"
        "unlinked t (before fs @ entries l @ entries r @ after fs) a pc t' (InR c l pa pk # fs) pr"
        using r Nil by auto
      then have "unlink_node t a = Some (t', pc, topaddr (nil t) pr)" using reads top 3 ml next_reads Nil
        by (auto simp: unlink_node_def bind_eq_Some_conv)
      with u(3) show ?thesis by blast
    next
      case (Cons g gs')
      have g: "faddr g \<noteq> a" using R Cons r(1) by (cases g) (auto simp: rep_def)
      from unlink_next_below [OF R [unfolded r(1)] B [unfolded r(1)] 3(1) _ r(2)] Cons
      obtain t1 nr t2 t3 t' where u: "transplant t pa (topaddr (nil t) pr) = Some t1" "get_right t1 a = Some nr"
        "set_right t1 pa nr = Some t2" "set_parent t2 nr pa = Some t3"
        "do { t \<leftarrow> transplant t3 a pa; nl \<leftarrow> get_left t a; t \<leftarrow> set_left t pa nl; t \<leftarrow> set_parent t nl pa;
          nb \<leftarrow> get_black t a; set_black t pa nb } = Some t'"
        "unlinked t (before fs @ entries l @ entries r @ after fs) a pc t' (gs @ InR c l pa pk # fs) pr"
        using r(1) by auto
      then have "unlink_node t a = Some (t', pc, topaddr (nil t) pr)" using g reads top 3 ml next_reads Cons
        by (auto simp: unlink_node_def bind_eq_Some_conv)
      with u(6) show ?thesis by blast
    qed
  qed
qed

section \<open>Both ends after a removal\<close>

lemma remove_ends_first:
  assumes R: "rep t (plug fs (Br c Tip a k r))" and B: "rbt (plug fs (Br c Tip a k r))" and fs: "before fs = []"
    and a: "first_node t = a"
  shows "remove_ends t a = Some (t\<lparr>first_node := it_of (nil t) (entries r @ after fs)\<rparr>)"
proof (cases r)
  case Tip
  have "above (nil t) fs = it_of (nil t) (after fs)" using fs
    by (cases fs; cases "hd fs") auto
  then show ?thesis using a rep_reads [OF R] Tip by (simp add: remove_ends_def)
next
  case (Br rc rl ra rk rr)
  have "bheight r = 0" "invc r" "c \<or> black r" using B unfolding rbt_plug by auto
  then have "rl = Tip" using Br by (cases rl) (auto split: if_splits)
  moreover have "ra \<noteq> nil t" using R Br by (auto simp: rep_def)
  ultimately show ?thesis using a rep_reads [OF R] Br by (simp add: remove_ends_def)
qed

lemma remove_ends_last:
  assumes R: "rep t (plug fs (Br c l a k Tip))" and B: "rbt (plug fs (Br c l a k Tip))" and fs: "after fs = []"
    and a: "first_node t \<noteq> a" "last_node t = a" and ne: "before fs @ entries l \<noteq> []"
  shows "remove_ends t a = Some (t\<lparr>last_node := fst (last (before fs @ entries l))\<rparr>)"
proof (cases l)
  case Tip
  have "above (nil t) fs = fst (last (before fs))" using fs ne Tip
    by (cases fs; cases "hd fs") auto
  then show ?thesis using a rep_reads [OF R] Tip by (simp add: remove_ends_def)
next
  case (Br lc ll la lk lr)
  have "bheight l = 0" "invc l" "invh l" "c \<or> black l" using B unfolding rbt_plug by auto
  then have "lr = Tip" using Br by (cases lr) (auto split: if_splits)
  moreover have "la \<noteq> nil t" using R Br by (auto simp: rep_def)
  ultimately show ?thesis using a rep_reads [OF R] Br by (simp add: remove_ends_def)
qed

text \<open>The update before the unlinking names the ends of the tree after it.\<close>

lemma remove_ends_ok:
  assumes R: "rep t (plug fs (Br c l a k r))" and B: "rbt (plug fs (Br c l a k r))" and E: "ends_ok t (plug fs (Br c l a k r))"
  shows "\<exists>x y. remove_ends t a = Some (t\<lparr>first_node := x, last_node := y\<rparr>) \<and>
    (\<forall>s. entries s = before fs @ entries l @ entries r @ after fs \<longrightarrow> ends_ok (t\<lparr>first_node := x, last_node := y\<rparr>) s)"
proof -
  let ?p = "before fs @ entries l" let ?q = "entries r @ after fs"
  have D: "distinct (map fst (?p @ (a, k) # ?q))" using rep_distinct [OF R] by simp
  have E': "first_node t = fst (hd (?p @ [(a, k)]))" "last_node t = fst (last ((a, k) # ?q))"
    using E by (auto simp: ends_ok_def hd_append last_append)
  have first: "first_node t = a \<longleftrightarrow> ?p = []"
    using D E'(1) by (cases ?p) auto
  have last: "last_node t = a \<longleftrightarrow> ?q = []"
    using D E'(2) last_in_set [of ?q] by (cases "?q = []") (auto simp del: last_in_set)
  consider "?p = []" | "?p \<noteq> []" "?q = []" | "?p \<noteq> []" "?q \<noteq> []" by blast
  then show ?thesis
  proof cases
    case 1
    then have "l = Tip" "before fs = []" "first_node t = a" using first by (simp_all add: entries_Nil_iff)
    with remove_ends_first [of t fs c a k r] R B
    have "remove_ends t a = Some (t\<lparr>first_node := it_of (nil t) ?q, last_node := last_node t\<rparr>)" by simp
    moreover have "ends_ok (t\<lparr>first_node := it_of (nil t) ?q, last_node := last_node t\<rparr>) s"
      if "entries s = ?p @ ?q" for s
      using that 1 E'(2) by (cases ?q) (simp_all add: ends_ok_def)
    ultimately show ?thesis by (metis append_assoc)
  next
    case 2
    then have "r = Tip" "after fs = []" "first_node t \<noteq> a" "last_node t = a" using first last by (simp_all add: entries_Nil_iff)
    with remove_ends_last [of t fs c l a k] R B 2
    have "remove_ends t a = Some (t\<lparr>first_node := first_node t, last_node := fst (last ?p)\<rparr>)" by simp
    moreover have "ends_ok (t\<lparr>first_node := first_node t, last_node := fst (last ?p)\<rparr>) s"
      if "entries s = ?p @ ?q" for s
      using that 2 E'(1) by (cases ?p) (simp_all add: ends_ok_def)
    ultimately show ?thesis by (metis append_assoc)
  next
    case 3
    then have "remove_ends t a = Some (t\<lparr>first_node := first_node t, last_node := last_node t\<rparr>)"
      using first last by (auto simp: remove_ends_def)
    moreover have "ends_ok (t\<lparr>first_node := first_node t, last_node := last_node t\<rparr>) s"
      if "entries s = ?p @ ?q" for s
      using that 3 E' by (cases ?p) (auto simp: ends_ok_def)
    ultimately show ?thesis by (metis append_assoc)
  qed
qed

section \<open>Removing a node\<close>

lemma rep_ends: "rep (t\<lparr>first_node := x, last_node := y\<rparr>) s = rep t s"
  by (simp add: rep_def get_black_def)

text \<open>Freeing a node that is no longer linked.\<close>

lemma rep_free:
  assumes "rep t s" "a \<notin> set (addrs s)" "a \<noteq> nil t"
  shows "rep (t\<lparr>nodes := (nodes t)(a := None)\<rparr>) s"
  using assms by (auto simp: rep_def get_black_def)

lemma unlinked_free:
  assumes U: "unlinked t xs a b t' fs v"
  obtains t'' where "delete_node t' a = Some t''" "unlinked t xs a b (t''\<lparr>nodes := nodes t'\<rparr>) fs v"
    "rep t'' (plug fs v)" "same_store t t''" "b \<Longrightarrow> delete_state t'' fs v" "\<not> b \<Longrightarrow> rbt (plug fs v)"
proof
  let ?t = "t'\<lparr>nodes := (nodes t')(a := None)\<rparr>"
  have a: "a \<notin> set (addrs (plug fs v))" "a \<noteq> nil t'" "nodes t' a \<noteq> None" and L: "linked t' fs v" and S: "same_store t t'"
    using U by (auto simp: unlinked_def same_store_def)
  show "delete_node t' a = Some ?t" using a(3) by (simp add: delete_node_def)
  show "unlinked t xs a b (?t\<lparr>nodes := nodes t'\<rparr>) fs v" using U by simp
  show R: "rep ?t (plug fs v)" using L a by (intro rep_free) (simp_all add: linked_def)
  show "same_store t ?t" using S by (simp add: same_store_def)
  have "topaddr (nil t') v \<noteq> a" using a topaddr_in [of "nil t'" v] by auto
  then have "linked ?t fs v" using L R by (simp add: linked_def get_parent_def)
  then show "delete_state ?t fs v" if b using U that by (simp add: unlinked_def delete_state_def)
  show "rbt (plug fs v)" if "\<not> b" using U that by (simp add: unlinked_def)
qed

lemma remove_node_rep:
  assumes R: "rep t (plug fs (Br c l a k r))" and B: "rbt (plug fs (Br c l a k r))" and E: "ends_ok t (plug fs (Br c l a k r))"
  shows "\<exists>t' s'. remove_node t a = Some t' \<and> rep t' s' \<and> rbt s' \<and> ends_ok t' s' \<and> tsize t' = tsize t \<and> fresh t' = fresh t \<and>
    entries s' = before fs @ entries l @ entries r @ after fs"
proof -
  let ?xs = "before fs @ entries l @ entries r @ after fs"
  from remove_ends_ok [OF R B E] obtain x y where e: "remove_ends t a = Some (t\<lparr>first_node := x, last_node := y\<rparr>)"
    and ends: "\<And>s. entries s = ?xs \<Longrightarrow> ends_ok (t\<lparr>first_node := x, last_node := y\<rparr>) s" by blast
  let ?t1 = "t\<lparr>first_node := x, last_node := y\<rparr>"
  from unlink_node_rep [of ?t1, OF _ B] R obtain t2 b fs' v where
    u: "unlink_node ?t1 a = Some (t2, b, topaddr (nil ?t1) v)" "unlinked ?t1 ?xs a b t2 fs' v" unfolding rep_ends by blast
  from unlinked_free [OF u(2)] obtain t3 where t3: "delete_node t2 a = Some t3" "rep t3 (plug fs' v)" "same_store ?t1 t3"
    "b \<Longrightarrow> delete_state t3 fs' v" "\<not> b \<Longrightarrow> rbt (plug fs' v)" by blast
  have xs: "entries (plug fs' v) = ?xs" and n: "nil t3 = nil ?t1" using u(2) t3(3) by (simp_all add: unlinked_def same_store_def)
  have fin: "ends_ok t' s'" if "entries s' = ?xs" "same_store ?t1 t'" for t' s'
    using ends [OF that(1)] that(2) by (auto simp: ends_ok_def same_store_def split: if_splits)
  show ?thesis
  proof (cases b)
    case True
    from rebalance_delete_rep [OF t3(4) [OF True]] obtain t4 s4 where t4: "rebalance_delete t3 (topaddr (nil t3) v) = Some t4"
      "rep t4 s4" "rbt s4" "same_meta t3 t4" "entries s4 = ?xs" using xs by auto
    have "same_store ?t1 t4" using t3(3) t4(4) by (simp add: same_store_def same_meta_def)
    moreover from this have "tsize t4 = tsize t" "fresh t4 = fresh t" by (simp_all add: same_store_def)
    moreover have "remove_node t a = Some t4" using e u(1) t3(1) t4(1) True n by (simp add: remove_node_def)
    ultimately show ?thesis using t4 fin by blast
  next
    case False
    have "tsize t3 = tsize t" "fresh t3 = fresh t" using t3(3) by (simp_all add: same_store_def)
    moreover have "remove_node t a = Some t3" using e u(1) t3(1) False by (simp add: remove_node_def)
    ultimately show ?thesis using t3 fin [OF xs] xs False by blast
  qed
qed

section \<open>Removal from the index\<close>

definition drop_key :: "('k \<Rightarrow> 'k \<Rightarrow> bool) \<Rightarrow> 'k \<Rightarrow> 'k list \<Rightarrow> 'k list" where
  "drop_key lt v ks = filter (\<lambda>k. \<not> same_key lt v k) ks"

definition drop_entry :: "('k \<Rightarrow> 'k \<Rightarrow> bool) \<Rightarrow> 'k \<Rightarrow> (nat \<times> 'k) list \<Rightarrow> (nat \<times> 'k) list" where
  "drop_entry lt v xs = filter (\<lambda>x. \<not> same_key lt v (snd x)) xs"

lemma map_snd_drop_entry: "map snd (drop_entry lt v xs) = drop_key lt v (map snd xs)"
  by (induction xs) (auto simp: drop_entry_def drop_key_def)

lemma find_entry_Some: "find_entry lt v xs = Some e \<Longrightarrow> same_key lt v (snd e)"
  by (induction lt v xs rule: find_entry.induct) (auto simp: same_key_def split: if_splits)

lemma drop_entry_none: "find_entry lt v xs = None \<Longrightarrow> drop_entry lt v xs = xs"
  by (induction lt v xs rule: find_entry.induct) (auto simp: drop_entry_def same_key_def split: if_splits)

lemma sorted_keys_delete: "sorted_keys lt (xs @ e # ys) \<Longrightarrow> sorted_keys lt (xs @ ys)"
  by (simp add: sorted_keys_append)

context comparator
begin

lemma same_key_sym: "same_key lt v k \<Longrightarrow> same_key lt k v"
  by (simp add: same_key_def)

lemma same_key_trans: "same_key lt v k \<Longrightarrow> same_key lt k j \<Longrightarrow> same_key lt v j"
  using neg_trans [of v k j] neg_trans [of j k v] by (simp add: same_key_def)

lemma drop_entry_mid:
  assumes "sorted_keys lt (xs @ (a, k) # ys)" "same_key lt v k"
  shows "drop_entry lt v (xs @ (a, k) # ys) = xs @ ys"
proof -
  have "below lt xs k" "over lt k ys" using sorted_keys_mid [OF assms(1)] by simp_all
  then have "below lt xs v" "over lt v ys"
    using below_mono [of xs k v] over_mono [of k ys v] assms(2) by (simp_all add: same_key_def)
  then have "drop_entry lt v xs = xs" "drop_entry lt v ys = ys"
    using find_entry_below find_entry_over drop_entry_none by metis+
  with assms(2) show ?thesis by (simp add: drop_entry_def)
qed

lemma rb_remove_index:
  assumes I: "is_index lt t xs"
  shows "\<exists>t'. rb_remove lt t v = Some (t', find_entry lt v xs \<noteq> None) \<and> is_index lt t' (drop_entry lt v xs) \<and>
    fresh t' = fresh t"
proof -
  obtain s where s: "rep t s" "rbt s" "sorted_keys lt (entries s)" "ends_ok t s" "tsize t = of_nat (length (entries s))"
    "entries s = xs" using I by (auto simp: is_index_def rb_inv_def)
  have search: "search_tree lt t (root t) v = Some (case find_entry lt v xs of None \<Rightarrow> nil t | Some e \<Rightarrow> fst e)"
    using search_tree_rep [of t "nil t" s v] s by (simp add: rep_def)
  show ?thesis
  proof (cases "find_entry lt v xs")
    case None
    then show ?thesis using search I by (simp add: rb_remove_def drop_entry_none)
  next
    case (Some e)
    obtain a k where e: "e = (a, k)" by (cases e)
    then have "(a, k) \<in> set (entries s)" using find_entry_in [OF Some] s(6) by simp
    from focus_exists [OF this] obtain fs c l r where f: "s = plug fs (Br c l a k r)" by blast
    from remove_node_rep [of t fs c l a k r] s f obtain t' s' where t': "remove_node t a = Some t'" "rep t' s'" "rbt s'"
      "ends_ok t' s'" "tsize t' = tsize t" "fresh t' = fresh t" "entries s' = before fs @ entries l @ entries r @ after fs" by auto
    have xs: "xs = (before fs @ entries l) @ (a, k) # entries r @ after fs" using s(6) f by simp
    have drop: "drop_entry lt v xs = entries s'"
      using drop_entry_mid [of "before fs @ entries l" a k "entries r @ after fs" v] s(3,6) find_entry_Some [OF Some] e t'(7)
      unfolding xs by simp
    have "sorted_keys lt (entries s')"
      using sorted_keys_delete [of lt "before fs @ entries l" "(a, k)" "entries r @ after fs"] s(3,6) t'(7) unfolding xs by simp
    then have "rb_inv lt (t'\<lparr>tsize := tsize t' - 1\<rparr>) s'"
      using t' s(5) f by (simp add: rb_inv_def rep_def get_black_def ends_ok_def)
    moreover have "rb_remove lt t v = Some (t'\<lparr>tsize := tsize t' - 1\<rparr>, True)"
      using search Some e t'(1) rep_neq_nil [of t fs c l a k r] s(1) f by (auto simp: rb_remove_def)
    ultimately show ?thesis using drop Some t'(6) by (auto simp: is_index_def)
  qed
qed

end

section \<open>The contract with removal\<close>

datatype 'k change = Put 'k | Del 'k

fun change_key :: "'k change \<Rightarrow> 'k" where
  "change_key (Put k) = k"
| "change_key (Del k) = k"

text \<open>What a sequence of changes leaves for a key: the element put last, unless it was removed since.\<close>

definition survivor :: "('k \<Rightarrow> 'k \<Rightarrow> bool) \<Rightarrow> 'k \<Rightarrow> 'k change list \<Rightarrow> 'k option" where
  "survivor lt v cs = (case find (\<lambda>c. same_key lt v (change_key c)) (rev cs) of Some (Put k) \<Rightarrow> Some k | _ \<Rightarrow> None)"

primrec change_all :: "('t \<Rightarrow> 'k \<Rightarrow> 't option) \<Rightarrow> ('t \<Rightarrow> 'k \<Rightarrow> ('t \<times> bool) option) \<Rightarrow> 't \<Rightarrow> 'k change list \<Rightarrow> 't option" where
  "change_all put del t [] = Some t"
| "change_all put del t (c # cs) =
     Option.bind (case c of Put k \<Rightarrow> put t k | Del k \<Rightarrow> map_option fst (del t k)) (\<lambda>t. change_all put del t cs)"

fun change_keys :: "('k \<Rightarrow> 'k \<Rightarrow> bool) \<Rightarrow> 'k change \<Rightarrow> 'k list \<Rightarrow> 'k list" where
  "change_keys lt (Put k) ks = put_key lt k ks"
| "change_keys lt (Del k) ks = drop_key lt k ks"

locale changing_index = ordered_index lt index lookup put walk
  for lt :: "'k \<Rightarrow> 'k \<Rightarrow> bool" and index :: "'t \<Rightarrow> 'k list \<Rightarrow> bool" and lookup :: "'t \<Rightarrow> 'k \<Rightarrow> 'k option option"
    and put :: "'t \<Rightarrow> 'k \<Rightarrow> 't option" and walk :: "'t \<Rightarrow> 'k list option" +
  fixes del :: "'t \<Rightarrow> 'k \<Rightarrow> ('t \<times> bool) option"
  assumes del_index: "index t ks \<Longrightarrow> \<exists>t'. del t v = Some (t', find (same_key lt v) ks \<noteq> None) \<and> index t' (drop_key lt v ks)"
begin

lemma find_drop_key: "find (same_key lt w) (drop_key lt v ks) = (if same_key lt w v then None else find (same_key lt w) ks)"
proof (induction ks)
  case (Cons k ks)
  have "same_key lt v k = same_key lt w k" if "same_key lt w v"
    using that same_key_trans [of v w k] same_key_trans [of w v k] same_key_sym [of w v] by blast
  moreover have "same_key lt w v" if "same_key lt v k" "same_key lt w k"
    using that same_key_trans [of w k v] same_key_sym [of v k] by blast
  ultimately show ?case using Cons by (auto simp: drop_key_def)
qed (simp add: drop_key_def)

lemma change_all_index:
  "index t ks \<Longrightarrow> \<exists>t'. change_all put del t cs = Some t' \<and> index t' (fold (change_keys lt) cs ks)"
proof (induction cs arbitrary: t ks)
  case (Cons c cs)
  from put_index [OF Cons.prems] del_index [OF Cons.prems] obtain t1 where
    "(case c of Put k \<Rightarrow> put t k | Del k \<Rightarrow> map_option fst (del t k)) = Some t1" "index t1 (change_keys lt c ks)"
    by (cases c) fastforce+
  with Cons.IH show ?case by auto
qed simp

lemma find_changes:
  assumes "index t []"
  shows "find (same_key lt v) (fold (change_keys lt) cs []) = survivor lt v cs"
proof (induction cs rule: rev_induct)
  case (snoc c cs)
  have "sorted_wrt lt (fold (change_keys lt) cs [])"
    using change_all_index [OF assms, of cs] index_sorted by blast
  with snoc find_put_key find_drop_key show ?case by (cases c) (auto simp: survivor_def)
qed (simp add: survivor_def)

lemma script:
  assumes "index t []"
  shows "\<exists>t' ks. change_all put del t cs = Some t' \<and> walk t' = Some ks \<and> sorted_wrt lt ks \<and>
    (\<forall>v. lookup t' v = Some (survivor lt v cs))"
proof -
  obtain t' where t': "change_all put del t cs = Some t'" "index t' (fold (change_keys lt) cs [])"
    using change_all_index [OF assms] by blast
  moreover have "lookup t' v = Some (survivor lt v cs)" for v
    using lookup_index [OF t'(2)] find_changes [OF assms] by simp
  ultimately show ?thesis using walk_index index_sorted by blast
qed

end

sublocale comparator \<subseteq> rbd: changing_index lt "tree_keys lt" "rb_find lt" "rb_insert lt"
  "\<lambda>t. iterate t (begin_it t) []" "rb_remove lt"
proof
  fix t ks v
  assume "tree_keys lt t ks"
  then obtain xs where xs: "is_index lt t xs" "map snd xs = ks" by (auto simp: tree_keys_def)
  have "find_entry lt v xs = None \<longleftrightarrow> find (same_key lt v) ks = None"
    using map_snd_find_entry [of lt v xs] xs(2) by (metis option.map_disc_iff)
  then show "\<exists>t'. rb_remove lt t v = Some (t', find (same_key lt v) ks \<noteq> None) \<and> tree_keys lt t' (drop_key lt v ks)"
    using rb_remove_index [OF xs(1), of v] xs(2) map_snd_drop_entry [of lt v xs] by (auto simp: tree_keys_def)
qed

context comparator
begin

lemma script_tree:
  "\<exists>t ks. change_all (rb_insert lt) (rb_remove lt) (new_rbtree d) cs = Some t \<and>
    iterate t (begin_it t) [] = Some ks \<and> sorted_wrt lt ks \<and>
    (\<forall>v. rb_find lt t v = Some (survivor lt v cs))"
  by (rule rbd.script) (rule new_rbtree_keys)

end

section \<open>Properties of removal\<close>

text \<open>
  C8. Removal refines removal from a sorted list: on a well-formed tree with the entries \<open>xs\<close>,
  \<^verbatim>\<open>remove\<close> returns, reports whether an equal key was there, and leaves a well-formed red-black
  tree (linked, coloured, balanced, with the right first and last node) without that entry; every
  other node keeps its address, and the size drops by one exactly when a key was removed.
\<close>

theorem rb_remove_refines:
  assumes "comparator lt" "is_index lt t xs"
  shows "\<exists>t'. rb_remove lt t v = Some (t', find_entry lt v xs \<noteq> None) \<and>
    is_index lt t' (filter (\<lambda>x. \<not> same_key lt v (snd x)) xs) \<and>
    rb_size t' = (if find_entry lt v xs = None then rb_size t else rb_size t - 1)"
proof -
  have "length (drop_entry lt v xs) = (if find_entry lt v xs = None then length xs else length xs - 1) \<and>
    (find_entry lt v xs \<noteq> None \<longrightarrow> xs \<noteq> [])"
  proof (cases "find_entry lt v xs")
    case (Some e)
    from split_list [OF find_entry_in [OF Some]] obtain us ws where xs: "xs = us @ e # ws" by blast
    with comparator.drop_entry_mid [OF assms(1), of us "fst e" "snd e" ws v] find_entry_Some [OF Some]
      is_index_sorted [OF assms(2)] Some show ?thesis by simp
  qed (simp add: drop_entry_none)
  moreover obtain t' where "rb_remove lt t v = Some (t', find_entry lt v xs \<noteq> None)" "is_index lt t' (drop_entry lt v xs)"
    using comparator.rb_remove_index [OF assms, of v] by blast
  ultimately show ?thesis
    using is_index_size [OF assms(2)] is_index_size [of lt t' "drop_entry lt v xs"]
    by (auto simp: drop_entry_def of_nat_diff Suc_le_eq split: if_splits)
qed

theorem rb_remove_refines_witness:
  "\<exists>t t'. rb_insert (<) (new_rbtree (0::int)) 5 = Some t \<and> rb_remove (<) t 5 = Some (t', True) \<and> is_index (<) t' []"
proof -
  obtain t where t: "rb_insert (<) (new_rbtree (0::int)) 5 = Some t" "is_index (<) t [(2, 5)]"
    using comparator.rb_insert_index [OF less_comparator new_rbtree_index, of "0::int" 5] by (auto simp: new_rbtree_def)
  from rb_remove_refines [OF less_comparator t(2), of 5] t(1) show ?thesis by (auto simp: same_key_def)
qed

text \<open>
  C30. Any interleaving of insertions and removals on a new tree succeeds; iterating the result from
  \<^verbatim>\<open>begin\<close> visits strictly increasing keys, and \<^verbatim>\<open>find\<close> returns for every value the equal element
  inserted last, or nothing when it was removed since or never inserted.
\<close>

theorem rb_script:
  assumes "comparator lt"
  shows "\<exists>t ks. change_all (rb_insert lt) (rb_remove lt) (new_rbtree d) cs = Some t \<and>
    iterate t (begin_it t) [] = Some ks \<and> sorted_wrt lt ks \<and>
    (\<forall>v. rb_find lt t v = Some (survivor lt v cs))"
  using assms by (rule comparator.script_tree)

theorem rb_script_witness:
  "\<exists>t ks. change_all (rb_insert (<)) (rb_remove (<)) (new_rbtree (0::int)) [Put 5, Put 2, Put 9, Del 5, Del 9, Put 9] = Some t \<and>
    iterate t (begin_it t) [] = Some ks \<and> sorted_wrt (<) ks \<and>
    (\<forall>v. rb_find (<) t v = Some (survivor (<) v [Put 5, Put 2, Put 9, Del 5, Del 9, Put 9]))"
  using rb_script [OF less_comparator, of 0 "[Put 5, Put 2, Put 9, Del 5, Del 9, Put 9]"] .

section \<open>Height\<close>

lemma change_all_append: "change_all put del t (cs @ ds) = Option.bind (change_all put del t cs) (\<lambda>t. change_all put del t ds)"
  by (induction cs arbitrary: t) (simp_all split: bind_splits)

lemma length_ins_entry: "length (ins_entry lt a v xs) \<le> Suc (length xs)"
  by (induction lt a v xs rule: ins_entry.induct) auto

lemma change_all_tree:
  assumes "comparator lt"
  shows "\<exists>t xs. change_all (rb_insert lt) (rb_remove lt) (new_rbtree d) cs = Some t \<and> is_index lt t xs \<and> length xs \<le> length cs"
proof (induction cs rule: rev_induct)
  case (snoc c cs)
  then obtain t xs where t: "change_all (rb_insert lt) (rb_remove lt) (new_rbtree d) cs = Some t" "is_index lt t xs"
    "length xs \<le> length cs" by blast
  show ?case
  proof (cases c)
    case (Put v)
    from comparator.rb_insert_index [OF assms t(2), of v] obtain t' where
      "rb_insert lt t v = Some t'" "is_index lt t' (ins_entry lt (fresh t) v xs)" by blast
    with t Put length_ins_entry [of lt "fresh t" v xs] show ?thesis
      by (intro exI [of _ t'] exI [of _ "ins_entry lt (fresh t) v xs"]) (simp add: change_all_append)
  next
    case (Del v)
    from comparator.rb_remove_index [OF assms t(2), of v] obtain t' f where
      "rb_remove lt t v = Some (t', f)" "is_index lt t' (drop_entry lt v xs)" by blast
    moreover have "length (drop_entry lt v xs) \<le> length xs" by (simp add: drop_entry_def)
    ultimately show ?thesis using t Del
      by (intro exI [of _ t'] exI [of _ "drop_entry lt v xs"]) (simp add: change_all_append)
  qed
qed (use new_rbtree_index in fastforce)

text \<open>
  C31. Logarithmic height: after any insertions and removals a tree is the image of a shape whose number of
  nodes is the size and at most the number of changes, and whose height is at most twice the binary
  logarithm of the number of its nodes plus one, so the descents of \<^verbatim>\<open>find\<close>, \<^verbatim>\<open>insert\<close> and
  \<^verbatim>\<open>remove\<close> are short.
\<close>

theorem rb_height:
  assumes "comparator lt" "change_all (rb_insert lt) (rb_remove lt) (new_rbtree d) cs = Some t"
  shows "\<exists>s. rep t s \<and> length (entries s) \<le> length cs \<and> rb_size t = of_nat (length (entries s)) \<and>
    2 ^ height s \<le> (Suc (length (entries s)))\<^sup>2"
proof -
  obtain xs where "is_index lt t xs" "length xs \<le> length cs"
    using change_all_tree [OF assms(1), of d cs] assms(2) by auto
  then show ?thesis using height_size by (auto simp: is_index_def rb_inv_def rb_size_def)
qed

theorem rb_height_witness:
  "\<exists>t s. change_all (rb_insert (<)) (rb_remove (<)) (new_rbtree (0::int)) [Put 1, Put 2, Put 3, Put 4, Del 2, Put 5] = Some t \<and>
    rep t s \<and> length (entries s) \<le> 6 \<and> 2 ^ height s \<le> (Suc (length (entries s)))\<^sup>2"
proof -
  obtain t where t: "change_all (rb_insert (<)) (rb_remove (<)) (new_rbtree (0::int)) [Put 1, Put 2, Put 3, Put 4, Del 2, Put 5] = Some t"
    using change_all_tree [OF less_comparator, of 0 "[Put 1, Put 2, Put 3, Put 4, Del 2, Put 5]"] by blast
  from rb_height [OF less_comparator t] t show ?thesis by auto
qed

section \<open>Clearing\<close>

lemma repr_restrict:
  "set (addrs s) \<subseteq> A \<Longrightarrow> repr (h |` A) n p s = repr h n p s"
  by (rule repr_cong) (auto simp: restrict_map_def)

lemma clear_from_rep:
  assumes "repr (nodes t) (nil t) p s" "distinct (addrs s)" "nil t \<notin> set (addrs s)"
  shows "clear_from t (topaddr (nil t) s) =
    Some (t\<lparr>nodes := nodes t |` (- set (addrs s)), tsize := tsize t - of_nat (length (addrs s))\<rparr>)"
  using assms
proof (induction s arbitrary: t p)
  case Tip
  show ?case by (subst clear_from.simps) (simp add: restrict_map_def)
next
  case (Br c l a k r)
  let ?t1 = "t\<lparr>nodes := nodes t |` (- set (addrs l)), tsize := tsize t - of_nat (length (addrs l))\<rparr>"
  let ?t2 = "?t1\<lparr>nodes := nodes ?t1 |` (- set (addrs r)), tsize := tsize ?t1 - of_nat (length (addrs r))\<rparr>"
  have sep: "a \<notin> set (addrs l)" "a \<notin> set (addrs r)" "set (addrs r) \<subseteq> - set (addrs l)" "a \<noteq> nil t"
    using Br.prems by auto
  have n: "nodes t a = Some \<lparr>key = k, is_black = c, parent = p, left = topaddr (nil t) l, right = topaddr (nil t) r\<rparr>"
    using Br.prems by simp
  have L: "clear_from t (topaddr (nil t) l) = Some ?t1" using Br.prems by (intro Br.IH(1) [of _ a]) simp_all
  have R: "clear_from ?t1 (topaddr (nil ?t1) r) = Some ?t2"
    using Br.prems repr_restrict [OF sep(3)] by (intro Br.IH(2) [of _ a]) simp_all
  have reads: "get_left t a = Some (topaddr (nil t) l)" "get_right ?t1 a = Some (topaddr (nil t) r)" "nodes ?t2 a \<noteq> None"
    using n sep by (simp_all add: get_left_def get_right_def)
  have "clear_from t a = do { t \<leftarrow> delete_node ?t2 a; Some (t\<lparr>tsize := tsize t - 1\<rparr>) }"
    using reads(1,2) sep(4) L R by (subst clear_from.simps) simp
  moreover have "(nodes ?t2)(a := None) = nodes t |` (- set (addrs (Br c l a k r)))"
    by (auto simp: restrict_map_def fun_eq_iff)
  ultimately show ?case using reads(3) by (simp add: delete_node_def)
qed

text \<open>
  C32. Clearing a tree returns, frees every node of the tree and nothing else, and leaves an empty root
  and the size 0. The ends are not reset: when the tree was not empty, asking for its first or last
  element afterwards dereferences a freed node.
\<close>

theorem rb_clear_effect:
  assumes "is_index lt t xs"
  shows "\<exists>t'. rb_clear t = Some t' \<and> rep t' Tip \<and> rb_size t' = 0 \<and>
    nodes t' = nodes t |` (- fst ` set xs) \<and>
    (xs \<noteq> [] \<longrightarrow> rb_first t' = None \<and> rb_last t' = None)"
proof -
  obtain s where s: "rep t s" "ends_ok t s" "tsize t = of_nat (length (entries s))" "entries s = xs"
    using assms by (auto simp: is_index_def rb_inv_def)
  let ?t = "t\<lparr>nodes := nodes t |` (- set (addrs s)), tsize := tsize t - of_nat (length (addrs s)), root := nil t\<rparr>"
  have A: "set (addrs s) = fst ` set xs" "length (addrs s) = length (entries s)"
    using s(4) map_fst_entries [of s] by (metis set_map, metis length_map)
  have "rb_clear t = Some ?t"
    using clear_from_rep [of t "nil t" s] s(1) by (simp add: rb_clear_def rep_def)
  moreover have "rep ?t Tip" using s(1) by (auto simp: rep_def get_black_def restrict_map_def)
  moreover have "rb_size ?t = 0" using s(3) A(2) by (simp add: rb_size_def)
  moreover have "rb_first ?t = None \<and> rb_last ?t = None" if "xs \<noteq> []"
  proof -
    have "fst (hd xs) \<in> set (addrs s)" "fst (last xs) \<in> set (addrs s)" using that A(1) by auto
    moreover from this have "fst (hd xs) \<noteq> nil t" "fst (last xs) \<noteq> nil t" using s(1) by (auto simp: rep_def)
    ultimately show ?thesis using s(2,4) that
      by (simp add: rb_first_def rb_last_def ends_ok_def get_key_def)
  qed
  ultimately show ?thesis using A(1) by (intro exI [of _ ?t]) simp
qed

theorem rb_clear_effect_witness:
  "\<exists>t t'. rb_insert (<) (new_rbtree (0::int)) 5 = Some t \<and> rb_clear t = Some t' \<and> rb_size t' = 0 \<and> rb_first t' = None"
proof -
  obtain t where t: "rb_insert (<) (new_rbtree (0::int)) 5 = Some t" "is_index (<) t [(2, 5)]"
    using comparator.rb_insert_index [OF less_comparator new_rbtree_index, of "0::int" 5] by (auto simp: new_rbtree_def)
  from rb_clear_effect [OF t(2)] t(1) show ?thesis by auto
qed

end
