(* ===== verification/Book_Dates.thy ===== *)
theory Book_Dates
  imports Book_Query RBTree_Delete
begin

text \<open>
  Operations of the book that remove from its trees of orders: cancelling an order that carries the
  stop parameter, and the end-of-day check, which cancels expired dated orders and takes them out
  of the tree of dated orders.
\<close>

section \<open>Cancelling an order with the stop parameter\<close>

definition stops_of :: "bool \<Rightarrow> OrderBook \<Rightarrow> nat rbtree" where
  "stops_of buy b = (if buy then bid_stop_orders b else ask_stop_orders b)"

definition stops_lt :: "bool \<Rightarrow> OrderBook \<Rightarrow> nat \<Rightarrow> nat \<Rightarrow> bool" where
  "stops_lt buy b = (if buy then bid_stop_lt b else ask_stop_lt b)"

definition set_stops :: "bool \<Rightarrow> nat rbtree \<Rightarrow> OrderBook \<Rightarrow> OrderBook" where
  "set_stops buy t b = (if buy then b\<lparr>bid_stop_orders := t\<rparr> else b\<lparr>ask_stop_orders := t\<rparr>)"

interpretation stop_order: comparator "stops_lt buy b" for buy b
  using bid_stop_order.comparator_axioms ask_stop_order.comparator_axioms by (simp add: stops_lt_def)

lemma parked_index: "parked_ok b \<Longrightarrow> \<exists>xs. is_index (stops_lt buy b) (stops_of buy b) xs"
  by (auto simp: parked_ok_def keys_ok_def stops_lt_def stops_of_def)

lemma remove_stop_order_runs:
  assumes "parked_ok b" "order_mem b q = Some ord"
  obtains t where "remove_stop_order q b = Some ((set_stops (is_buy ord) t b)\<lparr>orders := AList.delete (order_id ord) (orders b)\<rparr>)"
proof -
  obtain xs where "is_index (stops_lt (is_buy ord) b) (stops_of (is_buy ord) b) xs" using parked_index [OF assms(1)] by blast
  from stop_order.rb_remove_index [OF this, of q] obtain t f where
    "rb_remove (stops_lt (is_buy ord) b) (stops_of (is_buy ord) b) q = Some (t, f)" by blast
  then have "remove_stop_order q b = Some ((set_stops (is_buy ord) t b)\<lparr>orders := AList.delete (order_id ord) (orders b)\<rparr>)"
    using assms(2) by (auto simp: remove_stop_order_def stops_lt_def stops_of_def set_stops_def split: if_splits)
  then show ?thesis by (rule that)
qed

lemma listing_cong:
  assumes "is_index (limits_lt buy b) (limits_of buy b) xs" "map snd xs = map fst ls" "levels_ok b' ls"
    "limits_of buy b' = limits_of buy b"
  shows "list_limits b' (limits_of buy b') (begin_it (limits_of buy b')) [] = Some (concat (map snd ls))"
  using list_limits_index [of _ _ "[]", OF _ assms(2,3)] assms(1,4) by (simp add: index_begin)

lemma side_lists_kept:
  assumes ok: "book_ok b bl al" and limits: "\<And>buy. limits_of buy b' = limits_of buy b" and levels: "\<And>ls. levels_ok b' ls = levels_ok b ls"
  shows "get_bids b' = get_bids b" "get_asks b' = get_asks b"
proof -
  have S: "side_ok True b bl" "side_ok False b al" using ok by (simp_all add: book_ok_def book_struct_def)
  have "list_limits b' (limits_of buy b') (begin_it (limits_of buy b')) [] = Some (concat (map snd ls))"
    if "side_ok buy b ls" for buy ls
    using that limits levels listing_cong [of buy b _ ls b'] by (auto simp: side_ok_def)
  from this [OF S(1)] this [OF S(2)] side_queries(1) [OF S(1)] side_queries(1) [OF S(2)]
  show "get_bids b' = get_bids b" "get_asks b' = get_asks b" by (simp_all add: get_bids_def get_asks_def limits_of_def)
qed

lemma marked_levels:
  assumes "order_mem b' = order_mem (mark q b)" "limit_mem b' = limit_mem b"
  shows "levels_ok b' ls = levels_ok b ls"
  using levels_ok_cong [of ls b' "mark q b"] assms mark_levels by (simp add: mark_def)

lemma cancel_stop_order:
  assumes ok: "book_ok b bl al" and i: "map_of (orders b) i = Some q" and s: "has_param (order_at b q) STOP"
  shows "\<exists>b'. cancel_order i b = Some (Inl (Erased_entry, b')) \<and> get_bids b' = get_bids b \<and> get_asks b' = get_asks b \<and>
    cancelled (order_at b' q) \<and> map_of (orders b') i = None"
proof -
  note q = listed_order [OF ok i]
  let ?m = "mark q b"
  obtain ord where ord: "order_mem ?m q = Some ord" using q(3) by (auto simp: mark_def)
  have P: "parked_ok b" using ok by (simp add: book_ok_def book_struct_def)
  have "parked_ok ?m" using P mark_frame mark_keys by (rule parked_ok_frame)
  from remove_stop_order_runs [OF this ord] obtain t where
    t: "remove_stop_order q ?m = Some ((set_stops (is_buy ord) t ?m)\<lparr>orders := AList.delete (order_id ord) (orders ?m)\<rparr>)" .
  let ?b = "(set_stops (is_buy ord) t ?m)\<lparr>orders := AList.delete (order_id ord) (orders ?m)\<rparr>"
  have mem: "order_mem ?b = order_mem ?m" "limit_mem ?b = limit_mem b" "limits_of buy ?b = limits_of buy b" for buy
    by (simp_all add: set_stops_def limits_of_def mark_def)
  have i': "order_id ord = i" "cancelled ord"
    using ord q(2) by (auto simp: mark_def order_at_def cancel_def)
  note lists = side_lists_kept [OF ok mem(3) marked_levels [OF mem(1,2)]]
  moreover have "map_of (orders ?b) i = None" by (simp add: i' delete_conv)
  moreover have "cancelled (order_at ?b q)" using ord i'(2) mem(1) by (simp add: order_at_def)
  moreover have "cancel_order i b = Some (Inl (Erased_entry, ?b))"
    using i mod_order_mark [OF q(3)] ord mark_param [OF ord] s t \<open>map_of (orders ?b) i = None\<close> by (simp add: cancel_order_def)
  ultimately show ?thesis by blast
qed

text \<open>
  Modifying such an order: the new order is taken out of the stop orders of its side, where it is not, and
  put in; the old one stays in its list.
\<close>

definition stop_list :: "bool \<Rightarrow> OrderBook \<Rightarrow> nat list option" where
  "stop_list buy b = (if buy then get_bid_stop_orders b else get_ask_stop_orders b)"

lemma stop_list_enqueue: "stop_list buy (enqueue_order n b) = stop_list buy b"
  by (simp add: stop_list_def enqueue_order_def get_bid_stop_orders_def get_ask_stop_orders_def)

lemma put_key_member: "v \<in> set (put_key lt v ks)"
  by (induction lt v ks rule: put_key.induct) auto

lemma add_stop_order_runs:
  assumes "is_index (stops_lt buy b) (stops_of buy b) xs"
  shows "\<exists>t. add_stop_order buy n b = Some (set_stops buy t b) \<and>
    stop_list buy (set_stops buy t b) = Some (put_key (stops_lt buy b) n (map snd xs))"
proof -
  obtain t where t: "rb_insert (stops_lt buy b) (stops_of buy b) n = Some t"
    "is_index (stops_lt buy b) t (ins_entry (stops_lt buy b) (fresh (stops_of buy b)) n xs)"
    using stop_order.rb_insert_index [OF assms] by blast
  from iterate_index [OF t(2)] have "iterate t (begin_it t) [] = Some (put_key (stops_lt buy b) n (map snd xs))"
    by (simp add: map_snd_ins_entry)
  with t(1) show ?thesis
    by (intro exI [of _ t]) (simp add: add_stop_order_def stops_lt_def stops_of_def set_stops_def stop_list_def
      get_bid_stop_orders_def get_ask_stop_orders_def split: if_splits)
qed

lemma modify_stop_order:
  assumes ok: "book_ok b bl al" and n: "order_mem b n = Some new" and i: "map_of (orders b) (order_id new) = Some q"
    and s: "has_param (order_at b q) STOP" and nq: "n \<noteq> q"
  shows "\<exists>b' ns. modify_order n b = Some (Inr (b', MODIFIED)) \<and> get_bids b' = get_bids b \<and> get_asks b' = get_asks b \<and>
    cancelled (order_at b' q) \<and> map_of (orders b') (order_id new) = None \<and> stop_list (is_buy new) b' = Some ns \<and> n \<in> set ns"
proof -
  note q = listed_order [OF ok i]
  let ?m = "mark q b" let ?buy = "is_buy new"
  obtain ord where ord: "order_mem b q = Some ord" using q(3) by auto
  have new: "order_mem ?m n = Some new" using n nq by (simp add: mark_def)
  have P: "parked_ok b" using ok by (simp add: book_ok_def book_struct_def)
  have "parked_ok ?m" using P mark_frame mark_keys by (rule parked_ok_frame)
  then obtain xs where xs: "is_index (stops_lt ?buy ?m) (stops_of ?buy ?m) xs" using parked_index by blast
  from stop_order.rb_remove_index [OF this, of n] obtain t f where t: "rb_remove (stops_lt ?buy ?m) (stops_of ?buy ?m) n = Some (t, f)"
    "is_index (stops_lt ?buy ?m) t (drop_entry (stops_lt ?buy ?m) n xs)" by blast
  let ?b1 = "(set_stops ?buy t ?m)\<lparr>orders := AList.delete (order_id new) (orders ?m)\<rparr>"
  have rem: "remove_stop_order n ?m = Some ?b1"
    using new t(1) by (auto simp: remove_stop_order_def stops_lt_def stops_of_def set_stops_def split: if_splits)
  have lt: "stops_lt ?buy ?b1 = stops_lt ?buy ?m" "stops_of ?buy ?b1 = t"
    by (simp_all add: stops_lt_def set_stops_def stops_of_def bid_stop_lt_def [abs_def] ask_stop_lt_def [abs_def] order_at_def)
  let ?ns = "put_key (stops_lt ?buy ?b1) n (map snd (drop_entry (stops_lt ?buy ?m) n xs))"
  have "is_index (stops_lt ?buy ?b1) (stops_of ?buy ?b1) (drop_entry (stops_lt ?buy ?m) n xs)" by (simp only: lt t(2))
  from add_stop_order_runs [OF this, of n] obtain t' where
    t': "add_stop_order ?buy n ?b1 = Some (set_stops ?buy t' ?b1)" "stop_list ?buy (set_stops ?buy t' ?b1) = Some ?ns"
    by blast
  let ?b = "enqueue_order n (set_stops ?buy t' ?b1)"
  have mem: "order_mem ?b = order_mem ?m" "limit_mem ?b = limit_mem b" "limits_of buy ?b = limits_of buy b" for buy
    by (simp_all add: set_stops_def limits_of_def mark_def enqueue_order_def)
  have open_q: "\<not> cancelled ord" "good_qty (current_qty ord)"
    using ok q(1) ord resting_order [of True b bl q] resting_order [of False b al q]
    by (auto simp: book_ok_def book_struct_def qty_at_def)
  have "n \<in> set ?ns" by (rule put_key_member)
  moreover have "modify_order n b = Some (Inr (?b, MODIFIED))"
    using n i ord open_q s mod_order_mark [OF q(3)] rem t'(1)
    by (simp add: modify_order_def is_cancelled_def is_fullfilled_def good_qty_def order_at_def)
  moreover have "stop_list ?buy ?b = Some ?ns"
    by (simp only: stop_list_enqueue t'(2))
  moreover have "cancelled (order_at ?b q)" using mem(1) ord by (simp add: order_at_def mark_def cancel_def)
  moreover have "map_of (orders ?b) (order_id new) = None" by (simp add: enqueue_order_def set_stops_def delete_conv)
  ultimately show ?thesis using side_lists_kept [OF ok mem(3) marked_levels [OF mem(1,2)]] by blast
qed

lemma cancel_listed:
  assumes "book_ok b bl al" "map_of (orders b) i = Some q"
  shows "\<exists>b'. cancel_order i b = Some (Inl (Erased_entry, b'))"
  using cancel_order_book [OF assms] cancel_stop_order [OF assms] by blast

section \<open>The end-of-day check\<close>

definition expired :: "OrderBook \<Rightarrow> nat \<Rightarrow> bool" where
  "expired b q \<longleftrightarrow> has_param (order_at b q) GFD \<or> expire_time (order_at b q) < clock b + 3600"

definition known :: "OrderBook \<Rightarrow> nat \<Rightarrow> bool" where
  "known b q \<longleftrightarrow> map_of (orders b) (order_id (order_at b q)) \<noteq> None"

lemma expire_loop_index:
  assumes ok: "book_ok b bl al" and I: "is_index (date_lt b) (date_orders b) (ys @ zs)"
    and mem: "\<forall>x \<in> set zs. order_mem b (snd x) \<noteq> None"
  shows "if \<exists>q \<in> set (takeWhile (expired b) (map snd zs)). known b q
    then \<exists>b'. expire_loop (clock b + 3600) (it_of (nil (date_orders b)) zs) acc b = Some (Inl (Erased_entry, b'))
    else expire_loop (clock b + 3600) (it_of (nil (date_orders b)) zs) acc b =
      Some (Inr (b, acc @ takeWhile (expired b) (map snd zs)))"
  using I mem
proof (induction zs arbitrary: ys acc)
  case Nil
  then show ?case by (subst expire_loop.simps) (simp add: valid_it_def)
next
  case (Cons z zs)
  obtain a q where z: "z = (a, q)" by (cases z)
  note reads = index_reads [OF Cons.prems(1) [unfolded z]]
  obtain ord where ord: "order_mem b q = Some ord" "order_at b q = ord" using Cons.prems(2) z by (auto simp: order_at_def)
  have IH: "if \<exists>q \<in> set (takeWhile (expired b) (map snd zs)). known b q
    then \<exists>b'. expire_loop (clock b + 3600) (it_of (nil (date_orders b)) zs) (acc @ [q]) b = Some (Inl (Erased_entry, b'))
    else expire_loop (clock b + 3600) (it_of (nil (date_orders b)) zs) (acc @ [q]) b =
      Some (Inr (b, (acc @ [q]) @ takeWhile (expired b) (map snd zs)))"
    using Cons.prems by (intro Cons.IH [of "ys @ [z]"]) simp_all
  show ?case
  proof (cases "expired b q")
    case False
    then show ?thesis using reads ord z by (subst (1 2) expire_loop.simps) (simp add: valid_it_def expired_def)
  next
    case True
    show ?thesis
    proof (cases "known b q")
      case True
      then obtain q' where "map_of (orders b) (order_id ord) = Some q'" using ord by (auto simp: known_def)
      from cancel_listed [OF ok this] obtain b' where "cancel_order (order_id ord) b = Some (Inl (Erased_entry, b'))" by blast
      with True \<open>expired b q\<close> reads ord z show ?thesis
        by (subst (1 2) expire_loop.simps) (simp add: valid_it_def expired_def)
    next
      case False
      then have "cancel_order (order_id ord) b = Some (Inr (b, NOT_FOUND))" using ord by (simp add: known_def cancel_order_def)
      then have "expire_loop (clock b + 3600) a acc b = expire_loop (clock b + 3600) (it_of (nil (date_orders b)) zs) (acc @ [q]) b"
        using True reads ord z by (subst expire_loop.simps) (simp add: valid_it_def expired_def)
      with IH False True z show ?thesis by (simp split: if_splits)
    qed
  qed
qed

lemma remove_all_prefix:
  assumes "comparator lt" "is_index lt t (xs @ ys)"
  shows "\<exists>t'. remove_all lt (map snd xs) t = Some t' \<and> is_index lt t' ys"
  using assms(2)
proof (induction xs arbitrary: t)
  case (Cons x xs)
  obtain a k where x: "x = (a, k)" by (cases x)
  have irr: "\<not> lt k k" using comparator.irrefl [OF assms(1)] .
  have "drop_entry lt k ([] @ (a, k) # xs @ ys) = [] @ xs @ ys"
    by (rule comparator.drop_entry_mid [OF assms(1)])
       (use is_index_sorted [OF Cons.prems] x irr in \<open>simp_all add: same_key_def\<close>)
  with comparator.rb_remove_index [OF assms(1) Cons.prems, of k] x obtain t1 f where
    "rb_remove lt t k = Some (t1, f)" "is_index lt t1 (xs @ ys)" by auto
  with Cons.IH x show ?case by auto
qed simp

section \<open>Recording a dated order\<close>

context comparator
begin

lemma sorted_put_key: "sorted_wrt lt ks \<Longrightarrow> sorted_wrt lt (put_key lt v ks)"
proof -
  assume "sorted_wrt lt ks"
  then have "sorted_keys lt (ins_entry lt 0 v (map (Pair 0) ks))"
    by (intro sorted_ins_entry) (simp add: sorted_keys_def sorted_wrt_map)
  then show ?thesis
    using map_snd_ins_entry [of lt 0 v "map (Pair 0) ks"] sorted_wrt_map [of lt snd "ins_entry lt 0 v (map (Pair 0) ks)"]
    by (simp add: sorted_keys_def comp_def)
qed

lemma set_put_key: "sorted_wrt lt ks \<Longrightarrow> set (put_key lt v ks) = insert v {k \<in> set ks. \<not> same_key lt v k}"
proof (induction ks)
  case (Cons k ks)
  have "\<not> same_key lt v j" if "j \<in> set ks" "\<not> lt k v" for j
    using equiv_lt_trans [of k v j] that Cons.prems by (auto simp: same_key_def)
  moreover have "same_key lt v k \<longleftrightarrow> \<not> lt v k \<and> \<not> lt k v" by (simp add: same_key_def)
  moreover have "lt v k \<Longrightarrow> \<not> lt k v" by (rule asym)
  ultimately show ?case using Cons by (auto simp: same_key_def)
qed simp

end

lemma accepted_dates:
  assumes ok: "book_ok b bl al" and q: "arriving b q qo (bl @ al)" and add: "add_order q b = Some (Inr (b', ACCEPTED))"
  shows "dates_after qo q b b'"
proof (cases "parks (market_price b) qo")
  case True
  have "order_mem b q = Some qo" using q by (simp add: arriving_def incoming_def)
  from add_order_parks [OF ok this True] add show ?thesis by auto
next
  case False
  obtain own' opp' where R: "add_result q qo (side_of (is_buy qo) bl al) (side_of (\<not> is_buy qo) bl al) b ACCEPTED own' opp' b'"
    using add_order_book [OF ok q False] add by auto
  then obtain r b1 where m: "match_result (has_param (released qo) AON) (order_type qo) (is_buy qo) q
      (side_of (\<not> is_buy qo) bl al) (release q qo b) r opp' b1"
    and c: "\<not> has_param (released qo) FOK" "dates_after (released qo) q b1 b'"
    by (auto simp: add_result_def split: if_splits)
  from m have post: "date_orders b1 = date_orders b" "same_core (release q qo b) b1"
    by (simp_all add: match_result_def match_post_def book_frame_def release_def)
  have "same_keys b (release q qo b)"
    using q by (simp add: same_keys_def release_def order_at_def arriving_def incoming_def)
  with same_core_keys [OF post(2)] have "same_keys b1 b" by (simp add: same_keys_def)
  moreover have "released qo = qo"
    using c(1) by (auto simp: released_def has_param_FOK) (simp add: has_param_def set_params_def IOC_def)
  ultimately show ?thesis using dates_after_cong [OF c(2) _ _ refl refl, of b] post(1) by simp
qed

lemma date_list:
  assumes "book_ok b bl al"
  obtains qs where "get_orders_with_experation b = Some qs" "sorted_wrt (date_lt b) qs"
proof -
  obtain xs where xs: "is_index (date_lt b) (date_orders b) xs"
    using assms by (auto simp: book_ok_def book_struct_def parked_ok_def keys_ok_def)
  show ?thesis
    using that [of "map snd xs"] iterate_index [OF xs] is_index_sorted [OF xs]
    by (simp add: get_orders_with_experation_def sorted_keys_def sorted_wrt_map)
qed

end
