(* ===== verification/Restore.thy ===== *)
theory Restore
  imports Book_Dates
begin

text \<open>
  The constructor of the book with orders from the repository. Restored orders rest like new ones,
  but no entry of the order map is made for them.
\<close>

section \<open>Restoring orders\<close>

definition rests :: "OrderBook \<Rightarrow> bool \<Rightarrow> nat list \<Rightarrow> nat set" where
  "rests b buy qs = {q \<in> set qs. \<not> has_param (order_at b q) STOP \<and> is_buy (order_at b q) = buy}"

lemma has_param_core: "core a = core b \<Longrightarrow> has_param a f = has_param b f" "core a = core b \<Longrightarrow> is_buy a = is_buy b"
  using core_eqD(5,7) [of a b] by (simp_all add: has_param_def is_buy_def)

lemma rests_core:
  assumes "same_core b b'"
  shows "rests b' buy qs = rests b buy qs"
  using has_param_core [OF same_coreD(1) [OF assms]] by (auto simp: rests_def)

lemma restore_one:
  assumes ok: "book_struct b bl al" and q: "incoming b q qo (bl @ al)"
  shows "\<exists>b' bl' al'. (if has_param qo STOP then add_stop_order (is_buy qo) q b
      else case make_limit (price qo) b of (lim, b) \<Rightarrow> add_limit_order (is_buy qo) q lim b) = Some b' \<and>
    book_struct b' bl' al' \<and> resting bl' = resting bl \<union> rests b True [q] \<and>
    resting al' = resting al \<union> rests b False [q] \<and> orders b' = orders b \<and> same_core b b' \<and>
    (\<forall>x. x \<notin> insert q (resting (bl @ al)) \<longrightarrow> order_mem b' x = order_mem b x)"
proof -
  have qo: "order_mem b q = Some qo" "order_at b q = qo" using q by (simp_all add: incoming_def)
  show ?thesis
  proof (cases "has_param qo STOP")
    case True
    from add_stop_order_struct [OF ok qo(1), of "is_buy qo"] obtain b' where
      "add_stop_order (is_buy qo) q b = Some b'" "book_struct b' bl al" "order_mem b' = order_mem b" "orders b' = orders b"
      by blast
    moreover have "rests b buy [q] = {}" for buy using True qo by (simp add: rests_def)
    ultimately show ?thesis using True by (intro exI [of _ b'] exI [of _ bl] exI [of _ al]) (simp add: same_core_def)
  next
    case False
    obtain lim b1 where m: "make_limit (price qo) b = (lim, b1)" by (cases "make_limit (price qo) b")
    note b1 = make_limit_struct [OF ok m]
    have "incoming b1 q qo (bl @ al)" using q b1(4) by (simp add: incoming_def)
    from add_limit_order_struct [OF b1(1,2) this b1(3)] obtain b2 ls' where
      b2: "add_limit_order (is_buy qo) q lim b1 = Some b2" "same_aside b1 b2" "joins b2 q (side_of (is_buy qo) bl al) ls'"
        "book_struct b2 (side_of (is_buy qo) ls' bl) (side_of (is_buy qo) al ls')"
        "\<forall>x. x \<notin> insert q (resting (bl @ al)) \<longrightarrow> order_mem b2 x = order_mem b1 x" by blast
    have "rests b buy [q] = (if is_buy qo = buy then {q} else {})" for buy using False qo by (auto simp: rests_def)
    then show ?thesis
      using False m b1 b2 joins_resting [OF b2(3)]
      by (intro exI [of _ b2] exI [of _ "side_of (is_buy qo) ls' bl"] exI [of _ "side_of (is_buy qo) al ls'"])
        (auto simp: side_of_def same_aside_def same_core_def)
  qed
qed

lemma restore_orders_struct:
  assumes "book_struct b bl al" "distinct qs" "\<forall>q \<in> set qs. \<exists>qo. incoming b q qo (bl @ al)"
  shows "\<exists>b' bl' al'. restore_orders qs b = Some b' \<and> book_struct b' bl' al' \<and>
    resting bl' = resting bl \<union> rests b True qs \<and> resting al' = resting al \<union> rests b False qs \<and>
    orders b' = orders b \<and> same_core b b'"
  using assms
proof (induction qs arbitrary: b bl al)
  case Nil
  then show ?case by (auto simp: rests_def)
next
  case (Cons q qs)
  then obtain qo where qo: "incoming b q qo (bl @ al)" by auto
  from restore_one [OF Cons.prems(1) qo] obtain b1 bl1 al1 where
    b1: "(if has_param qo STOP then add_stop_order (is_buy qo) q b
      else case make_limit (price qo) b of (lim, b) \<Rightarrow> add_limit_order (is_buy qo) q lim b) = Some b1"
    "book_struct b1 bl1 al1" "resting bl1 = resting bl \<union> rests b True [q]"
    "resting al1 = resting al \<union> rests b False [q]" "orders b1 = orders b" "same_core b b1"
    "\<forall>x. x \<notin> insert q (resting (bl @ al)) \<longrightarrow> order_mem b1 x = order_mem b x" by blast
  have "\<exists>xo. incoming b1 x xo (bl1 @ al1)" if "x \<in> set qs" for x
  proof -
    have "x \<in> set (q # qs)" using that by simp
    then obtain xo where xo: "incoming b x xo (bl @ al)" using Cons.prems(3) by blast
    have "x \<noteq> q" using Cons.prems(2) that by auto
    then have "incoming b1 x xo (bl1 @ al1)"
      using xo b1(3,4,7) by (auto simp: incoming_def rests_def)
    then show ?thesis ..
  qed
  with Cons.IH [OF b1(2)] Cons.prems(2) obtain b' bl' al' where
    b': "restore_orders qs b1 = Some b'" "book_struct b' bl' al'" "resting bl' = resting bl1 \<union> rests b1 True qs"
    "resting al' = resting al1 \<union> rests b1 False qs" "orders b' = orders b1" "same_core b1 b'" by auto
  have "rests b buy (q # qs) = rests b buy [q] \<union> rests b buy qs" for buy by (auto simp: rests_def)
  moreover have "order_mem b q = Some qo" using qo by (simp add: incoming_def)
  then have "restore_orders (q # qs) b = Some b'" using b1(1) b'(1) by (auto split: prod.splits)
  ultimately show ?case
    using b' b1(3-6) rests_core [OF b1(6)] same_core_trans [OF b1(6) b'(6)]
    by (intro exI [of _ b'] exI [of _ bl'] exI [of _ al']) auto
qed

text \<open>
  C35. A restart: the constructor restores the stored orders of a repository without failing. The
  bids and asks of the new book are exactly the stored orders of their side that are not stop
  orders, each once; but the order map is empty, so whatever id is given to \<^verbatim>\<open>cancel_order\<close>, the answer is
  \<^verbatim>\<open>NOT_FOUND\<close>.
\<close>

theorem restored_orders:
  assumes "distinct qs" "0 \<notin> set qs" "\<forall>q \<in> set qs. \<exists>qo. mem q = Some qo \<and> fresh_order qo"
  shows "\<exists>b bids asks. new_book instr mp qs mem now = Some b \<and> get_bids b = Some bids \<and> get_asks b = Some asks \<and>
    distinct bids \<and> distinct asks \<and>
    set bids = {q \<in> set qs. \<not> has_param (the (mem q)) STOP \<and> is_buy (the (mem q))} \<and>
    set asks = {q \<in> set qs. \<not> has_param (the (mem q)) STOP \<and> \<not> is_buy (the (mem q))} \<and>
    (\<forall>i. cancel_order i b = Some (Inr (b, NOT_FOUND)))"
proof -
  let ?e = "empty_book instr mp mem now"
  have e: "book_struct ?e [] []" using empty_book_ok by (simp add: book_ok_def)
  have mem: "order_mem ?e = mem" "orders ?e = []" by (simp_all add: empty_book_def)
  have "\<forall>q \<in> set qs. \<exists>qo. incoming ?e q qo ([] @ [])"
  proof
    fix q assume "q \<in> set qs"
    moreover from this obtain qo where "mem q = Some qo" "fresh_order qo" using assms(3) by blast
    moreover from \<open>q \<in> set qs\<close> have "q \<noteq> 0" using assms(2) by metis
    ultimately have "incoming ?e q qo ([] @ [])" by (simp add: incoming_def fresh_order_def mem)
    then show "\<exists>qo. incoming ?e q qo ([] @ [])" ..
  qed
  from restore_orders_struct [OF e assms(1) this] obtain b bl al where
    b: "restore_orders qs ?e = Some b" "book_struct b bl al" "resting bl = rests ?e True qs"
      "resting al = rests ?e False qs" "orders b = []" by (auto simp: mem)
  have at: "order_at ?e q = the (mem q)" if "q \<in> set qs" for q
    using assms(3) that by (auto simp: order_at_def mem)
  have S: "side_ok True b bl" "side_ok False b al" using b(2) by (simp_all add: book_struct_def)
  have "cancel_order i b = Some (Inr (b, NOT_FOUND))" for i using b(5) by (simp add: cancel_order_def)
  moreover have "distinct (concat (map snd bl))" "distinct (concat (map snd al))"
    using S levels_distinct by (auto simp: side_ok_def)
  moreover have "set (concat (map snd bl)) = rests ?e True qs" "set (concat (map snd al)) = rests ?e False qs"
    using b(3,4) by (auto simp: resting_def)
  moreover have "rests ?e True qs = {q \<in> set qs. \<not> has_param (the (mem q)) STOP \<and> is_buy (the (mem q))}"
    "rests ?e False qs = {q \<in> set qs. \<not> has_param (the (mem q)) STOP \<and> \<not> is_buy (the (mem q))}"
    using at by (auto simp: rests_def)
  moreover have "get_bids b = Some (concat (map snd bl))" "get_asks b = Some (concat (map snd al))"
    using side_queries(1) [OF S(1)] side_queries(1) [OF S(2)] by (simp_all add: get_bids_def get_asks_def limits_of_def)
  ultimately show ?thesis using b(1) unfolding new_book_def by metis
qed

lemma fresh_new_order:
  "0 < n \<Longrightarrow> n < 2 ^ 24 \<Longrightarrow> fresh_order (new_order now i instr u (fl n) pr sd ps ty ex)"
  using rnd32_fl [of n] by (simp add: fresh_order_def new_order_def good_qty_def fl_def)

lemma distinct_single: "distinct xs \<Longrightarrow> set xs = {x} \<Longrightarrow> xs = [x]"
  by (cases xs; cases "tl xs") auto

theorem restored_orders_witness:
  "\<exists>b. new_book ''X'' (fl 50) [1, 2] [1 \<mapsto> new_order 0 ''a'' ''X'' ''u'' (fl 3) (fl 10) BUY GTC LIMIT 0,
      2 \<mapsto> new_order 0 ''b'' ''X'' ''u'' (fl 4) (fl 20) SELL GTC LIMIT 0] 0 = Some b \<and>
    get_bids b = Some [1] \<and> get_asks b = Some [2] \<and> cancel_order ''a'' b = Some (Inr (b, NOT_FOUND))"
proof -
  define m where "m = [1 \<mapsto> new_order 0 ''a'' ''X'' ''u'' (fl 3) (fl 10) BUY GTC LIMIT 0,
      2::nat \<mapsto> new_order 0 ''b'' ''X'' ''u'' (fl 4) (fl 20) SELL GTC LIMIT 0]"
  have d: "distinct [1, 2::nat]" "0 \<notin> set [1, 2::nat]" "\<forall>q \<in> set [1, 2]. \<exists>qo. m q = Some qo \<and> fresh_order qo"
    by (simp_all add: m_def fresh_new_order)
  from restored_orders [OF d, of "''X''" "fl 50" 0] obtain b bids asks where
    b: "new_book ''X'' (fl 50) [1, 2] m 0 = Some b" "get_bids b = Some bids" "get_asks b = Some asks" "distinct bids" "distinct asks"
    "set bids = {q \<in> set [1, 2]. \<not> has_param (the (m q)) STOP \<and> is_buy (the (m q))}"
    "set asks = {q \<in> set [1, 2]. \<not> has_param (the (m q)) STOP \<and> \<not> is_buy (the (m q))}"
    "\<forall>i. cancel_order i b = Some (Inr (b, NOT_FOUND))" by blast
  have "set bids = {1}" "set asks = {2}"
    unfolding b(6,7) by (auto simp: m_def new_order_def has_param_def is_buy_def STOP_def GTC_def)
  then have "bids = [1]" "asks = [2]"
    using distinct_single [OF b(4), of 1] distinct_single [OF b(5), of 2] by simp_all
  then show ?thesis using b(1,2,3,8) unfolding m_def by blast
qed

end
