(* ===== verification/Exchange_Props.thy ===== *)
theory Exchange_Props
  imports Exchange Restore
begin

text \<open>
  The exchange as a whole: the invariant of its books and workers, routing, and the worker of an
  instrument as a queue of tasks.
\<close>

section \<open>The invariant\<close>

text \<open>
  Every book is well formed and has room for new objects from \<open>next_ptr\<close> on, and every instrument has a
  worker.
\<close>

definition exchange_ok :: "exchange \<Rightarrow> bool" where
  "exchange_ok ex \<longleftrightarrow> next_ptr ex \<noteq> 0 \<and>
     (\<forall>i b. map_of (instruments ex) i = Some b \<longrightarrow>
        (\<exists>bl al. book_ok b bl al) \<and> (\<forall>q \<ge> next_ptr ex. order_mem b q = None) \<and>
        (\<exists>k. map_of (instrument_idx ex) i = Some k \<and> k < pool_size ex))"

lemma exchange_okD:
  assumes "exchange_ok ex" "map_of (instruments ex) i = Some b"
  shows "\<exists>bl al. book_ok b bl al" "next_ptr ex \<le> q \<Longrightarrow> order_mem b q = None" "next_ptr ex \<noteq> 0"
    "\<exists>k. map_of (instrument_idx ex) i = Some k \<and> k < pool_size ex"
  using assms unfolding exchange_ok_def by blast+

lemma route_ok: "exchange_ok ex \<Longrightarrow> map_of (instruments ex) i = Some b \<Longrightarrow> route i ex = Some b"
  using exchange_okD(4) [of ex i b] by (auto simp: route_def)

text \<open>Adding an order makes no object appear or disappear.\<close>

lemma add_order_objects:
  assumes ok: "book_ok b bl al" and q: "arriving b q qo (bl @ al)" and add: "add_order q b = Some (Inr (b', st))"
  shows "order_mem b' x = None \<longleftrightarrow> order_mem b x = None"
proof (cases "parks (market_price b) qo")
  case True
  have "order_mem b q = Some qo" using q by (simp add: arriving_def incoming_def)
  from add_order_parks [OF ok this True] add show ?thesis by auto
next
  case False
  obtain own' opp' where "add_result q qo (side_of (is_buy qo) bl al) (side_of (\<not> is_buy qo) bl al) b st own' opp' b'"
    using add_order_book [OF ok q False] add by auto
  then obtain r b1 where m: "match_result (has_param (released qo) AON) (order_type qo) (is_buy qo) q
      (side_of (\<not> is_buy qo) bl al) (release q qo b) r opp' b1"
    and cs: "b' = b1 \<or> b' = b1\<lparr>order_mem := (order_mem b1)(q := map_option cancel (order_mem b1 q))\<rparr> \<or> same_core b1 b'"
    unfolding add_result_def by (auto split: if_splits)
  have "same_core (release q qo b) b1" using m by (simp add: match_result_def match_post_def)
  then have "order_mem b1 x = None \<longleftrightarrow> order_mem b x = None"
    using same_coreD(2) [of "release q qo b" b1 x] q by (auto simp: release_def arriving_def incoming_def split: if_splits)
  moreover have "order_mem b' x = None \<longleftrightarrow> order_mem b1 x = None"
    using cs same_coreD(2) [of b1 b' x] by (auto split: if_splits)
  ultimately show ?thesis by simp
qed

text \<open>The calls of the exchange on a well-formed state.\<close>

lemma exchange_add_order_ok:
  assumes ok: "exchange_ok ex" and b: "map_of (instruments ex) i = Some b" and ord: "fresh_order ord"
    and id: "map_of (orders b) (order_id ord) = None"
  shows "\<exists>ex' st b'. exchange_add_order now i ord ex = Some (Inr (ex', st)) \<and> exchange_ok ex' \<and>
    st \<in> {ACCEPTED, MATCHED, NOT_MATCHED} \<and> working ex' = working ex \<and>
    add_order (next_ptr ex) (alloc_order (next_ptr ex) ord now b) = Some (Inr (b', st)) \<and>
    map_of (instruments ex') i = Some b' \<and>
    (\<forall>j. j \<noteq> i \<longrightarrow> map_of (instruments ex') j = map_of (instruments ex) j)"
proof -
  let ?q = "next_ptr ex" let ?b = "alloc_order ?q ord now b"
  obtain bl al where B: "book_ok b bl al" "order_mem b ?q = None" "?q \<noteq> 0"
    using exchange_okD [OF ok b] by auto
  note a = alloc_book [OF B ord id, of now]
  obtain b' st bl' al' where b': "add_order ?q ?b = Some (Inr (b', st))" "book_ok b' bl' al'"
    using add_order_returns [OF a] by blast
  have st: "st \<in> {ACCEPTED, MATCHED, NOT_MATCHED}"
  proof (cases "parks (market_price ?b) ord")
    case True
    have "order_mem ?b ?q = Some ord" using a(2) by (simp add: arriving_def incoming_def)
    from add_order_parks [OF a(1) this True] b'(1) show ?thesis by auto
  next
    case False
    from add_order_facts [OF a False b'(1)] show ?thesis by blast
  qed
  let ?ex = "ex\<lparr>next_ptr := Suc ?q, instruments := AList.update i b' (instruments ex)\<rparr>"
  have "exchange_add_order now i ord ex = Some (finish_task i (ex\<lparr>next_ptr := Suc ?q\<rparr>) (Inr (b', st)))"
    using route_ok [OF ok b] b'(1)
    by (simp add: exchange_add_order_def place_order_def alloc_order_def)
  then have "exchange_add_order now i ord ex = Some (Inr (?ex, st))" by (simp add: finish_task_def)
  moreover have free: "\<forall>x \<ge> Suc ?q. order_mem b' x = None"
    using add_order_objects [OF a b'(1)] exchange_okD(2) [OF ok b] by (simp add: alloc_order_def)
  then have "exchange_ok ?ex"
    using ok exchange_okD(4) [OF ok b] b'(2) unfolding exchange_ok_def by (auto simp: update_conv')
  ultimately show ?thesis using st b'(1) by (intro exI [of _ ?ex] exI [of _ st] exI [of _ b']) (simp add: update_conv')
qed

section \<open>A new exchange\<close>

lemma new_book_empty: "new_book i p [1..<Suc (length [])] (stored_mem []) now = Some (empty_book i p Map.empty now)"
  by (simp add: new_book_def stored_mem_def)

lemma order_mem_empty: "order_mem (empty_book i p mem now) = mem"
  by (simp add: empty_book_def)

lemma add_books_ok:
  assumes "exchange_ok ex" "idx + length infos \<le> pool_size ex"
  shows "\<exists>ex'. add_books idx [] now infos ex = Some ex' \<and> exchange_ok ex' \<and> pool_size ex' = pool_size ex \<and>
    working ex' = working ex \<and> dom (map_of (instruments ex')) = dom (map_of (instruments ex)) \<union> fst ` set infos"
  using assms
proof (induction infos arbitrary: idx ex)
  case (Cons info infos)
  let ?b = "empty_book (fst info) (snd info) Map.empty now"
  let ?ex = "ex\<lparr>instrument_idx := AList.update (fst info) idx (instrument_idx ex),
    instruments := (if map_of (instruments ex) (fst info) = None then AList.update (fst info) ?b (instruments ex)
       else instruments ex)\<rparr>"
  have "exchange_ok ?ex"
    using Cons.prems empty_book_ok [of "fst info" "snd info" Map.empty now] order_mem_empty
    unfolding exchange_ok_def by (auto simp: update_conv' split: if_splits)
  moreover have "Suc idx + length infos \<le> pool_size ?ex" using Cons.prems(2) by simp
  ultimately obtain ex' where ex': "add_books (Suc idx) [] now infos ?ex = Some ex'" "exchange_ok ex'"
    "pool_size ex' = pool_size ?ex" "working ex' = working ?ex"
    "dom (map_of (instruments ex')) = dom (map_of (instruments ?ex)) \<union> fst ` set infos"
    using Cons.IH by blast
  moreover have "add_books idx [] now (info # infos) ex = Some ex'"
    using ex'(1) new_book_empty [of "fst info" "snd info" now] by (simp add: Let_def)
  moreover have "dom (map_of (instruments ?ex)) = insert (fst info) (dom (map_of (instruments ex)))"
    by (auto simp: update_conv' split: if_splits)
  ultimately show ?case by auto
qed auto

section \<open>Workers\<close>

lemma task_round_runs:
  assumes "ring_inv r" "contents r = f # fs"
  shows "\<exists>r'. task_round (r, s) = Some (r', f s) \<and> ring_inv r' \<and> contents r' = fs"
  using ring_pop_contents [OF assms(1)] assms(2) by (auto simp: task_round_def)

lemma task_rounds_run:
  "ring_inv r \<Longrightarrow> \<exists>r'. task_rounds (length (contents r)) (r, s) = Some (r', fold (\<lambda>f s. f s) (contents r) s) \<and>
    ring_inv r' \<and> contents r' = []"
proof (induction "contents r" arbitrary: r s)
  case Nil
  then show ?case by (intro exI [of _ r]) (simp flip: Nil.hyps)
next
  case (Cons f fs)
  from task_round_runs [OF Cons.prems Cons.hyps(2) [symmetric], of s] obtain r1 where
    r1: "task_round (r, s) = Some (r1, f s)" "ring_inv r1" "contents r1 = fs" by blast
  from Cons.hyps(1) [OF r1(3) [symmetric] r1(2), of "f s"] r1 show ?case by (simp flip: Cons.hyps(2))
qed

section \<open>Histories\<close>

text \<open>
  The exchanges reached from a new one by adding new orders, each to any of the instruments, and by opening
  and closing.
\<close>

inductive exchange_run :: "exchange \<Rightarrow> bool" where
  start: "new_exchange infos [] now f = Some ex \<Longrightarrow> exchange_run ex"
| add: "exchange_run ex \<Longrightarrow> map_of (instruments ex) i = Some b \<Longrightarrow> fresh_order ord \<Longrightarrow>
    map_of (orders b) (order_id ord) = None \<Longrightarrow>
    exchange_add_order now i ord ex = Some (Inr (ex', st)) \<Longrightarrow> exchange_run ex'"
| hours: "exchange_run ex \<Longrightarrow> exchange_run (ex\<lparr>working := w\<rparr>)"

lemma add_books_session:
  assumes "\<forall>i b. map_of (instruments ex) i = Some b \<longrightarrow> session b" "add_books idx [] now infos ex = Some ex'"
  shows "map_of (instruments ex') i = Some b \<Longrightarrow> session b"
  using assms
proof (induction infos arbitrary: idx ex)
  case (Cons info infos)
  let ?b = "empty_book (fst info) (snd info) Map.empty now"
  let ?ex = "ex\<lparr>instrument_idx := AList.update (fst info) idx (instrument_idx ex),
    instruments := (if map_of (instruments ex) (fst info) = None then AList.update (fst info) ?b (instruments ex)
       else instruments ex)\<rparr>"
  have "add_books (Suc idx) [] now infos ?ex = Some ex'"
    using Cons.prems(3) new_book_empty [of "fst info" "snd info" now] by (simp add: Let_def)
  moreover have "\<forall>i b. map_of (instruments ?ex) i = Some b \<longrightarrow> session b"
    using Cons.prems(2) session.open_book by (auto simp: update_conv' split: if_splits)
  ultimately show ?case using Cons.IH Cons.prems(1) by blast
qed simp

lemma new_exchange_ok:
  "\<exists>ex. new_exchange infos [] now f = Some ex \<and> exchange_ok ex \<and> working ex = f \<and> pool_size ex = length infos \<and>
    dom (map_of (instruments ex)) = fst ` set infos"
proof -
  let ?e = "\<lparr>instrument_idx = [], instruments = [], pool_size = length infos, working = f, next_ptr = Suc 0\<rparr>"
  have "exchange_ok ?e" "0 + length infos \<le> pool_size ?e" by (simp_all add: exchange_ok_def)
  from add_books_ok [OF this, of now] show ?thesis by (auto simp: new_exchange_def)
qed

lemma exchange_run_ok: "exchange_run ex \<Longrightarrow> exchange_ok ex \<and> (\<forall>i b. map_of (instruments ex) i = Some b \<longrightarrow> session b)"
proof (induction rule: exchange_run.induct)
  case (start infos now f ex)
  have "\<forall>i b. map_of (instruments ex) i = Some b \<longrightarrow> session b"
    using start add_books_session [of "\<lparr>instrument_idx = [], instruments = [], pool_size = length infos,
      working = f, next_ptr = Suc 0\<rparr>" 0 now infos ex] by (auto simp: new_exchange_def)
  moreover have "exchange_ok ex" using new_exchange_ok [of infos now f] start by auto
  ultimately show ?case by blast
next
  case (add ex i b ord now ex' st)
  then have ok: "exchange_ok ex" and S: "\<forall>i b. map_of (instruments ex) i = Some b \<longrightarrow> session b" by blast+
  let ?q = "next_ptr ex"
  from exchange_add_order_ok [OF ok add.hyps(2-4), of now] add.hyps(5) obtain b' where
    b': "exchange_ok ex'" "add_order ?q (alloc_order ?q ord now b) = Some (Inr (b', st))"
    "map_of (instruments ex') i = Some b'" "\<forall>j. j \<noteq> i \<longrightarrow> map_of (instruments ex') j = map_of (instruments ex) j"
    by auto
  note okD = exchange_okD [OF ok add.hyps(2)]
  have "session b'"
    using session.order [OF _ okD(2) okD(3) add.hyps(3,4) b'(2)] S add.hyps(2) by blast
  then have "session c" if "map_of (instruments ex') j = Some c" for j c
    using b'(3,4) S that by (cases "j = i") auto
  with b'(1) show ?case by blast
next
  case (hours ex w)
  then show ?case by (simp add: exchange_ok_def)
qed

section \<open>Properties of the exchange\<close>

text \<open>
  A new exchange: with an empty repository the constructor succeeds, every given instrument
  exists and is served by a worker of the pool, no other one is, and the exchange is open exactly if
  the working hours are ignored.
\<close>

lemma new_exchange_serves:
  "\<exists>ex. new_exchange infos [] now f = Some ex \<and> exchange_ok ex \<and> is_working ex = f \<and>
    (\<forall>i. instrument_exists i ex = (i \<in> fst ` set infos) \<and> (route i ex \<noteq> None) = (i \<in> fst ` set infos))"
proof -
  obtain ex where ex: "new_exchange infos [] now f = Some ex" "exchange_ok ex" "working ex = f"
    "dom (map_of (instruments ex)) = fst ` set infos" using new_exchange_ok by blast
  have "instrument_exists i ex = (i \<in> fst ` set infos)" for i
    unfolding instrument_exists_def ex(4) [symmetric] by (simp add: domIff)
  moreover have "(route i ex \<noteq> None) = (map_of (instruments ex) i \<noteq> None)" for i
    using route_ok [OF ex(2), of i] by (cases "map_of (instruments ex) i") (auto simp: route_def)
  ultimately show ?thesis using ex by (intro exI [of _ ex]) (simp add: is_working_def instrument_exists_def)
qed

text \<open>
  Adding an order through the exchange: on a well-formed exchange, a new order with a positive
  quantity and an unused id is processed by the worker of its instrument; the exchange is well
  formed again and the books of all other instruments are untouched.
\<close>

lemma exchange_add_order_total:
  assumes "exchange_ok ex" "map_of (instruments ex) i = Some b" "fresh_order ord" "map_of (orders b) (order_id ord) = None"
  shows "\<exists>ex' st. exchange_add_order now i ord ex = Some (Inr (ex', st)) \<and> exchange_ok ex' \<and>
    st \<in> {ACCEPTED, MATCHED, NOT_MATCHED} \<and>
    (\<forall>j. j \<noteq> i \<longrightarrow> map_of (instruments ex') j = map_of (instruments ex) j)"
  using exchange_add_order_ok [OF assms, of now] by (elim exE conjE) (intro exI conjI)


text \<open>
  An instrument added later: \<^verbatim>\<open>add_instrument\<close> answers true and the instrument exists, but when the
  exchange had as many instruments as workers, the new one has no worker: no order can be added
  to it, whatever the order.
\<close>

lemma added_instrument_unserved:
  assumes "\<not> instrument_exists i ex" "pool_size ex \<le> length (instruments ex)"
  shows "\<exists>ex'. add_instrument i p [] now ex = Some (ex', True) \<and> instrument_exists i ex' \<and>
    exchange_add_order now' i ord ex' = None"
proof -
  let ?ex = "ex\<lparr>instrument_idx := AList.update i (length (instruments ex)) (instrument_idx ex),
    instruments := AList.update i (empty_book i p Map.empty now) (instruments ex)\<rparr>"
  have "add_instrument i p [] now ex = Some (?ex, True)"
    using assms(1) new_book_empty [of i p now] by (simp add: add_instrument_def)
  moreover have "instrument_exists i ?ex" by (simp add: instrument_exists_def update_conv')
  moreover have "route i ?ex = None" using assms(2) by (simp add: route_def update_conv')
  ultimately show ?thesis by (intro exI [of _ ?ex]) (simp add: exchange_add_order_def)
qed

text \<open>
  A worker runs the tasks of its ring buffer in the order in which they were enqueued and
  empties the buffer, in as many rounds as there are tasks.
\<close>

lemma worker_runs_tasks:
  assumes "ring_inv r"
  shows "\<exists>r'. task_rounds (length (contents r)) (r, s) = Some (r', fold (\<lambda>f s. f s) (contents r) s) \<and> contents r' = []"
  using task_rounds_run [OF assms] by blast

lemma sample_run_exchange:
  "\<exists>ex b. new_exchange [(''X'', fl 50), (''Y'', fl 20)] [] 0 True = Some ex \<and> exchange_run ex \<and> exchange_ok ex \<and>
    working ex \<and> map_of (instruments ex) ''X'' = Some b \<and> orders b = [] \<and> pool_size ex = 2 \<and> length (instruments ex) = 2 \<and>
    map_of (instruments ex) ''Z'' = None"
proof -
  let ?i = "[(''X'', fl 50), (''Y'', fl 20)]"
  obtain ex where ex: "new_exchange ?i [] 0 True = Some ex" "exchange_ok ex" "working ex" using new_exchange_ok by blast
  have "map_of (instruments ex) ''X'' = Some (empty_book ''X'' (fl 50) Map.empty 0) \<and> pool_size ex = 2 \<and>
      length (instruments ex) = 2 \<and> map_of (instruments ex) ''Z'' = None"
    using ex(1) by (auto simp: new_exchange_def new_book_def stored_mem_def Let_def)
  moreover have "exchange_run ex" using exchange_run.start [OF ex(1)] .
  ultimately show ?thesis using ex by (auto simp: empty_book_def)
qed


end
