(* ===== verification/Calendar_Props.thy ===== *)
theory Calendar_Props
  imports Exchange
begin

text \<open>
  The calendar: \<^verbatim>\<open>day_of_week\<close> against a count of the days since the first day of year 1, a Monday,
  and what the working-hours thread makes of it.
\<close>

section \<open>Counting days\<close>

definition leap :: "nat \<Rightarrow> bool" where
  "leap y \<longleftrightarrow> y mod 4 = 0 \<and> (y mod 100 \<noteq> 0 \<or> y mod 400 = 0)"

definition month_lengths :: "nat \<Rightarrow> nat list" where
  "month_lengths y = [31, if leap y then 29 else 28, 31, 30, 31, 30, 31, 31, 30, 31, 30, 31]"

primrec days_of_years :: "nat \<Rightarrow> nat" where
  "days_of_years 0 = 0"
| "days_of_years (Suc n) = days_of_years n + sum_list (month_lengths (Suc n))"

text \<open>The number of the day \<open>d\<close> of month \<open>m\<close> of year \<open>y\<close>; number 7 is the first Sunday.\<close>

definition day_number :: "nat \<Rightarrow> nat \<Rightarrow> nat \<Rightarrow> nat" where
  "day_number d m y = days_of_years (y - 1) + sum_list (take (m - 1) (month_lengths y)) + d"

definition leap_count :: "nat \<Rightarrow> int" where
  "leap_count n = int n div 4 - int n div 100 + int n div 400"

lemma leap_count_Suc: "leap_count (Suc n) = leap_count n + (if leap (Suc n) then 1 else 0)"
proof -
  have step: "int (Suc n) div int k = int n div int k + (if Suc n mod k = 0 then 1 else 0)" for k
    unfolding zdiv_int [symmetric] by (simp add: div_Suc)
  have comb: "(C \<Longrightarrow> B) \<Longrightarrow> (B \<Longrightarrow> A) \<Longrightarrow> (x + (if A then 1 else 0)) - (y + (if B then 1 else 0)) +
      (z + (if C then 1 else 0)) = x - y + z + (if A \<and> (\<not> B \<or> C) then 1 else (0::int))" for A B C x y z
    by auto
  have lit: "(4::int) = int 4" "(100::int) = int 100" "(400::int) = int 400" by simp_all
  show ?thesis
    unfolding leap_count_def leap_def lit step by (rule comb) presburger+
qed

lemma leap_count_nonneg: "0 \<le> leap_count n"
  by (induction n) (simp_all add: leap_count_Suc, simp add: leap_count_def)

lemma days_of_years: "int (days_of_years n) = 365 * int n + leap_count n"
  by (induction n) (simp_all add: leap_count_Suc month_lengths_def, simp add: leap_count_def)

lemma trunc_nonneg: "0 \<le> a \<Longrightarrow> 0 < b \<Longrightarrow> trunc_div a b = a div b" "0 \<le> a \<Longrightarrow> 0 < b \<Longrightarrow> trunc_mod a b = a mod b"
  by (auto simp: trunc_mod_def trunc_div_def sgn_if minus_mult_div_eq_mod mult.commute)

lemma day_of_week_nonneg:
  assumes "1 \<le> m" "m \<le> 12" "1 \<le> y" and z: "z = (if m < 3 then y - 1 else y)"
  shows "day_of_week (int d) (int m) (int y) =
    Some ((int z + leap_count z + month_table ! (m - 1) + int d) mod 7)"
proof -
  let ?t = "month_table ! (m - 1)"
  have "\<forall>x \<in> set month_table. 0 \<le> x" "m - 1 < length month_table" using assms by (simp_all add: month_table_def)
  then have t: "0 \<le> ?t" by simp
  have eq: "int y - (if int m < 3 then 1 else 0) = int z" "nat (int m - 1) = m - 1" "1 \<le> int m \<and> int m \<le> 12"
    using assms by auto
  have div: "trunc_div (int z) 4 = int z div 4" "trunc_div (int z) 100 = int z div 100" "trunc_div (int z) 400 = int z div 400"
    by (simp_all add: trunc_nonneg)
  have sum: "int z + int z div 4 - int z div 100 + int z div 400 + ?t + int d = int z + leap_count z + ?t + int d"
    by (simp add: leap_count_def)
  have "0 \<le> int z + leap_count z + ?t + int d" using t leap_count_nonneg [of z] by simp
  then show ?thesis unfolding day_of_week_def eq Let_def div sum using assms by (simp add: trunc_nonneg)
qed

lemma month_cases:
  assumes "1 \<le> m" "m \<le> 12"
  shows "(m::nat) = 1 \<or> m = 2 \<or> m = 3 \<or> m = 4 \<or> m = 5 \<or> m = 6 \<or> m = 7 \<or> m = 8 \<or> m = 9 \<or> m = 10 \<or> m = 11 \<or> m = 12"
  using assms by presburger

text \<open>The entries of the table: the days before a month, less one from March on, modulo 7.\<close>

lemma month_shift:
  assumes "1 \<le> m" "m \<le> 12"
  shows "int (sum_list (take (m - 1) (month_lengths y))) mod 7 =
    (month_table ! (m - 1) + (if m < 3 then 0 else if leap y then 2 else 1)) mod 7"
  using month_cases [OF assms] by (elim disjE) (simp_all add: month_lengths_def month_table_def)



section \<open>Working hours\<close>

lemma check_flag: "exchange_check_date_orders now ex = Some (Inr ex') \<Longrightarrow> working ex' = working ex"
  by (auto simp: exchange_check_date_orders_def split: bind_splits sum.splits)

lemma after_sleep_flag:
  assumes "after_sleep now tm ex = Some (Inr ex')"
  shows "working ex' =
    (if tm_hour tm = opening_h \<and> tm_min tm = opening_m then True
     else if tm_hour tm = closing_h \<and> tm_min tm = closing_m then False else working ex)"
  using assms by (auto simp: after_sleep_def dest: check_flag split: if_splits)

lemma round_flag:
  "working_round now tm ex = Some (Inr (target, ex')) \<Longrightarrow> after_sleep now tm ex = Some (Inr ex')"
  by (auto simp: working_round_def split: bind_splits sum.splits)


definition sample_exchange :: exchange where
  "sample_exchange = \<lparr>instrument_idx = [], instruments = [], pool_size = 0, working = True, next_ptr = 1\<rparr>"

definition tm_at :: "int \<Rightarrow> int \<Rightarrow> tm" where
  "tm_at h mi = \<lparr>tm_min = mi, tm_hour = h, tm_mday = 15, tm_mon = 2, tm_year = 124\<rparr>"


text \<open>
  The calendar in the thread: months count from 0 and years from 1900 there, but \<^verbatim>\<open>day_of_week\<close>
  expects the usual numbers. In January a round that begins at or after the closing time reads
  the table at index -1, and the Friday 15 March 2024 is not taken for a Friday: the thread aims
  at the Saturday.
\<close>

lemma thread_calendar:
  "(tm_mon tm = 0 \<longrightarrow> 17 \<le> tm_hour tm \<longrightarrow> 30 \<le> tm_min tm \<longrightarrow> working_round now tm ex = None) \<and>
   day_of_week 15 3 2024 = Some 5 \<and>
   next_time (tm_at 17 30) = Some ((tm_at 9 30)\<lparr>tm_mday := 16\<rparr>)"
proof (intro conjI impI)
  assume "tm_mon tm = 0" "17 \<le> tm_hour tm" "30 \<le> tm_min tm"
  then have "next_time tm = None"
    by (auto simp: next_time_def day_of_week_def opening_h_def opening_m_def closing_h_def closing_m_def)
  then show "working_round now tm ex = None" by (simp add: working_round_def)
qed (simp_all add: day_of_week_def next_time_def trunc_mod_def trunc_div_def month_table_def tm_at_def at_opening_def
    opening_h_def opening_m_def closing_h_def closing_m_def Let_def)

end
