(* ===== verification/Book_Claims.thy ===== *)
theory Book_Claims
  imports Book_Dates
begin

text \<open>
  The theorems about the order book, each with an instance on a concrete book: a new book in
  which one sell order of 10 at price 100 rests.
\<close>

section \<open>A sample book\<close>

definition sample_sell :: order where
  "sample_sell = new_order 0 ''s1'' ''X'' ''u1'' (fl 10) (fl 100) SELL GTC LIMIT 0"

definition sample_buy :: "int \<Rightarrow> int \<Rightarrow> OrderParams \<Rightarrow> order" where
  "sample_buy n pr ps = new_order 0 ''b1'' ''X'' ''u2'' (fl n) (fl pr) BUY ps LIMIT 0"

lemma good_qty_fl: "0 < n \<Longrightarrow> n < 2 ^ 24 \<Longrightarrow> good_qty (fl n)"
  using rnd32_fl [of n] by (simp add: good_qty_def fl_def)

lemma fresh_sell: "fresh_order sample_sell"
  by (simp add: fresh_order_def sample_sell_def new_order_def good_qty_fl)

lemma fresh_buy: "0 < n \<Longrightarrow> n < 2 ^ 24 \<Longrightarrow> fresh_order (sample_buy n pr ps)"
  by (simp add: fresh_order_def sample_buy_def new_order_def good_qty_fl)

lemma sample_first:
  "map_option (\<lambda>r. case r of Inl _ \<Rightarrow> None
      | Inr (b, st) \<Rightarrow> Some (st, order_mem b 2, map_of (orders b) ''b1'', market_price b, map_option params (order_mem b 1)))
     (add_order 1 (alloc_order 1 sample_sell 0 (empty_book ''X'' (fl 50) Map.empty 0))) =
   Some (Some (ACCEPTED, None, None, fl 50, Some GTC))"
  by code_simp

lemma sample_book:
  assumes qo: "fresh_order qo" "order_id qo = ''b1''"
  shows "\<exists>b p. session b \<and> order_mem b 2 = None \<and> market_price b = fl 50 \<and> price (order_at b 1) = fl 100 \<and>
    qty_at b 1 = fl 10 \<and> params (order_at b 1) = GTC \<and> book_ok (alloc_order 2 qo 0 b) [] [(p, [1])] \<and>
    arriving (alloc_order 2 qo 0 b) 2 qo ([] @ [(p, [1])])"
proof -
  let ?e = "empty_book ''X'' (fl 50) Map.empty 0" let ?b = "alloc_order 1 sample_sell 0 ?e"
  have new: "order_mem ?e 1 = None" "(1::nat) \<noteq> 0" "map_of (orders ?e) (order_id sample_sell) = None"
    by (simp_all add: empty_book_def)
  note a = alloc_book [OF empty_book_ok new(1,2) fresh_sell new(3), of 0]
  have np: "\<not> parks (market_price ?b) sample_sell"
    by (simp add: parks_def sample_sell_def new_order_def has_param_def STOP_def GTC_def)
  obtain b st where b: "add_order 1 ?b = Some (Inr (b, st))"
    using add_order_returns [OF a] by auto
  have ev: "st = ACCEPTED" "order_mem b 2 = None" "map_of (orders b) ''b1'' = None" "market_price b = fl 50"
    "map_option params (order_mem b 1) = Some GTC"
    using sample_first b by simp_all
  have s: "session b" using session.order [OF session.open_book new(1,2) fresh_sell new(3) b] .
  have sell: "is_buy sample_sell = False" "current_qty sample_sell = fl 10" "order_at ?b 1 = sample_sell"
    "price sample_sell = fl 100"
    by (simp_all add: sample_sell_def new_order_def is_buy_def alloc_order_def order_at_def)
  show ?thesis
  proof (rule add_order_facts [OF a np b], goal_cases)
    case (1 own' opp' b1)
    have f: "book_ok b opp' own'" "opp' = []" "joins b 1 [] own'" "price (order_at b 1) = fl 100"
      using 1(1,3,6,9) ev(1) sell by (simp_all add: side_of_def shrinks_def)
    have qty: "qty_at b 1 = fl 10" using 1(2) sell by (simp add: side_of_def)
    from f(3) obtain p where "own' = [(p, [1])]" by (auto simp: joins_def)
    moreover have "params (order_at b 1) = GTC" using ev(5) by (auto simp: order_at_def)
    ultimately show ?thesis using alloc_book [OF f(1) ev(2) _ qo(1), of 0] ev(2-4) s f(2,4) qty qo(2) by auto
  qed
qed

lemma sample_buy_simps [simp]:
  "is_buy (sample_buy n pr ps) = True" "current_qty (sample_buy n pr ps) = fl n" "price (sample_buy n pr ps) = fl pr"
  "order_type (sample_buy n pr ps) = LIMIT" "has_param (sample_buy n pr ps) f = (and ps f \<noteq> 0)"
  "released (sample_buy n pr ps) = sample_buy n pr ps" "order_id (sample_buy n pr ps) = ''b1''"
  by (simp_all add: sample_buy_def new_order_def is_buy_def has_param_def released_def)

text \<open>The buy order of the given quantity, price and parameters on the sample book.\<close>

lemma sample_run:
  assumes "0 < n" "n < 2 ^ 24" "and ps STOP = 0"
  shows "\<exists>b p b' st. book_ok b [] [(p, [1])] \<and> arriving b 2 (sample_buy n pr ps) ([] @ [(p, [1])]) \<and>
    \<not> parks (market_price b) (sample_buy n pr ps) \<and> add_order 2 b = Some (Inr (b', st)) \<and>
    qty_at b 1 = fl 10 \<and> market_price b = fl 50 \<and> price (order_at b 1) = fl 100 \<and> params (order_at b 1) = GTC"
proof -
  let ?qo = "sample_buy n pr ps"
  obtain b p where b: "market_price b = fl 50" "qty_at b 1 = fl 10" "book_ok (alloc_order 2 ?qo 0 b) [] [(p, [1])]"
    "arriving (alloc_order 2 ?qo 0 b) 2 ?qo ([] @ [(p, [1])])" "price (order_at b 1) = fl 100"
    "params (order_at b 1) = GTC"
    using sample_book [OF fresh_buy [OF assms(1,2), of pr ps]] by auto
  obtain b' st where "add_order 2 (alloc_order 2 ?qo 0 b) = Some (Inr (b', st))"
    using add_order_returns [OF b(3,4)] by blast
  moreover have "\<not> parks mp ?qo" for mp using assms(3) by (simp add: parks_def)
  moreover have "market_price (alloc_order 2 ?qo 0 b) = fl 50" "qty_at (alloc_order 2 ?qo 0 b) 1 = fl 10"
    "price (order_at (alloc_order 2 ?qo 0 b) 1) = fl 100" "params (order_at (alloc_order 2 ?qo 0 b) 1) = GTC"
    using b(1,2,5,6) by (simp_all add: alloc_order_def qty_at_def order_at_def)
  ultimately show ?thesis using b(3,4) by blast
qed

lemmas sample_params = STOP_def GTC_def AON_def IOC_def FOK_def

section \<open>Adding an order\<close>

text \<open>
  C1. \<^verbatim>\<open>match_order\<close> refines the level-by-level specification: on a well-formed book, for an order
  that does not rest in it, the pointer program returns without an exception, its result, the open
  quantity left, the queues of every limit and the market price are those of \<open>match_levels\<close>, the
  orders it filled leave their lists and the id map, and the book stays well formed.
\<close>

theorem match_order_refines:
  assumes "book_ok b bl al" "q \<notin> resting bl \<union> resting al" "order_mem b q = Some qo" "good_qty (current_qty qo)"
  shows "\<exists>b' r ls'. match_order q b = Some (Inr (b', r)) \<and>
    (r, qty_at b' q, map (level_of b') ls', market_price b') =
      match_levels (has_param qo AON) (cross_at (price qo) (order_type qo) (is_buy qo)) (current_qty qo)
        (map (level_of b) (side_of (\<not> is_buy qo) bl al)) (market_price b) \<and>
    book_ok b' (side_of (is_buy qo) bl ls') (side_of (is_buy qo) ls' al)"
  using match_order_correct [OF assms] assms(3) by (auto simp: match_result_def qty_at_Some)

theorem match_order_refines_witness:
  "\<exists>b p b' r ls'. book_ok b [] [(p, [1])] \<and> match_order 2 b = Some (Inr (b', r)) \<and> book_ok b' [] ls'"
proof -
  obtain b p where b: "book_ok b [] [(p, [1])]" "arriving b 2 (sample_buy 4 100 GTC) ([] @ [(p, [1])])"
    using sample_run [of 4 GTC 100] by (auto simp: sample_params)
  with match_order_refines [OF b(1), of 2 "sample_buy 4 100 GTC"] show ?thesis
    by (fastforce simp: arriving_def incoming_def side_of_def)
qed

text \<open>
  C2. Adding an order: whatever its side, type and parameters, a new order with a positive quantity
  and an unused id is processed to the end: no exception, no undefined step, and the status is one
  of accepted, matched and not matched. The resulting book is well formed again.
\<close>

theorem add_order_total:
  assumes "book_ok b bl al" "arriving b q qo (bl @ al)"
  shows "\<exists>b' st bl' al'. add_order q b = Some (Inr (b', st)) \<and> book_ok b' bl' al' \<and>
    st \<in> {ACCEPTED, MATCHED, NOT_MATCHED}"
proof (cases "parks (market_price b) qo")
  case True
  then show ?thesis using add_order_parks [OF assms(1) _ True] assms(2) by (force simp: arriving_def incoming_def)
next
  case False
  obtain b' st bl' al' where b': "add_order q b = Some (Inr (b', st))" "book_ok b' bl' al'"
    using add_order_returns [OF assms] by blast
  from add_order_facts [OF assms False b'(1)] have "st \<in> {ACCEPTED, MATCHED, NOT_MATCHED}" by blast
  with b' show ?thesis by blast
qed

theorem add_order_total_witness:
  "\<exists>b b' st. add_order 2 b = Some (Inr (b', st)) \<and> st \<in> {ACCEPTED, MATCHED, NOT_MATCHED}"
proof -
  obtain b p where "book_ok b [] [(p, [1])]" "arriving b 2 (sample_buy 4 100 GTC) ([] @ [(p, [1])])"
    using sample_run [of 4 GTC 100] by (auto simp: sample_params)
  from add_order_total [OF this] show ?thesis by blast
qed





lemma levels_line: "levels_ok b ls \<Longrightarrow> good_queue (side_line b ls)"
  by (induction b ls rule: levels_ok.induct) (auto simp: side_line_def)

lemma served_append: "served qs qs' \<Longrightarrow> served (qs @ zs) (qs' @ zs)"
  unfolding served_def by (metis append.assoc append_Cons)

lemma side_line_split: "side_line b ls = side_line b (takeWhile P ls) @ side_line b (dropWhile P ls)"
  unfolding side_line_def by (metis concat_append map_append takeWhile_dropWhile_id)

lemma book_sides:
  assumes "book_ok b bl al"
  shows "side_ok buy b (side_of buy bl al)" "side_ok (\<not> buy) b (side_of (\<not> buy) bl al)"
  using assms by (cases buy; simp add: book_ok_def book_struct_def side_of_def)+

text \<open>
  Fair service: adding an order that may be filled in parts takes the opposite orders from the
  front of the line. There is one point such that the orders before it are filled and gone, the
  order at it keeps a positive quantity not above its old one, and all orders behind it are
  unchanged.
\<close>

lemma front_of_line_first:
  assumes "book_ok b bl al" "arriving b q qo (bl @ al)" "\<not> parks (market_price b) qo"
    "\<not> has_param (released qo) AON" "add_order q b = Some (Inr (b', st))"
  shows "\<exists>bl' al'. book_ok b' bl' al' \<and>
    served (side_line b (side_of (\<not> is_buy qo) bl al)) (side_line b' (side_of (\<not> is_buy qo) bl' al'))"
proof (rule add_order_facts [OF assms(1,2,3,5)], goal_cases)
  case (1 own' opp' b1)
  let ?opp = "side_of (\<not> is_buy qo) bl al" let ?cross = "cross_at (price qo) (order_type qo) (is_buy qo)"
  let ?C = "\<lambda>v. ?cross (lv_price v) \<noteq> None" let ?vs = "map (level_of b) ?opp"
  have n: "good_qty (current_qty qo)" using assms(2) by (simp add: arriving_def incoming_def)
  have "levels_ok b ?opp" using book_sides(2) [OF assms(1), of "is_buy qo"] by (simp add: side_ok_def)
  then have "good_queue (line (takeWhile ?C ?vs) @ line (dropWhile ?C ?vs))"
    using levels_line line_level_of [of b ?opp] by (metis concat_append map_append takeWhile_dropWhile_id)
  then have g: "good_queue (line (takeWhile ?C ?vs))" by simp
  obtain k qs where k: "fill_queue False (current_qty qo) (line (takeWhile ?C ?vs)) = (k, qs)" by fastforce
  have "match_levels False ?cross (current_qty qo) ?vs (market_price b) =
      (st = MATCHED, qty_at b' q, map (level_of b1) opp', market_price b')"
    using 1(2) assms(4) by simp
  from match_levels_line [OF this n] have "line (map (level_of b1) opp') = qs @ line (dropWhile ?C ?vs)"
    by (simp only: k prod.case prod.inject)
  then have "side_line b1 opp' = qs @ line (dropWhile ?C ?vs)" by (simp only: line_level_of)
  moreover have "side_line b1 opp' = side_line b' opp'" using 1(5) by (intro side_line_cong) simp
  moreover have "side_line b ?opp = line (takeWhile ?C ?vs) @ line (dropWhile ?C ?vs)"
    using line_level_of [of b ?opp] by (metis concat_append map_append takeWhile_dropWhile_id)
  ultimately have "served (side_line b ?opp) (side_line b' opp')"
    using served_append [OF fill_queue_served [OF k _ g]] n by simp
  moreover have "side_of (\<not> is_buy qo) (side_of (is_buy qo) own' opp') (side_of (is_buy qo) opp' own') = opp'"
    by (simp add: side_of_def)
  ultimately show ?case using 1(1) by metis
qed





text \<open>
  C11. An order that is accepted without being parked rests behind all orders of its price: it is
  the last one of the list of the limit with its price, the other limits of its side are as before
  and the order map knows it under its id.
\<close>

theorem accepted_rests_last:
  assumes "book_ok b bl al" "arriving b q qo (bl @ al)" "\<not> parks (market_price b) qo"
    "add_order q b = Some (Inr (b', ACCEPTED))"
  shows "\<exists>bl' al' ls1 p os ls2. book_ok b' bl' al' \<and> side_of (is_buy qo) bl' al' = ls1 @ (p, os @ [q]) # ls2 \<and>
    limit_price (limit_at b' p) = price qo \<and>
    (side_of (is_buy qo) bl al = ls1 @ (p, os) # ls2 \<or> os = [] \<and> side_of (is_buy qo) bl al = ls1 @ ls2) \<and>
    map_of (orders b') (order_id (order_at b' q)) = Some q"
proof (rule add_order_facts [OF assms], goal_cases)
  case (1 own' opp' b1)
  have qo: "order_at b q = qo" using assms(2) by (simp add: arriving_def incoming_def)
  have J: "joins b' q (side_of (is_buy qo) bl al) own'" using 1(6) by simp
  then obtain ls1 p os ls2 where own: "own' = ls1 @ (p, os @ [q]) # ls2"
    "limit_price (limit_at b' p) = price qo"
    "side_of (is_buy qo) bl al = ls1 @ (p, os) # ls2 \<or> os = [] \<and> side_of (is_buy qo) bl al = ls1 @ ls2"
    using 1(9) [of q] qo by (auto simp: joins_def)
  have "q \<in> resting (side_of (is_buy qo) own' opp') \<union> resting (side_of (is_buy qo) opp' own')"
    using own(1) by (auto simp: side_of_def)
  then have "map_of (orders b') (order_id (order_at b' q)) = Some q"
    using 1(1) by (simp add: book_ok_def ids_ok_def)
  moreover have "side_of (is_buy qo) (side_of (is_buy qo) own' opp') (side_of (is_buy qo) opp' own') = own'"
    by (simp add: side_of_def)
  ultimately show ?case using 1(1) own by metis
qed

theorem accepted_rests_last_witness:
  "\<exists>b' bl' al' ls1 p os ls2.
    add_order 1 (alloc_order 1 sample_sell 0 (empty_book ''X'' (fl 50) Map.empty 0)) = Some (Inr (b', ACCEPTED)) \<and>
    book_ok b' bl' al' \<and> al' = ls1 @ (p, os @ [1]) # ls2 \<and> limit_price (limit_at b' p) = fl 100"
proof -
  let ?e = "empty_book ''X'' (fl 50) Map.empty 0" let ?b = "alloc_order 1 sample_sell 0 ?e"
  have new: "order_mem ?e 1 = None" "(1::nat) \<noteq> 0" "map_of (orders ?e) (order_id sample_sell) = None"
    by (simp_all add: empty_book_def)
  note a = alloc_book [OF empty_book_ok new(1,2) fresh_sell new(3), of 0]
  have np: "\<not> parks (market_price ?b) sample_sell"
    by (simp add: parks_def sample_sell_def new_order_def has_param_def sample_params)
  obtain b' where b': "add_order 1 ?b = Some (Inr (b', ACCEPTED))"
    using add_order_returns [OF a] sample_first by auto
  have "is_buy sample_sell = False" "price sample_sell = fl 100"
    by (simp_all add: sample_sell_def new_order_def is_buy_def)
  with accepted_rests_last [OF a np b'] b' show ?thesis by (simp only: side_of_def if_False) blast
qed

text \<open>
  C10. Conservation: when the quantities are whole numbers below \<open>2^24\<close>, what the order gains is
  exactly what the orders of the opposite side lose.
\<close>

theorem quantity_conserved:
  assumes "book_ok b bl al" "arriving b q qo (bl @ al)" "\<not> parks (market_price b) qo"
    "whole (current_qty qo)" "whole_queue (side_line b (side_of (\<not> is_buy qo) bl al))"
    "add_order q b = Some (Inr (b', st))"
  shows "\<exists>bl' al'. book_ok b' bl' al' \<and>
    current_qty qo - qty_at b' q =
      total (side_line b (side_of (\<not> is_buy qo) bl al)) - total (side_line b' (side_of (\<not> is_buy qo) bl' al'))"
proof (rule add_order_facts [OF assms(1,2,3,6)], goal_cases)
  case (1 own' opp' b1)
  let ?opp = "side_of (\<not> is_buy qo) bl al"
  have "whole_queue (line (map (level_of b) ?opp))" using assms(5) by (simp only: line_level_of)
  from match_levels_total [OF 1(2) [symmetric] assms(4) this]
  have "current_qty qo - qty_at b' q = total (side_line b ?opp) - total (side_line b1 opp')"
    by (simp only: line_level_of)
  moreover have "side_line b1 opp' = side_line b' opp'" using 1(5) by (intro side_line_cong) simp
  moreover have "side_of (\<not> is_buy qo) (side_of (is_buy qo) own' opp') (side_of (is_buy qo) opp' own') = opp'"
    by (simp add: side_of_def)
  ultimately show ?case using 1(1) by metis
qed

theorem quantity_conserved_witness:
  "\<exists>b p b' st bl' al'. qty_at b 1 = fl 10 \<and> add_order 2 b = Some (Inr (b', st)) \<and> book_ok b' bl' al' \<and>
    fl 4 - qty_at b' 2 = total (side_line b [(p, [1])]) - total (side_line b' al')"
proof -
  let ?qo = "sample_buy 4 100 GTC"
  obtain b p b' st where b: "book_ok b [] [(p, [1])]" "arriving b 2 ?qo ([] @ [(p, [1])])"
    "\<not> parks (market_price b) ?qo" and a: "add_order 2 b = Some (Inr (b', st))" "qty_at b 1 = fl 10"
    using sample_run [of 4 GTC 100] by (auto simp: sample_params)
  have "whole (fl k)" if "0 \<le> k" "k < 2 ^ 24" for k using that by (auto simp: whole_def)
  then have "whole (current_qty ?qo)" "whole_queue (side_line b (side_of (\<not> is_buy ?qo) [] [(p, [1])]))"
    using a(2) by (simp_all add: side_of_def side_line_def)
  from quantity_conserved [OF b this a(1)] a show ?thesis
    by (simp only: sample_buy_simps side_of_def not_True_eq_False if_False) blast
qed

text \<open>
  Limit price respected: the market price is the one before, or it is a price the order
  accepts: at most its price for a buy order, at least its price for a sell order.
\<close>

lemma price_respected:
  assumes "book_ok b bl al" "arriving b q qo (bl @ al)" "\<not> parks (market_price b) qo"
    "add_order q b = Some (Inr (b', st))"
  shows "market_price b' = market_price b \<or>
    (if is_buy qo then market_price b' \<le> price qo else price qo \<le> market_price b')"
proof (rule add_order_facts [OF assms], goal_cases)
  case (1 own' opp' b1)
  from match_levels_price [OF 1(2) [symmetric]] show ?case
    by (auto simp: cross_at_def split: if_splits)
qed

text \<open>
  C18. No trade is ever reported: adding an order hands nothing to the trade repository, even when
  it is matched, because the comparison in \<^verbatim>\<open>resolve_orders\<close> is between two copies of a local variable.
\<close>

theorem no_trade_reported:
  assumes "book_ok b bl al" "arriving b q qo (bl @ al)" "add_order q b = Some (Inr (b', st))"
  shows "trade_queue b' = trade_queue b"
proof (cases "parks (market_price b) qo")
  case True
  then show ?thesis using add_order_parks [OF assms(1) _ True] assms(2,3) by (force simp: arriving_def incoming_def)
next
  case False
  show ?thesis by (rule add_order_facts [OF assms(1,2) False assms(3)])
qed

theorem no_trade_reported_witness:
  "\<exists>b b' st. add_order 2 b = Some (Inr (b', st)) \<and> trade_queue b' = trade_queue b"
proof -
  let ?qo = "sample_buy 4 100 GTC"
  obtain b p b' st where b: "book_ok b [] [(p, [1])]" "arriving b 2 ?qo ([] @ [(p, [1])])"
    and a: "add_order 2 b = Some (Inr (b', st))"
    using sample_run [of 4 GTC 100] by (auto simp: sample_params)
  from no_trade_reported [OF b a] a show ?thesis by blast
qed



section \<open>Queries\<close>

text \<open>
  C15. \<^verbatim>\<open>get_bids\<close> and \<^verbatim>\<open>get_asks\<close> return the resting orders of their side, each once, in price-time
  order: bids by falling, asks by rising price, orders of one price in the order of their list.
\<close>

theorem lists_in_priority_order:
  assumes "book_ok b bl al"
  shows "get_bids b = Some (concat (map snd bl)) \<and> get_asks b = Some (concat (map snd al)) \<and>
    distinct (concat (map snd bl)) \<and> distinct (concat (map snd al)) \<and>
    sorted_wrt (\<lambda>v w. limit_price (limit_at b (fst w)) < limit_price (limit_at b (fst v))) bl \<and>
    sorted_wrt (\<lambda>v w. limit_price (limit_at b (fst v)) < limit_price (limit_at b (fst w))) al \<and>
    (\<forall>(p, os) \<in> set (bl @ al). \<forall>x \<in> set os. price (order_at b x) = limit_price (limit_at b p))"
proof -
  have S: "side_ok True b bl" "side_ok False b al" using assms by (simp_all add: book_ok_def book_struct_def)
  show ?thesis
    using side_queries(1) [OF S(1)] side_queries(1) [OF S(2)] side_sorted [OF S(1)] side_sorted [OF S(2)] S
      levels_distinct [of b bl] levels_distinct [of b al]
    by (auto simp: get_bids_def get_asks_def limits_of_def side_ok_def order_fits_def)
qed

theorem lists_in_priority_order_witness:
  "\<exists>b p. price (order_at b 1) = fl 100 \<and> get_bids b = Some [] \<and> get_asks b = Some [1]"
proof -
  obtain b p where b: "price (order_at b 1) = fl 100" "book_ok (alloc_order 2 (sample_buy 4 100 GTC) 0 b) [] [(p, [1])]"
    using sample_book [OF fresh_buy [of 4 100 GTC]] by auto
  have "price (order_at (alloc_order 2 (sample_buy 4 100 GTC) 0 b) 1) = fl 100"
    using b(1) by (simp add: order_at_def alloc_order_def)
  with lists_in_priority_order [OF b(2)] show ?thesis by auto
qed

text \<open>
  The snapshot lists every limit of a side, in the order of the side, with its price and its
  active volume. Its spread names the lowest ask, but as the best bid the price of the last limit of
  the bids, which is the lowest bid price of the book.
\<close>

lemma snapshot_contents:
  assumes "book_ok b bl al" "bl \<noteq> []" "al \<noteq> []"
  shows "\<exists>s. get_snapshot b = Some s \<and>
    map snap_price (bids s) = map (\<lambda>lv. limit_price (limit_at b (fst lv))) bl \<and>
    map snap_price (asks s) = map (\<lambda>lv. limit_price (limit_at b (fst lv))) al \<and>
    map snap_qty (bids s) = map (\<lambda>lv. to_f32 (volume_at b (fst lv))) bl \<and>
    map snap_qty (asks s) = map (\<lambda>lv. to_f32 (volume_at b (fst lv))) al \<and>
    (\<forall>lv \<in> set al. best_ask_price (spread s) \<le> limit_price (limit_at b (fst lv))) \<and>
    (\<forall>lv \<in> set bl. best_bid_price (spread s) \<le> limit_price (limit_at b (fst lv))) \<and>
    spread_market_price (spread s) = market_price b"
proof -
  have S: "side_ok True b bl" "side_ok False b al" using assms by (simp_all add: book_ok_def book_struct_def)
  have asc: "limit_price (limit_at b (fst (hd al))) \<le> limit_price (limit_at b (fst lv))" if "lv \<in> set al" for lv
    using side_sorted [OF S(2)] that by (cases al) auto
  have desc: "limit_price (limit_at b (fst (last bl))) \<le> limit_price (limit_at b (fst lv))" if "lv \<in> set bl" for lv
    using side_sorted [OF S(1)] that by (cases bl rule: rev_cases) (auto simp: sorted_wrt_append)
  show ?thesis
    using snapshot_book [OF assms] asc desc by (simp add: comp_def)
qed

lemma sample_two_sides: "\<exists>b bl al. book_ok b bl al \<and> bl \<noteq> [] \<and> al \<noteq> []"
proof -
  let ?qo = "sample_buy 4 90 GTC"
  obtain b p b' st where b: "book_ok b [] [(p, [1])]" "arriving b 2 ?qo ([] @ [(p, [1])])"
    "\<not> parks (market_price b) ?qo" and a: "add_order 2 b = Some (Inr (b', st))" "price (order_at b 1) = fl 100"
    using sample_run [of 4 GTC 90] by (auto simp: sample_params)
  have pr: "limit_price (limit_at b p) = fl 100"
    using b(1) a(2) by (simp add: book_ok_def book_struct_def side_ok_def order_fits_def)
  show ?thesis
  proof (rule add_order_facts [OF b a(1)], goal_cases)
    case (1 own' opp' b1)
    have "opp' \<noteq> []" using 1(3) by (auto simp: side_of_def shrinks_def)
    moreover have "st = ACCEPTED"
      using 1(2,7) pr by (auto simp: side_of_def cross_at_def sample_params split: if_splits)
    then have "own' \<noteq> []" using 1(6) by (auto simp: joins_def)
    ultimately show ?thesis using 1(1) by (auto simp: side_of_def)
  qed
qed

section \<open>Cancelling and modifying\<close>

text \<open>
  C16. Cancelling an order that is not in the order map answers \<^verbatim>\<open>NOT_FOUND\<close> and changes nothing.
  Cancelling a resting order that is not a stop order marks it as cancelled and takes it out of its
  list and of the order map, leaving every other list as it was and the book well formed; a resting
  order with the stop parameter is marked and leaves the map but stays in its list. In both cases
  the execution then goes on to read the map entry it has just erased.
\<close>

theorem cancel_order_effect:
  assumes "book_ok b bl al"
  shows "(map_of (orders b) i = None \<longrightarrow> cancel_order i b = Some (Inr (b, NOT_FOUND))) \<and>
    (\<forall>q. map_of (orders b) i = Some q \<longrightarrow>
      (\<exists>b'. cancel_order i b = Some (Inl (Erased_entry, b')) \<and> cancelled (order_at b' q) \<and> map_of (orders b') i = None \<and>
        (if has_param (order_at b q) STOP then get_bids b' = get_bids b \<and> get_asks b' = get_asks b
         else book_ok b' (drop_order q bl) (drop_order q al))))"
proof (intro conjI allI impI)
  fix q assume "map_of (orders b) i = Some q"
  from cancel_order_book [OF assms this] cancel_stop_order [OF assms this]
  show "\<exists>b'. cancel_order i b = Some (Inl (Erased_entry, b')) \<and> cancelled (order_at b' q) \<and> map_of (orders b') i = None \<and>
        (if has_param (order_at b q) STOP then get_bids b' = get_bids b \<and> get_asks b' = get_asks b
         else book_ok b' (drop_order q bl) (drop_order q al))"
    by (cases "has_param (order_at b q) STOP") auto
qed (simp add: cancel_order_def)

theorem cancel_order_effect_witness:
  "\<exists>b p i b'. book_ok b [] [(p, [1])] \<and> cancel_order i b = Some (Inl (Erased_entry, b')) \<and>
    book_ok b' [] [(p, [])] \<and> cancelled (order_at b' 1) \<and> cancel_order ''none'' b' = Some (Inr (b', NOT_FOUND))"
proof -
  obtain b p where b: "book_ok b [] [(p, [1])]" "params (order_at b 1) = GTC"
    using sample_run [of 4 GTC 100] by (auto simp: sample_params)
  let ?i = "order_id (order_at b 1)"
  have "map_of (orders b) ?i = Some 1" using b(1) by (simp add: book_ok_def ids_ok_def)
  moreover have "\<not> has_param (order_at b 1) STOP" using b(2) by (simp add: has_param_def sample_params)
  ultimately obtain b' where b': "cancel_order ?i b = Some (Inl (Erased_entry, b'))" "book_ok b' [] [(p, [])]"
    "cancelled (order_at b' 1)"
    using cancel_order_effect [OF b(1), of ?i] by auto
  moreover have "map_of (orders b') ''none'' = None" using b'(2) by (auto simp: book_ok_def ids_ok_def)
  ultimately show ?thesis using b(1) cancel_order_effect [OF b'(2), of "''none''"] by blast
qed

text \<open>
  C17. Modifying: a request for an id that is not in the order map changes nothing. For a resting order without
  the stop parameter, the old order is taken out of its list and of the order map, and then the erased
  map entry is read to find the limit for the new one: the new order never enters the book. For one
  with the stop parameter, the answer is MODIFIED and the new order is put into the stop orders of its
  side, whatever the market price; the old one is marked as cancelled but stays in its list, and neither is
  in the order map.
\<close>

theorem modify_order_effect:
  assumes "book_ok b bl al" "order_mem b n = Some new"
  shows "(map_of (orders b) (order_id new) = None \<longrightarrow> modify_order n b = Some (Inr (b, NOT_FOUND))) \<and>
    (\<forall>q. map_of (orders b) (order_id new) = Some q \<longrightarrow>
      (\<not> has_param (order_at b q) STOP \<longrightarrow> (\<exists>b'. modify_order n b = Some (Inl (Erased_entry, b')) \<and>
        book_ok b' (drop_order q bl) (drop_order q al) \<and> map_of (orders b') (order_id new) = None)) \<and>
      (has_param (order_at b q) STOP \<and> n \<noteq> q \<longrightarrow> (\<exists>b' ns. modify_order n b = Some (Inr (b', MODIFIED)) \<and>
        get_bids b' = get_bids b \<and> get_asks b' = get_asks b \<and> cancelled (order_at b' q) \<and>
        map_of (orders b') (order_id new) = None \<and>
        (if is_buy new then get_bid_stop_orders b' else get_ask_stop_orders b') = Some ns \<and> n \<in> set ns)))"
proof (intro conjI allI impI)
  fix q assume i: "map_of (orders b) (order_id new) = Some q"
  show "\<exists>b'. modify_order n b = Some (Inl (Erased_entry, b')) \<and>
      book_ok b' (drop_order q bl) (drop_order q al) \<and> map_of (orders b') (order_id new) = None"
    if "\<not> has_param (order_at b q) STOP"
    using modify_order_erased [OF assms i that] .
  show "\<exists>b' ns. modify_order n b = Some (Inr (b', MODIFIED)) \<and>
      get_bids b' = get_bids b \<and> get_asks b' = get_asks b \<and> cancelled (order_at b' q) \<and>
      map_of (orders b') (order_id new) = None \<and>
      (if is_buy new then get_bid_stop_orders b' else get_ask_stop_orders b') = Some ns \<and> n \<in> set ns"
    if "has_param (order_at b q) STOP \<and> n \<noteq> q"
    using modify_stop_order [OF assms i] that by (simp add: stop_list_def)
qed (use assms(2) in \<open>simp add: modify_order_def\<close>)

theorem modify_order_effect_witness:
  "\<exists>b p b'. book_ok b [] [(p, [1])] \<and> modify_order 1 b = Some (Inl (Erased_entry, b')) \<and> book_ok b' [] [(p, [])]"
proof -
  obtain b p where b: "book_ok b [] [(p, [1])]" "params (order_at b 1) = GTC"
    using sample_run [of 4 GTC 100] by (auto simp: sample_params)
  have o: "map_of (orders b) (order_id (order_at b 1)) = Some 1" using b(1) by (simp add: book_ok_def ids_ok_def)
  from listed_order(3) [OF b(1) this] obtain ord where ord: "order_mem b 1 = Some ord" by auto
  have "\<not> has_param (order_at b 1) STOP" using b(2) by (simp add: has_param_def sample_params)
  with modify_order_effect [OF b(1) ord] o ord b(1) show ?thesis by (fastforce simp: order_at_def)
qed

section \<open>Dated orders\<close>

text \<open>
  C34. An accepted order is entered in the list of dated orders, sorted by expiry, exactly if it has the
  parameter GFD or GTD. Only one order per expiry time is kept: another dated order that expires at
  the same time is taken out of the list.
\<close>

theorem dated_order_recorded:
  assumes "book_ok b bl al" "arriving b q qo (bl @ al)" "add_order q b = Some (Inr (b', ACCEPTED))"
  shows "\<exists>qs qs'. get_orders_with_experation b = Some qs \<and> get_orders_with_experation b' = Some qs' \<and>
    (if has_param qo GFD \<or> has_param qo GTD
     then set qs' = insert q {x \<in> set qs. expire_time (order_at b x) \<noteq> expire_time qo} \<and>
       sorted_wrt (\<lambda>x y. expire_time (order_at b x) < expire_time (order_at b y)) qs'
     else qs' = qs)"
proof -
  obtain qs where qs: "get_orders_with_experation b = Some qs" "sorted_wrt (date_lt b) qs" using date_list [OF assms(1)] .
  have lt: "date_lt b = (\<lambda>x y. expire_time (order_at b x) < expire_time (order_at b y))"
    by (simp add: date_lt_def [abs_def] DateOrderComparator_def)
  have "order_at b q = qo" using assms(2) by (simp add: arriving_def incoming_def order_at_def)
  then have same: "same_key (date_lt b) q x \<longleftrightarrow> expire_time (order_at b x) = expire_time qo" for x
    by (auto simp: same_key_def lt)
  let ?qs = "put_key (date_lt b) q qs"
  have new: "set ?qs = insert q {x \<in> set qs. expire_time (order_at b x) \<noteq> expire_time qo}"
    "sorted_wrt (\<lambda>x y. expire_time (order_at b x) < expire_time (order_at b y)) ?qs"
    using date_order.set_put_key [OF qs(2), of q] date_order.sorted_put_key [OF qs(2), of q]
    unfolding same by (simp_all only: lt)
  show ?thesis
  proof (cases "has_param qo GFD \<or> has_param qo GTD")
    case True
    then have "get_orders_with_experation b' = Some ?qs"
      using accepted_dates [OF assms] qs(1) by (simp add: dates_after_def)
    with qs(1) new True show ?thesis by (intro exI [of _ qs] exI [of _ ?qs]) simp
  next
    case False
    then show ?thesis using accepted_dates [OF assms] qs(1) by (simp add: dates_after_def)
  qed
qed

text \<open>A stop order that is good for the day, parked on a new book.\<close>

lemma sample_dated:
  obtains b b' where "book_ok b [] []" "arriving b 1 (sample_buy 4 100 STOP_GFD) ([] @ [])"
    "add_order 1 b = Some (Inr (b', ACCEPTED))" "get_orders_with_experation b = Some []" "book_ok b' [] []" "orders b' = []"
    "order_at b' 1 = sample_buy 4 100 STOP_GFD" "get_bid_stop_orders b' = Some [1]" "get_orders_with_experation b' = Some [1]"
proof -
  let ?o = "sample_buy 4 100 STOP_GFD" let ?e = "empty_book ''X'' (fl 50) Map.empty 0" let ?b = "alloc_order 1 ?o 0 ?e"
  have a: "book_ok ?b [] []" "arriving ?b 1 ?o ([] @ [])"
    using alloc_book [OF empty_book_ok _ _ fresh_buy [of 4 100 STOP_GFD], of "''X''" "fl 50" Map.empty 0 1 0]
    by (simp_all add: empty_book_def)
  have par: "has_param ?o STOP" "has_param ?o GFD" by (simp_all add: param_defs)
  have "parks (market_price ?b) ?o"
    using par(1) by (simp add: parks_def alloc_order_def empty_book_def) (simp add: sample_buy_def new_order_def fl_def)
  moreover have mem: "order_mem ?b 1 = Some ?o" by (simp add: alloc_order_def)
  ultimately obtain b' where b': "add_order 1 ?b = Some (Inr (b', ACCEPTED))" "book_ok b' [] []" "orders b' = orders ?b"
    "order_mem b' = order_mem ?b" "stops_after (is_buy ?o) 1 ?b b'" "dates_after ?o 1 ?b b'"
    using add_order_parks [OF a(1)] by blast
  have none: "iterate (new_rbtree (0::nat)) (begin_it (new_rbtree (0::nat))) [] = Some []"
    using iterate_index [OF new_rbtree_index [of "(<)" "0::nat"]] by simp
  have e: "get_orders_with_experation ?b = Some []" "get_bid_stop_orders ?b = Some []" "orders ?b = []"
    using none by (simp_all add: get_orders_with_experation_def get_bid_stop_orders_def empty_book_def alloc_order_def)
  show ?thesis
  proof (rule that [OF a b'(1) e(1) b'(2)])
    show "orders b' = []" "order_at b' 1 = ?o" using b'(3,4) e(3) mem by (simp_all add: order_at_def)
    show "get_bid_stop_orders b' = Some [1]" "get_orders_with_experation b' = Some [1]"
      using b'(5,6) e par(2) by (simp_all add: stops_after_def dates_after_def)
  qed
qed

theorem dated_order_recorded_witness:
  "\<exists>b b' qs'. add_order 1 b = Some (Inr (b', ACCEPTED)) \<and> get_orders_with_experation b' = Some qs' \<and> set qs' = {1}"
proof -
  obtain b b' where b: "book_ok b [] []" "arriving b 1 (sample_buy 4 100 STOP_GFD) ([] @ [])"
    "add_order 1 b = Some (Inr (b', ACCEPTED))" "get_orders_with_experation b = Some []"
    by (rule sample_dated)
  have "has_param (sample_buy 4 100 STOP_GFD) GFD" by (simp add: param_defs)
  with dated_order_recorded [OF b(1,2,3)] b(3,4) show ?thesis by auto
qed

text \<open>
  C33. The end-of-day check looks at the dated orders that have expired, up to the first that has not.
  When none of them is in the order map, the check takes exactly these out of the dated orders and
  changes nothing else: a parked stop order that has expired stays parked. When one of them is in
  the map, the check does not complete, because cancelling it uses the erased map entry.
\<close>

theorem check_date_orders_effect:
  assumes "book_ok b bl al"
  shows "\<exists>qs. get_orders_with_experation b = Some qs \<and>
    (if \<exists>q \<in> set (takeWhile (expired b) qs). known b q
     then \<exists>b'. check_date_orders b = Some (Inl (Erased_entry, b'))
     else \<exists>t. check_date_orders b = Some (Inr (b\<lparr>date_orders := t\<rparr>)) \<and>
       get_orders_with_experation (b\<lparr>date_orders := t\<rparr>) = Some (dropWhile (expired b) qs))"
proof -
  obtain xs where xs: "is_index (date_lt b) (date_orders b) xs" "\<forall>x \<in> set xs. order_mem b (snd x) \<noteq> None"
    using assms by (auto simp: book_ok_def book_struct_def parked_ok_def keys_ok_def)
  have qs: "get_orders_with_experation b = Some (map snd xs)"
    using iterate_index [OF xs(1)] by (simp add: get_orders_with_experation_def)
  let ?E = "takeWhile (expired b) (map snd xs)"
  note loop = expire_loop_index [OF assms, of "[]" xs "[]"]
  have "if \<exists>q \<in> set ?E. known b q then \<exists>b'. check_date_orders b = Some (Inl (Erased_entry, b'))
     else \<exists>t. check_date_orders b = Some (Inr (b\<lparr>date_orders := t\<rparr>)) \<and>
       get_orders_with_experation (b\<lparr>date_orders := t\<rparr>) = Some (dropWhile (expired b) (map snd xs))"
  proof (cases "\<exists>q \<in> set ?E. known b q")
    case True
    then show ?thesis using loop xs by (auto simp: check_date_orders_def index_begin)
  next
    case False
    let ?P = "\<lambda>x. expired b (snd x)"
    have E: "map snd (takeWhile ?P xs) = ?E" "map snd (dropWhile ?P xs) = dropWhile (expired b) (map snd xs)"
      by (simp_all add: takeWhile_map dropWhile_map comp_def)
    from remove_all_prefix [of "date_lt b" "date_orders b" "takeWhile ?P xs" "dropWhile ?P xs"] date_order.comparator_axioms xs(1)
    obtain t where t: "remove_all (date_lt b) ?E (date_orders b) = Some t" "is_index (date_lt b) t (dropWhile ?P xs)"
      by (auto simp: E(1))
    have "check_date_orders b = Some (Inr (b\<lparr>date_orders := t\<rparr>))"
      using loop xs False t(1) by (simp add: check_date_orders_def index_begin)
    moreover have "get_orders_with_experation (b\<lparr>date_orders := t\<rparr>) = Some (dropWhile (expired b) (map snd xs))"
      using iterate_index [OF t(2)] E(2) by (simp add: get_orders_with_experation_def)
    ultimately show ?thesis using False by auto
  qed
  with qs show ?thesis by blast
qed

theorem check_date_orders_effect_witness:
  "\<exists>b t. get_orders_with_experation b = Some [1] \<and> check_date_orders b = Some (Inr (b\<lparr>date_orders := t\<rparr>)) \<and>
    get_orders_with_experation (b\<lparr>date_orders := t\<rparr>) = Some [] \<and> get_bid_stop_orders (b\<lparr>date_orders := t\<rparr>) = Some [1]"
proof -
  obtain b where b: "book_ok b [] []" "orders b = []" "order_at b 1 = sample_buy 4 100 STOP_GFD"
    "get_bid_stop_orders b = Some [1]" "get_orders_with_experation b = Some [1]"
    by (rule sample_dated)
  have "expired b 1" using b(3) by (simp add: expired_def param_defs)
  moreover have "\<not> known b 1" using b(2) by (simp add: known_def)
  ultimately obtain t where "check_date_orders b = Some (Inr (b\<lparr>date_orders := t\<rparr>))"
    "get_orders_with_experation (b\<lparr>date_orders := t\<rparr>) = Some []"
    using check_date_orders_effect [OF b(1)] b(5) by auto
  with b(4,5) show ?thesis by (auto simp: get_bid_stop_orders_def)
qed

end
