(* ===== verification/Server_Props.thy ===== *)
theory Server_Props
  imports Replies Exchange_Props Calendar_Props Book_Claims
begin

text \<open>
  Requests from end to end: what a handler answers on every branch, that a valid order is served
  through mapper, exchange and book, and that an order is read back through the repository.
\<close>

section \<open>The mapper\<close>

lemma or_throw_Inr: "or_throw r f = Inr y \<longleftrightarrow> (\<exists>x. r = Inr x \<and> f x = Inr y)"
  by (simp add: or_throw_def split: sum.splits)

lemma json_Inr:
  "json_string doc k = Inr s \<longleftrightarrow> field_string doc k = Some s"
  "json_double doc k = Inr d \<longleftrightarrow> field_double doc k = Some d"
  "json_uint doc k = Inr w \<longleftrightarrow> field_uint doc k = Some w"
  by (simp_all add: json_string_def json_double_def json_uint_def or_error_def split: option.splits)

lemmas mapper_simps = map_json_to_order_def Let_def or_throw_Inr json_Inr

lemma mapped_order:
  assumes "map_json_to_order now doc = Inr ord"
  shows "fresh_order ord \<longleftrightarrow> good_qty (current_qty ord)"
  using assms by (auto simp: mapper_simps fresh_order_def new_order_def new_stop_order_def split: if_splits)


definition sample_doc :: "string \<Rightarrow> 64 word \<Rightarrow> json_doc" where
  "sample_doc sd ps = \<lparr>field_string = map_of [(''instrument'', ''X''), (''user_id'', ''u''), (''side'', sd), (''type'', ''LIMIT'')],
     field_double = map_of [(''qty'', fl 4), (''price'', fl 100), (''stop_price'', fl 90)],
     field_uint = map_of [(''params'', ps)]\<rparr>"

lemma to_f32_fl: "0 < n \<Longrightarrow> n < 2 ^ 24 \<Longrightarrow> to_f32 (fl n) = fl n"
  using rnd32_fl [of n] by (simp add: to_f32_def)

lemma sample_doc_order:
  "map_json_to_order 0 (sample_doc sd GTC) =
     Inr (new_order 0 [] ''X'' ''u'' (fl 4) (fl 100) (get_order_side sd) GTC LIMIT (- 1))"
  by (simp add: map_json_to_order_def sample_doc_def json_string_def json_double_def json_uint_def or_error_def
      or_throw_def get_order_params_def params_and_def GTC_def GTD_def GFD_def STOP_def get_order_type_def to_f32_fl)


section \<open>Creating an order\<close>

lemma instrument_passes:
  assumes "map_of (path_params req) INSTRUMENT_KEY = Some i" "instrument_exists i ex"
  shows "validate_instrument_parameter req ex = None" "get_path_param req INSTRUMENT_KEY = i"
  using assms by (simp_all add: validate_instrument_parameter_def validate_parameter_def get_path_param_def)

text \<open>
  A valid request to create an order is served: if the exchange is well formed and open, the
  instrument exists, the body maps to an order with a side and a positive quantity, and the
  generated id is unused, the handler answers OK with the id and the status; the order goes to
  the book of its instrument only and the exchange stays well formed.
\<close>

lemma create_order_served:
  assumes "exchange_ok ex" "is_working ex" "map_of (path_params req) INSTRUMENT_KEY = Some i"
    "map_of (instruments ex) i = Some b" "map_json_to_order now (content req) = Inr ord" "side ord \<noteq> UNKOWN"
    "good_qty (current_qty ord)" "map_of (orders b) uuid = None"
  shows "\<exists>ex' st. create_order_handler now uuid req ex =
      Some (Inr (ex', \<lparr>status = OK, reply_body = B_order_info (uuid, status_code st)\<rparr>)) \<and>
    st \<in> {ACCEPTED, MATCHED, NOT_MATCHED} \<and> exchange_ok ex' \<and> is_working ex' \<and>
    (\<forall>j. j \<noteq> i \<longrightarrow> map_of (instruments ex') j = map_of (instruments ex) j)"
proof -
  have i: "instrument_exists i ex" using assms(4) by (simp add: instrument_exists_def)
  have "fresh_order (set_id uuid ord)" using mapped_order [OF assms(5)] assms(7) by (simp add: fresh_order_def set_id_def)
  moreover have "map_of (orders b) (order_id (set_id uuid ord)) = None" using assms(8) by (simp add: set_id_def)
  ultimately obtain ex' st where e: "exchange_add_order now i (set_id uuid ord) ex = Some (Inr (ex', st))" "exchange_ok ex'"
    "st \<in> {ACCEPTED, MATCHED, NOT_MATCHED}" "working ex' = working ex"
    "\<forall>j. j \<noteq> i \<longrightarrow> map_of (instruments ex') j = map_of (instruments ex) j"
    using exchange_add_order_ok [OF assms(1,4), of "set_id uuid ord" now] by blast
  have "create_order_handler now uuid req ex =
      Some (Inr (ex', \<lparr>status = OK, reply_body = B_order_info (uuid, status_code st)\<rparr>))"
    using instrument_passes [OF assms(3) i] assms(2,5,6) e(1)
    by (simp add: create_order_handler_def validate_order_side_def check_if_exchange_is_working_def is_working_def
        ok_reply_def SeastarOrderInfoJson_def)
  with e assms(2) show ?thesis by (auto simp: is_working_def)
qed

definition sample_request :: "(string \<times> string) list \<Rightarrow> string \<Rightarrow> request" where
  "sample_request ps sd = \<lparr>path_params = ps, content = sample_doc sd GTC\<rparr>"

text \<open>
  C36. Refusals of the create handler, in the order of its checks: without an instrument
  parameter 400; an unknown instrument 404; a body that does not map to an order leaves by the
  parser's exception; a side that is neither BUY nor SELL 400; a closed exchange 204. In all these cases the
  exchange is unchanged.
\<close>

theorem create_order_refused:
  "(map_of (path_params req) INSTRUMENT_KEY = None \<longrightarrow> create_order_handler now uuid req ex =
      Some (Inr (ex, \<lparr>status = BAD_REQUEST, reply_body = B_message ''invalid instrument parameter''\<rparr>))) \<and>
   (\<forall>i. map_of (path_params req) INSTRUMENT_KEY = Some i \<longrightarrow>
     (\<not> instrument_exists i ex \<longrightarrow> create_order_handler now uuid req ex =
        Some (Inr (ex, \<lparr>status = NOT_FOUND_STATUS, reply_body = B_message (''instrument '' @ i @ '' doesn't exist'')\<rparr>))) \<and>
     (instrument_exists i ex \<longrightarrow>
       (\<forall>e. map_json_to_order now (content req) = Inl e \<longrightarrow> create_order_handler now uuid req ex = Some (Inl (Thrown e))) \<and>
       (\<forall>ord. map_json_to_order now (content req) = Inr ord \<longrightarrow>
         (side ord = UNKOWN \<longrightarrow> create_order_handler now uuid req ex =
            Some (Inr (ex, \<lparr>status = BAD_REQUEST, reply_body = B_message ''order side can only be BUY or SELL''\<rparr>))) \<and>
         (side ord \<noteq> UNKOWN \<and> \<not> is_working ex \<longrightarrow> create_order_handler now uuid req ex =
            Some (Inr (ex, \<lparr>status = NO_CONTENT, reply_body = B_message ''exchange is not working currently.''\<rparr>))))))"
  by (simp add: create_order_handler_def validate_instrument_parameter_def validate_parameter_def get_path_param_def
      validate_order_side_def check_if_exchange_is_working_def)

theorem create_order_refused_witness:
  "create_order_handler 0 ''id1'' (sample_request [] ''BUY'') sample_exchange =
     Some (Inr (sample_exchange, \<lparr>status = BAD_REQUEST, reply_body = B_message ''invalid instrument parameter''\<rparr>)) \<and>
   status (snd (projr (the (create_order_handler 0 ''id1'' (sample_request [(''instrument'', ''X'')] ''BUY'') sample_exchange)))) =
     NOT_FOUND_STATUS"
  using create_order_refused [of "sample_request [] ''BUY''" 0 "''id1''" sample_exchange]
    create_order_refused [of "sample_request [(''instrument'', ''X'')] ''BUY''" 0 "''id1''" sample_exchange]
  by (simp add: sample_request_def INSTRUMENT_KEY_def instrument_exists_def sample_exchange_def)

section \<open>Reading an order\<close>

lemma order_reply:
  assumes "kv_laws ops" "codec enc dec"
    "map_of (path_params req) ORDER_ID_KEY = Some (order_id ord)" "is_working ex"
  shows "get_order_handler ops dec (persist ops enc ord db) req ex = Some (Inr (ex,
      if is_cancelled ord \<or> is_fullfilled ord then \<lparr>status = NOT_FOUND_STATUS, reply_body = B_empty\<rparr>
      else \<lparr>status = OK, reply_body = B_order ((SeastarOrderJson ord)\<lparr>oj_stop_price := 0\<rparr>)\<rparr>))"
proof -
  have "get_order ops dec (persist ops enc ord db) (order_id ord) =
      Inr (if is_cancelled ord \<or> is_fullfilled ord then None else Some (stored_form ord))"
    using persist_get [OF assms(1,2)] by simp
  moreover have "SeastarOrderJson (stored_form ord) = (SeastarOrderJson ord)\<lparr>oj_stop_price := 0\<rparr>"
    by (simp add: SeastarOrderJson_def stored_form_def get_qty_def is_cancelled_def)
  ultimately show ?thesis
    using assms(3,4)
    by (simp add: get_order_handler_def validate_parameter_def check_if_exchange_is_working_def exchange_get_order_def
        get_path_param_def ok_reply_def)
qed



section \<open>Cancelling an order\<close>

lemma update_same: "map_of al k = Some v \<Longrightarrow> AList.update k v al = al"
  by (induction al) auto

text \<open>
  A request to cancel, on a well-formed open exchange and an existing instrument: an id that is
  not in the book is answered with 404 and changes nothing; for the id of a resting order the
  handler never answers, because the book goes on with the erased map entry.
\<close>

lemma cancel_request:
  assumes "exchange_ok ex" "is_working ex" "map_of (path_params req) ORDER_ID_KEY = Some oid"
    "map_of (path_params req) INSTRUMENT_KEY = Some i" "map_of (instruments ex) i = Some b"
  shows "(map_of (orders b) oid = None \<longrightarrow>
      cancel_order_handler req ex = Some (Inr (ex, \<lparr>status = NOT_FOUND_STATUS, reply_body = B_empty\<rparr>))) \<and>
    (\<forall>q. map_of (orders b) oid = Some q \<longrightarrow> cancel_order_handler req ex = Some (Inl Erased_entry))"
proof -
  have ie: "instrument_exists i ex" using assms(5) by (simp add: instrument_exists_def)
  obtain bl al where B: "book_ok b bl al" using exchange_okD(1) [OF assms(1,5)] by blast
  have h: "cancel_order_handler req ex = (case exchange_cancel_order i oid ex of None \<Rightarrow> None
     | Some (Inl f) \<Rightarrow> Some (Inl f)
     | Some (Inr (ex, st)) \<Rightarrow> Some (Inr (ex, if st = NOT_FOUND then ok_reply\<lparr>status := NOT_FOUND_STATUS\<rparr>
         else if st = CANCELLED then ok_reply\<lparr>status := OK\<rparr>
         else if st = REJECTED then ok_reply\<lparr>status := NOT_ACCEPTABLE\<rparr> else ok_reply)))"
    using instrument_passes [OF assms(4) ie] assms(2,3)
    by (simp add: cancel_order_handler_def validate_parameter_def check_if_exchange_is_working_def get_path_param_def
        split: option.split sum.split prod.split)
  show ?thesis
  proof (intro conjI allI impI)
    assume "map_of (orders b) oid = None"
    then have "exchange_cancel_order i oid ex = Some (Inr (ex, NOT_FOUND))"
      using route_ok [OF assms(1,5)] update_same [OF assms(5)]
      by (simp add: exchange_cancel_order_def cancel_order_def finish_task_def)
    then show "cancel_order_handler req ex = Some (Inr (ex, \<lparr>status = NOT_FOUND_STATUS, reply_body = B_empty\<rparr>))"
      by (simp add: h ok_reply_def)
  next
    fix q assume "map_of (orders b) oid = Some q"
    from cancel_listed [OF B this] obtain b' where "cancel_order oid b = Some (Inl (Erased_entry, b'))" by blast
    then have "exchange_cancel_order i oid ex = Some (Inl Erased_entry)"
      using route_ok [OF assms(1,5)] by (simp add: exchange_cancel_order_def finish_task_def)
    then show "cancel_order_handler req ex = Some (Inl Erased_entry)" by (simp add: h)
  qed
qed

section \<open>The snapshot of a book\<close>

text \<open>
  C29. A request for the snapshot of an instrument whose book has bids and asks is answered OK, also when
  the exchange is closed, with the price and active volume of every limit in the order of its side, in the
  body and in the JSON object a client reads, the lowest ask, as the best bid the lowest bid, and the market price; a request without instrument is answered with
  400, one for an unknown instrument with 404. The exchange is never changed.
\<close>

theorem snapshot_request:
  assumes "map_of (path_params req) INSTRUMENT_KEY = Some i" "map_of (instruments ex) i = Some b"
    "book_ok b bl al" "bl \<noteq> []" "al \<noteq> []"
  shows "\<exists>s. snapshot_handler req ex = Some (Inr (ex, \<lparr>status = OK, reply_body = B_snapshot s\<rparr>)) \<and>
    json_bids s = map (\<lambda>lv. (limit_price (limit_at b (fst lv)), to_f32 (volume_at b (fst lv)))) bl \<and>
    json_asks s = map (\<lambda>lv. (limit_price (limit_at b (fst lv)), to_f32 (volume_at b (fst lv)))) al \<and>
    sj_best_ask_price (json_spread s) = limit_price (limit_at b (fst (hd al))) \<and>
    sj_best_bid_price (json_spread s) = limit_price (limit_at b (fst (last bl))) \<and>
    sj_market_price (json_spread s) = market_price b \<and>
    (\<exists>d. reply_object (B_snapshot s) = Some d \<and>
      read_levels d ''bids'' = Some (map (\<lambda>lv. (Some (limit_price (limit_at b (fst lv))), Some (to_f32 (volume_at b (fst lv))))) bl) \<and>
      read_levels d ''asks'' = Some (map (\<lambda>lv. (Some (limit_price (limit_at b (fst lv))), Some (to_f32 (volume_at b (fst lv))))) al)) \<and>
    (\<forall>req'. map_of (path_params req') INSTRUMENT_KEY = None \<longrightarrow> snapshot_handler req' ex =
      Some (Inr (ex, \<lparr>status = BAD_REQUEST, reply_body = B_message ''invalid instrument parameter''\<rparr>))) \<and>
    (\<forall>req' j. map_of (path_params req') INSTRUMENT_KEY = Some j \<longrightarrow> map_of (instruments ex) j = None \<longrightarrow>
      snapshot_handler req' ex =
        Some (Inr (ex, \<lparr>status = NOT_FOUND_STATUS, reply_body = B_message (''instrument '' @ j @ '' doesn't exist'')\<rparr>)))"
proof -
  note defs = snapshot_handler_def info_validate_instrument_parameter_def info_validate_parameter_def get_path_param_def
    instrument_exists_def get_orderbook_snapshot_def ok_reply_def
  obtain s where s: "get_snapshot b = Some s"
    "s = \<lparr>asks = map (\<lambda>lv. \<lparr>snap_price = limit_price (limit_at b (fst lv)), snap_qty = to_f32 (volume_at b (fst lv))\<rparr>) al,
     bids = map (\<lambda>lv. \<lparr>snap_price = limit_price (limit_at b (fst lv)), snap_qty = to_f32 (volume_at b (fst lv))\<rparr>) bl,
     spread = \<lparr>best_bid_price = limit_price (limit_at b (fst (last bl))),
       best_ask_price = limit_price (limit_at b (fst (hd al))), spread_market_price = market_price b\<rparr>\<rparr>"
    using snapshot_book [OF assms(3-5)] by blast
  have "snapshot_handler req ex = Some (Inr (ex, \<lparr>status = OK, reply_body = B_snapshot (SeastarSnapshotJson s)\<rparr>))"
    using assms(1,2) s(1) by (simp add: defs)
  then show ?thesis
    by (intro exI [of _ "SeastarSnapshotJson s"])
       (simp add: s(2) SeastarSnapshotJson_def SeastarLimitJson_def SeastarSpreadJson_def defs comp_def snapshot_document)
qed

theorem snapshot_request_witness:
  "\<exists>ex bl (al :: side_shape) s. bl \<noteq> [] \<and> al \<noteq> [] \<and>
    snapshot_handler (sample_request [(''instrument'', ''X'')] ''BUY'') ex =
      Some (Inr (ex, \<lparr>status = OK, reply_body = B_snapshot s\<rparr>)) \<and> length (json_bids s) = length (bl :: side_shape)"
proof -
  obtain b bl al where b: "book_ok b bl al" "bl \<noteq> []" "al \<noteq> []" using sample_two_sides by blast
  let ?req = "sample_request [(''instrument'', ''X'')] ''BUY''"
  obtain ex where "exchange_ok ex" using sample_run_exchange by blast
  let ?ex = "ex\<lparr>instruments := [(''X'', b)]\<rparr>"
  have "map_of (path_params ?req) INSTRUMENT_KEY = Some ''X''" "map_of (instruments ?ex) ''X'' = Some b"
    by (simp_all add: sample_request_def INSTRUMENT_KEY_def)
  from snapshot_request [OF this b] b(2,3) show ?thesis
    by (elim exE conjE) (intro exI conjI, assumption+, simp)
qed

end
