(* ===== verification/RBTree_Walk.thy ===== *)
theory RBTree_Walk
  imports RBTree_Delete "HOL-Library.Multiset"
begin

text \<open>
  Walking a tree: the iterators in both directions with their operators, and the print functions as
  the three traversals of the represented tree.
\<close>

section \<open>Traversals\<close>

fun preorder_keys :: "'a shape \<Rightarrow> 'a list" where
  "preorder_keys Tip = []"
| "preorder_keys (Br c l a k r) = k # preorder_keys l @ preorder_keys r"

fun postorder_keys :: "'a shape \<Rightarrow> 'a list" where
  "postorder_keys Tip = []"
| "postorder_keys (Br c l a k r) = postorder_keys l @ postorder_keys r @ [k]"

lemma print_from_rep:
  assumes "repr (nodes t) (nil t) p s" "nil t \<notin> set (addrs s)"
  shows "pre_order_print_from t (topaddr (nil t) s) = Some (preorder_keys s)"
    "in_order_print_from t (topaddr (nil t) s) = Some (map snd (entries s))"
    "post_order_print_from t (topaddr (nil t) s) = Some (postorder_keys s)"
  using assms
proof (induction s arbitrary: p)
  case Tip
  { case 1 show ?case by (subst pre_order_print_from.simps) simp }
  { case 2 show ?case by (subst in_order_print_from.simps) simp }
  { case 3 show ?case by (subst post_order_print_from.simps) simp }
next
  case (Br c l a k r)
  { case 1
    then show ?case using Br.IH(1) [of a] Br.IH(4) [of a] by (subst pre_order_print_from.simps) (simp add: reads) }
  { case 2
    then show ?case using Br.IH(2) [of a] Br.IH(5) [of a] by (subst in_order_print_from.simps) (simp add: reads) }
  { case 3
    then show ?case using Br.IH(3) [of a] Br.IH(6) [of a] by (subst post_order_print_from.simps) (simp add: reads) }
qed

lemma preorder_mset: "mset (preorder_keys s) = mset (map snd (entries s))"
  by (induction s) simp_all

lemma postorder_mset: "mset (postorder_keys s) = mset (map snd (entries s))"
  by (induction s) simp_all

lemma prints_rep:
  assumes "rep t s"
  shows "pre_order_print t = Some (preorder_keys s)" "in_order_print t = Some (map snd (entries s))"
    "post_order_print t = Some (postorder_keys s)"
  using print_from_rep [of t "nil t" s] assms
  by (simp_all add: rep_def pre_order_print_def in_order_print_def post_order_print_def)

text \<open>
  The print functions return; the in-order one writes the sorted keys, the other two write the same
  keys in another order.
\<close>

lemma prints_index:
  assumes "is_index lt t xs"
  shows "in_order_print t = Some (map snd xs) \<and>
    (\<exists>ps. pre_order_print t = Some ps \<and> mset ps = mset (map snd xs)) \<and>
    (\<exists>ps. post_order_print t = Some ps \<and> mset ps = mset (map snd xs))"
  using assms prints_rep preorder_mset postorder_mset by (fastforce simp: is_index_def rb_inv_def)

section \<open>Iterators\<close>

definition it_at :: "'a rbtree \<Rightarrow> (nat \<times> 'a) list \<Rightarrow> nat \<Rightarrow> nat" where
  "it_at t xs i = (if i < length xs then fst (xs ! i) else nil t)"

lemma it_at_next: "i < length xs \<Longrightarrow> it_of (nil t) (drop (Suc i) xs) = it_at t xs (Suc i)"
  by (cases "Suc i < length xs") (simp_all add: it_at_def Cons_nth_drop_Suc [symmetric])

lemma it_at_prev: "i < length xs \<Longrightarrow> it_of (nil t) (rev (take i xs)) = (if i = 0 then nil t else it_at t xs (i - 1))"
  by (cases i) (simp_all add: it_at_def take_Suc_conv_app_nth)

lemma it_at_reads:
  assumes I: "is_index lt t xs" and i: "i < length xs"
  shows "it_deref t (it_at t xs i) = Some (snd (xs ! i))" "valid_it t (it_at t xs i)"
    "successor t (it_at t xs i) = Some (it_at t xs (Suc i))"
    "predecessor t (it_at t xs i) = Some (if i = 0 then nil t else it_at t xs (i - 1))"
proof -
  have "xs = take i xs @ (fst (xs ! i), snd (xs ! i)) # drop (Suc i) xs" using i by (simp add: id_take_nth_drop)
  with I have I': "is_index lt t (take i xs @ (fst (xs ! i), snd (xs ! i)) # drop (Suc i) xs)" by simp
  note r = index_reads [OF I']
  show "it_deref t (it_at t xs i) = Some (snd (xs ! i))" "valid_it t (it_at t xs i)"
    using r i by (simp_all add: it_deref_def it_at_def valid_it_def)
  show "successor t (it_at t xs i) = Some (it_at t xs (Suc i))" using r(3) i it_at_next [OF i] by (simp add: it_at_def)
  show "predecessor t (it_at t xs i) = Some (if i = 0 then nil t else it_at t xs (i - 1))"
    using r(4) i it_at_prev [OF i] by (simp add: it_at_def)
qed

text \<open>
  C26. Iterators walk the tree in both directions: on a tree with the entries \<open>xs\<close>, the iterator of the i-th
  entry yields its key; \<^verbatim>\<open>++\<close> of a forward and \<^verbatim>\<open>--\<close> of a reverse iterator return it and move to the
  next entry, \<^verbatim>\<open>--\<close> of a forward and \<^verbatim>\<open>++\<close> of a reverse iterator to the entry before, and past either
  end to the invalid iterator. \<^verbatim>\<open>begin\<close> is the first entry, \<^verbatim>\<open>rbegin\<close> of a tree that is not empty
  the last, and iterators are equal exactly if they are at the same entry.
\<close>

theorem iterator_walk:
  assumes "is_index lt t xs"
  shows "begin_it t = it_at t xs 0 \<and> (xs \<noteq> [] \<longrightarrow> rbegin_it t = it_at t xs (length xs - 1)) \<and>
    \<not> valid_it t (it_at t xs (length xs)) \<and>
    (\<forall>i < length xs. it_deref t (it_at t xs i) = Some (snd (xs ! i)) \<and> valid_it t (it_at t xs i) \<and>
      forward_post_inc t (it_at t xs i) = Some (it_at t xs i, it_at t xs (Suc i)) \<and>
      reverse_post_dec t (it_at t xs i) = Some (it_at t xs i, it_at t xs (Suc i)) \<and>
      forward_post_dec t (it_at t xs i) = Some (it_at t xs i, if i = 0 then nil t else it_at t xs (i - 1)) \<and>
      reverse_post_inc t (it_at t xs i) = Some (it_at t xs i, if i = 0 then nil t else it_at t xs (i - 1)) \<and>
      (\<forall>j \<le> length xs. it_equal (it_at t xs i) (it_at t xs j) \<longleftrightarrow> i = j))"
proof (intro conjI allI impI)
  show "begin_it t = it_at t xs 0" using index_begin [OF assms] by (cases xs) (simp_all add: it_at_def)
  show "rbegin_it t = it_at t xs (length xs - 1)" if "xs \<noteq> []"
    using index_rbegin [OF assms that] that by (cases xs rule: rev_cases) (simp_all add: it_at_def nth_append)
  show "\<not> valid_it t (it_at t xs (length xs))" by (simp add: it_at_def valid_it_def)
next
  fix i j assume i: "i < length xs" and j: "j \<le> length xs"
  have "it_at t xs i \<noteq> nil t" using it_at_reads(2) [OF assms i] by (simp add: valid_it_def)
  then show "it_equal (it_at t xs i) (it_at t xs j) \<longleftrightarrow> i = j"
    using i j is_index_distinct [OF assms] nth_eq_iff_index_eq [of "map fst xs" i j]
    by (cases "j < length xs") (auto simp: it_at_def it_equal_def)
qed (simp_all add: it_at_reads [OF assms] forward_post_inc_def forward_inc_def reverse_post_dec_def reverse_dec_def
    forward_post_dec_def forward_dec_def reverse_post_inc_def reverse_inc_def)

theorem iterator_walk_witness:
  "\<exists>t. rb_insert (<) (new_rbtree (0::int)) 5 = Some t \<and> it_deref t (begin_it t) = Some 5 \<and>
    forward_post_inc t (begin_it t) = Some (begin_it t, nil t)"
proof -
  obtain t where t: "rb_insert (<) (new_rbtree (0::int)) 5 = Some t" "is_index (<) t [(2, 5)]"
    using comparator.rb_insert_index [OF less_comparator new_rbtree_index, of "0::int" 5] by (auto simp: new_rbtree_def)
  from iterator_walk [OF t(2)] t(1) show ?thesis by (auto simp: it_at_def)
qed

end
