(* ===== verification/Lifecycle.thy ===== *)
theory Lifecycle
  imports Repository
begin

text \<open>
  Opening and closing the repositories (\<^verbatim>\<open>src/repository\<close>): the constructor of \<^verbatim>\<open>OrderRepository\<close> over a file
  system and a database given as parameters, the destructors of both repositories running
  beside the thread that writes messages, and the destructor of the exchange.
\<close>

section \<open>Opening the order repository\<close>

text \<open>
  The parameters: the file system and RocksDB, each call with the state of the outside world. An
  open call yields the handle of the database or, when its status is not ok, nothing; the call
  with column families also fills the vector of column handles.
\<close>

record ('w, 'd, 'h) storage_ops =
  path_exists :: "'w \<Rightarrow> string \<Rightarrow> bool"
  create_directory :: "'w \<Rightarrow> string \<Rightarrow> 'w \<times> bool"
  open_db :: "'w \<Rightarrow> string \<Rightarrow> 'w \<times> 'd option"
  create_family :: "'w \<Rightarrow> 'd \<Rightarrow> string \<Rightarrow> 'w \<times> 'h option"
  open_db_families :: "'w \<Rightarrow> string \<Rightarrow> string list \<Rightarrow> 'w \<times> 'd option \<times> 'h list"

record ('d, 'h) order_store =
  db :: "'d option"
  order_handler :: 'h
  default_handler :: "'h option"

definition OrderColumnFamily :: string where
  "OrderColumnFamily = ''order''"

definition DefaultColumnFamily :: string where
  "DefaultColumnFamily = ''default''"

text \<open>
  The result \<open>None\<close> stands for reading \<^verbatim>\<open>column_handles\<close> outside of the vector. The status of the second
  open call is not looked at.
\<close>

definition open_order_repository ::
    "('w, 'd, 'h) storage_ops \<Rightarrow> string \<Rightarrow> 'w \<Rightarrow> ('w \<times> (exn + ('d, 'h) order_store)) option" where
  "open_order_repository ops db_path w =
     (if \<not> path_exists ops w db_path then
        (let (w, ok) = create_directory ops w db_path in
         if \<not> ok then Some (w, Inl (Runtime_error (''Couldn't create directory with path: '' @ db_path)))
         else
           (case open_db ops w db_path of
              (w, None) \<Rightarrow> Some (w, Inl (Runtime_error ''Couldn't open connection with order repository database''))
            | (w, Some d) \<Rightarrow>
                (case create_family ops w d OrderColumnFamily of
                   (w, None) \<Rightarrow>
                     Some (w, Inl (Runtime_error ''Couldn't create column family handle with order repository database''))
                 | (w, Some h) \<Rightarrow> Some (w, Inr \<lparr>db = Some d, order_handler = h, default_handler = None\<rparr>))))
      else
        (let (w, d, column_handles) = open_db_families ops w db_path [OrderColumnFamily, DefaultColumnFamily] in
         if length column_handles < 2 then None
         else Some (w, Inr \<lparr>db = d, order_handler = column_handles ! 0, default_handler = Some (column_handles ! 1)\<rparr>)))"

section \<open>Closing a repository\<close>

text \<open>
  A destructor is the sequence of its actions. \<open>Join\<close> waits until the thread has ended; \<open>Free\<close> releases an
  object that the thread uses to save a message.
\<close>

datatype shutdown_action = Request_stop | Join | Free string

definition order_destructor :: "bool \<Rightarrow> shutdown_action list" where
  "order_destructor default_open =
     [Request_stop, Join, Free ''order_handler''] @ (if default_open then [Free ''default_handler''] else []) @ [Free ''db'']"

definition trade_destructor :: "shutdown_action list" where
  "trade_destructor =
     [Free ''prepared_insert_query'', Free ''prepared_select_by_primary_key_query'', Free ''cluster'', Free ''session'',
      Request_stop, Join]"

text \<open>The objects that \<^verbatim>\<open>save\<close> and \<^verbatim>\<open>remove\<close> use (order_repository.cpp, lines 77 to 96, trade_repository.cpp, lines 55 to 75).\<close>

definition order_uses :: "string list" where
  "order_uses = [''db'', ''order_handler'']"

definition trade_uses :: "string list" where
  "trade_uses = [''prepared_insert_query'', ''session'']"

text \<open>
  The thread: it checks the stop token, takes a message if there is one, and saves it. \<open>uses\<close> are the
  objects that saving needs; \<open>dangling\<close> records that a freed one was used.
\<close>

datatype saver = S_check | S_pop | S_save | S_done

record shutdown =
  todo :: "shutdown_action list"
  stop_flag :: bool
  freed :: "string list"
  saver_at :: saver
  dangling :: bool

definition shutdown_init :: "shutdown_action list \<Rightarrow> shutdown" where
  "shutdown_init acts = \<lparr>todo = acts, stop_flag = False, freed = [], saver_at = S_check, dangling = False\<rparr>"

inductive shutdown_step :: "string list \<Rightarrow> shutdown \<Rightarrow> shutdown \<Rightarrow> bool" for uses where
  request: "todo s = Request_stop # acts \<Longrightarrow> shutdown_step uses s (s\<lparr>todo := acts, stop_flag := True\<rparr>)"
| joined: "todo s = Join # acts \<Longrightarrow> saver_at s = S_done \<Longrightarrow> shutdown_step uses s (s\<lparr>todo := acts\<rparr>)"
| free: "todo s = Free x # acts \<Longrightarrow> shutdown_step uses s (s\<lparr>todo := acts, freed := x # freed s\<rparr>)"
| check: "saver_at s = S_check \<Longrightarrow> shutdown_step uses s (s\<lparr>saver_at := if stop_flag s then S_done else S_pop\<rparr>)"
| pop_empty: "saver_at s = S_pop \<Longrightarrow> shutdown_step uses s (s\<lparr>saver_at := S_check\<rparr>)"
| pop_message: "saver_at s = S_pop \<Longrightarrow> shutdown_step uses s (s\<lparr>saver_at := S_save\<rparr>)"
| save: "saver_at s = S_save \<Longrightarrow>
    shutdown_step uses s (s\<lparr>saver_at := S_check, dangling := dangling s \<or> (\<exists>x \<in> set uses. x \<in> set (freed s))\<rparr>)"

inductive_cases shutdown_stepE: "shutdown_step uses s s'"

inductive shutdown_run :: "string list \<Rightarrow> shutdown_action list \<Rightarrow> shutdown \<Rightarrow> bool" for uses acts where
  start: "shutdown_run uses acts (shutdown_init acts)"
| step: "shutdown_run uses acts s \<Longrightarrow> shutdown_step uses s s' \<Longrightarrow> shutdown_run uses acts s'"

text \<open>A destructor that joins the thread before it frees anything is safe.\<close>

definition no_frees :: "shutdown_action list \<Rightarrow> bool" where
  "no_frees acts \<longleftrightarrow> (\<forall>x. Free x \<notin> set acts)"

lemma shutdown_inv:
  assumes run: "shutdown_run uses acts s" and acts: "acts = pre @ Join # post" "no_frees pre"
  shows "\<not> dangling s \<and>
    (saver_at s = S_done \<or> freed s = [] \<and> (\<exists>pre'. todo s = pre' @ Join # post \<and> no_frees pre'))"
  using run
proof induction
  case start
  then show ?case using acts by (auto simp: shutdown_init_def)
next
  case (step s s')
  from step.hyps(2) show ?case
  proof (cases rule: shutdown_step.cases)
    case (request as)
    with step.IH show ?thesis by (cases "saver_at s = S_done") (auto simp: Cons_eq_append_conv no_frees_def)
  next
    case (free x as)
    with step.IH show ?thesis by (cases "saver_at s = S_done") (auto simp: Cons_eq_append_conv no_frees_def)
  qed (use step.IH in auto)
qed

lemma order_shutdown_safe:
  assumes "shutdown_run uses (order_destructor d) s"
  shows "\<not> dangling s"
  using shutdown_inv [OF assms, of "[Request_stop]"] by (simp add: order_destructor_def no_frees_def)

text \<open>The thread of the other repository may be about to save when the destructor starts.\<close>

lemma trade_shutdown_dangling:
  "\<exists>s. shutdown_run trade_uses trade_destructor s \<and> dangling s \<and> saver_at s = S_check \<and> \<not> stop_flag s"
proof -
  let ?r = "shutdown_run trade_uses trade_destructor" let ?i = "shutdown_init trade_destructor"
  have "?r (?i\<lparr>saver_at := S_pop\<rparr>)"
    using shutdown_run.step [OF shutdown_run.start shutdown_step.check [of ?i]] by (simp add: shutdown_init_def)
  from shutdown_run.step [OF this shutdown_step.pop_message] have "?r (?i\<lparr>saver_at := S_save\<rparr>)" by simp
  from shutdown_run.step [OF this shutdown_step.free]
  have "?r (?i\<lparr>saver_at := S_save, todo := tl trade_destructor, freed := [''prepared_insert_query'']\<rparr>)"
    by (simp add: shutdown_init_def trade_destructor_def)
  from shutdown_run.step [OF this shutdown_step.save]
  have "?r (?i\<lparr>saver_at := S_check, todo := tl trade_destructor, freed := [''prepared_insert_query''], dangling := True\<rparr>)"
    by (simp add: shutdown_init_def trade_uses_def)
  then show ?thesis by (intro exI conjI, assumption) (simp_all add: shutdown_init_def)
qed

section \<open>Closing the exchange\<close>

text \<open>
  The destructor of the exchange joins the thread of the working hours, if there is one. That thread checks the
  stop token only between two sleeps; \<open>time_now\<close> is the clock, and a sleep ends at the time it was given.
\<close>

definition exchange_destructor :: "bool \<Rightarrow> shutdown_action list" where
  "exchange_destructor joinable = (if joinable then [Request_stop, Join] else [])"

datatype sleeper = W_check | W_sleep nat | W_done

record closing =
  closing_todo :: "shutdown_action list"
  closing_flag :: bool
  sleeper_at :: sleeper
  time_now :: nat

inductive closing_step :: "closing \<Rightarrow> closing \<Rightarrow> bool" where
  request: "closing_todo s = Request_stop # acts \<Longrightarrow> closing_step s (s\<lparr>closing_todo := acts, closing_flag := True\<rparr>)"
| joined: "closing_todo s = Join # acts \<Longrightarrow> sleeper_at s = W_done \<Longrightarrow> closing_step s (s\<lparr>closing_todo := acts\<rparr>)"
| tick: "closing_step s (s\<lparr>time_now := Suc (time_now s)\<rparr>)"
| check: "sleeper_at s = W_check \<Longrightarrow> closing_step s (s\<lparr>sleeper_at := if closing_flag s then W_done else W_sleep t\<rparr>)"
| wake: "sleeper_at s = W_sleep t \<Longrightarrow> t \<le> time_now s \<Longrightarrow> closing_step s (s\<lparr>sleeper_at := W_check\<rparr>)"

inductive closing_run :: "closing \<Rightarrow> closing \<Rightarrow> bool" for s0 where
  start: "closing_run s0 s0"
| step: "closing_run s0 s \<Longrightarrow> closing_step s s' \<Longrightarrow> closing_run s0 s'"

definition closing_init :: "nat \<Rightarrow> nat \<Rightarrow> closing" where
  "closing_init now t = \<lparr>closing_todo = exchange_destructor True, closing_flag = False, sleeper_at = W_sleep t, time_now = now\<rparr>"

text \<open>Until the sleep is over the thread sleeps and the join waits.\<close>

lemma closing_waits:
  "closing_run (closing_init now t) s \<Longrightarrow> t \<le> time_now s \<or> sleeper_at s = W_sleep t \<and> Join \<in> set (closing_todo s)"
proof (induction rule: closing_run.induct)
  case start
  then show ?case by (simp add: closing_init_def exchange_destructor_def)
next
  case (step s s')
  from step.hyps(2) step.IH show ?case by cases auto
qed

lemma closing_run_trans: "closing_run s1 s2 \<Longrightarrow> closing_run s0 s1 \<Longrightarrow> closing_run s0 s2"
  by (induction rule: closing_run.induct) (auto intro: closing_run.intros)

lemma clock_runs: "closing_run s (s\<lparr>time_now := time_now s + n\<rparr>)"
proof (induction n)
  case (Suc n)
  from closing_run.step [OF this closing_step.tick] show ?case by simp
qed (simp add: closing_run.start)

text \<open>Afterwards it can end, and the destructor returns.\<close>

lemma closing_ends:
  assumes "now \<le> t"
  shows "\<exists>s. closing_run (closing_init now t) s \<and> closing_todo s = [] \<and> time_now s = t"
proof -
  let ?i = "closing_init now t"
  let ?a = "?i\<lparr>closing_todo := [Join], closing_flag := True\<rparr>"
  have "closing_run ?i ?a"
    using closing_run.step [OF closing_run.start closing_step.request [of ?i "[Join]"]]
    by (simp add: closing_init_def exchange_destructor_def)
  from closing_run_trans [OF clock_runs [of ?a "t - now"] this] assms
  have "closing_run ?i (?a\<lparr>time_now := t\<rparr>)" by (simp add: closing_init_def)
  from closing_run.step [OF this closing_step.wake [of _ t]]
  have "closing_run ?i (?a\<lparr>time_now := t, sleeper_at := W_check\<rparr>)" by (simp add: closing_init_def)
  from closing_run.step [OF this closing_step.check]
  have "closing_run ?i (?a\<lparr>time_now := t, sleeper_at := W_done\<rparr>)" by simp
  from closing_run.step [OF this closing_step.joined [of _ "[]"]]
  have "closing_run ?i (?a\<lparr>time_now := t, sleeper_at := W_done, closing_todo := []\<rparr>)" by simp
  then show ?thesis by (intro exI conjI, assumption) simp_all
qed

section \<open>Properties\<close>

text \<open>
  The constructor: on a new directory it fails with one of three exceptions or has the column family of the
  orders and no default handle. On an existing one it throws nothing, and when the database could
  not be opened with both families it reads outside of the vector of handles.
\<close>

lemma order_repository_opens:
  "open_order_repository ops p w = None \<longleftrightarrow>
     path_exists ops w p \<and> length (snd (snd (open_db_families ops w p [OrderColumnFamily, DefaultColumnFamily]))) < 2"
  "\<lbrakk>open_order_repository ops p w = Some (w', Inl e)\<rbrakk> \<Longrightarrow> \<not> path_exists ops w p \<and>
     e \<in> {Runtime_error (''Couldn't create directory with path: '' @ p),
       Runtime_error ''Couldn't open connection with order repository database'',
       Runtime_error ''Couldn't create column family handle with order repository database''}"
  "open_order_repository ops p w = Some (w', Inr st) \<Longrightarrow> default_handler st = None \<longleftrightarrow> \<not> path_exists ops w p"
  by (auto simp: open_order_repository_def Let_def split: if_splits prod.splits option.splits)

text \<open>
  C27. Shutting down: in every interleaving of the destructor of the order repository with its thread, the
  thread never uses an object that the destructor has released, because the destructor joins it
  first. The destructor of the trade repository releases the session and the prepared statements
  before it asks the thread to stop, and there is an interleaving in which the thread saves a trade
  with a released statement. The destructor of the exchange returns, but never before the time until which the
  thread of the working hours sleeps.
\<close>

theorem repository_shutdown:
  "(\<forall>d s. shutdown_run order_uses (order_destructor d) s \<longrightarrow> \<not> dangling s) \<and>
   (\<exists>s. shutdown_run trade_uses trade_destructor s \<and> dangling s) \<and>
   (\<forall>now t. now \<le> t \<longrightarrow> (\<exists>s. closing_run (closing_init now t) s \<and> closing_todo s = []) \<and>
     (\<forall>s. closing_run (closing_init now t) s \<and> closing_todo s = [] \<longrightarrow> t \<le> time_now s))"
proof (intro conjI allI impI)
  fix now t s
  assume "closing_run (closing_init now t) s \<and> closing_todo s = []"
  then show "t \<le> time_now s" using closing_waits [of now t s] by auto
qed (use order_shutdown_safe trade_shutdown_dangling closing_ends in blast)+

theorem repository_shutdown_witness:
  "shutdown_run order_uses (order_destructor False) (shutdown_init (order_destructor False)) \<and>
   \<not> dangling (shutdown_init (order_destructor False)) \<and>
   (\<exists>s. closing_run (closing_init 3 9) s \<and> closing_todo s = [] \<and> 9 \<le> time_now s)"
proof -
  have "shutdown_run order_uses (order_destructor False) (shutdown_init (order_destructor False))" by (rule shutdown_run.start)
  moreover have "(3::nat) \<le> 9" by simp
  ultimately show ?thesis using repository_shutdown by blast
qed

end
