(* ===== verification/WebSocketClient.thy ===== *)
theory WebSocketClient
  imports Prelude
begin

text \<open>
  The WebSocket client (\<^verbatim>\<open>src/server/websocket/websocket_client.cpp\<close>) as a state machine: at any time at most
  one asynchronous operation of the networking library is pending, and its completion runs the
  handler that was bound to it, which starts the next one. The library is a parameter: a completion
  carries its error code, the number of bytes and what was received.
\<close>

section \<open>The client\<close>

datatype operation = Op_resolve | Op_connect | Op_ssl_handshake | Op_handshake | Op_write string | Op_read

text \<open>\<open>expires\<close> is the timeout of the lowest layer in seconds, \<open>errors\<close> is what the client writes to \<^verbatim>\<open>std::cerr\<close>.\<close>

record client =
  host :: string
  port :: string
  subscribe_message :: string
  buffer :: string
  expires :: "nat option"
  pending :: "operation option"
  errors :: "string list"

definition new_client :: "string \<Rightarrow> string \<Rightarrow> string \<Rightarrow> client" where
  "new_client h p msg = \<lparr>host = h, port = p, subscribe_message = msg, buffer = [], expires = None, pending = None, errors = []\<rparr>"

definition run :: "client \<Rightarrow> client" where
  "run c = c\<lparr>pending := Some Op_resolve\<rparr>"

text \<open>An error code is the message it carries, nothing when there was no error.\<close>

definition on_fail :: "string \<Rightarrow> string \<Rightarrow> client \<Rightarrow> client" where
  "on_fail ec failed_operation c = c\<lparr>errors := errors c @ [failed_operation @ '': '' @ ec]\<rparr>"

definition on_resolve :: "string option \<Rightarrow> client \<Rightarrow> client" where
  "on_resolve ec c =
     (case ec of
        Some e \<Rightarrow> on_fail e ''resolve'' c
      | None \<Rightarrow> c\<lparr>expires := Some 30, pending := Some Op_connect\<rparr>)"

text \<open>\<open>sni\<close> is the result of \<^verbatim>\<open>SSL_set_tlsext_host_name\<close>.\<close>

definition on_connect :: "string option \<Rightarrow> bool \<Rightarrow> client \<Rightarrow> client" where
  "on_connect ec sni c =
     (case ec of
        Some e \<Rightarrow> on_fail e ''connect'' c
      | None \<Rightarrow>
          (let c = c\<lparr>expires := Some 30\<rparr> in
           if \<not> sni then c\<lparr>errors := errors c @ [''SSL_set_tlsext_host_name: error '']\<rparr>
           else c\<lparr>pending := Some Op_ssl_handshake\<rparr>))"

definition on_ssl_handshake :: "string option \<Rightarrow> client \<Rightarrow> client" where
  "on_ssl_handshake ec c =
     (case ec of
        Some e \<Rightarrow> on_fail e ''ssl_handshake'' c
      | None \<Rightarrow> c\<lparr>expires := None, pending := Some Op_handshake\<rparr>)"

definition on_handshake :: "string option \<Rightarrow> client \<Rightarrow> client" where
  "on_handshake ec c =
     (case ec of
        Some e \<Rightarrow> on_fail e ''handshake'' c
      | None \<Rightarrow> c\<lparr>pending := Some (Op_write (subscribe_message c))\<rparr>)"

definition on_write :: "string option \<Rightarrow> client \<Rightarrow> client" where
  "on_write ec c =
     (case ec of
        Some e \<Rightarrow> on_fail e ''write'' c
      | None \<Rightarrow> c\<lparr>pending := Some Op_read\<rparr>)"

definition on_read :: "string option \<Rightarrow> nat \<Rightarrow> client \<Rightarrow> client" where
  "on_read ec bytes_transferred c =
     (case ec of
        Some e \<Rightarrow> on_fail e ''read'' c
      | None \<Rightarrow> c\<lparr>buffer := drop bytes_transferred (buffer c), pending := Some Op_read\<rparr>)"

text \<open>Bound to no operation; the result is what it prints.\<close>

definition on_close :: "string option \<Rightarrow> client \<Rightarrow> client \<times> string option" where
  "on_close ec c =
     (case ec of
        Some e \<Rightarrow> (on_fail e ''close'' c, None)
      | None \<Rightarrow> (c, Some (buffer c)))"

section \<open>Completions\<close>

text \<open>
  A completion of the pending operation: the library appends what it received to the buffer of a read,
  also when the read ends with an error, and runs the handler.
\<close>

record completion =
  code :: "string option"
  sni_ok :: bool
  received :: string

definition complete :: "completion \<Rightarrow> client \<Rightarrow> client" where
  "complete e c =
     (case pending c of
        None \<Rightarrow> c
      | Some p \<Rightarrow>
          (let c = c\<lparr>pending := None\<rparr> in
           case p of
             Op_resolve \<Rightarrow> on_resolve (code e) c
           | Op_connect \<Rightarrow> on_connect (code e) (sni_ok e) c
           | Op_ssl_handshake \<Rightarrow> on_ssl_handshake (code e) c
           | Op_handshake \<Rightarrow> on_handshake (code e) c
           | Op_write m \<Rightarrow> on_write (code e) c
           | Op_read \<Rightarrow> on_read (code e) (length (received e)) (c\<lparr>buffer := buffer c @ received e\<rparr>)))"

definition after_all :: "completion list \<Rightarrow> client \<Rightarrow> client" where
  "after_all es c = fold complete es c"

lemmas handler_defs = on_resolve_def on_connect_def on_ssl_handshake_def on_handshake_def on_write_def on_read_def
  on_fail_def complete_def

section \<open>The protocol\<close>

text \<open>The operation that follows, the operation after a number of successes, and when a completion is a failure.\<close>

fun next_op :: "string \<Rightarrow> operation \<Rightarrow> operation" where
  "next_op msg Op_resolve = Op_connect"
| "next_op msg Op_connect = Op_ssl_handshake"
| "next_op msg Op_ssl_handshake = Op_handshake"
| "next_op msg Op_handshake = Op_write msg"
| "next_op msg (Op_write m) = Op_read"
| "next_op msg Op_read = Op_read"

definition protocol :: "string \<Rightarrow> nat \<Rightarrow> operation" where
  "protocol msg n = ([Op_resolve, Op_connect, Op_ssl_handshake, Op_handshake, Op_write msg] @ replicate n Op_read) ! n"

definition fails :: "operation \<Rightarrow> completion \<Rightarrow> bool" where
  "fails p e \<longleftrightarrow> code e \<noteq> None \<or> p = Op_connect \<and> \<not> sni_ok e"

definition deadline :: "operation \<Rightarrow> nat option" where
  "deadline p = (if p = Op_connect \<or> p = Op_ssl_handshake then Some 30 else None)"

lemma protocol_simps: "protocol msg 0 = Op_resolve" "protocol msg (Suc n) = next_op msg (protocol msg n)"
proof -
  show "protocol msg 0 = Op_resolve" by (simp add: protocol_def)
  have read: "protocol msg (n + 5) = Op_read" for n by (simp add: protocol_def nth_append)
  show "protocol msg (Suc n) = next_op msg (protocol msg n)"
  proof (cases "n < 5")
    case True
    then consider "n = 0" | "n = 1" | "n = 2" | "n = 3" | "n = 4" by linarith
    then show ?thesis by cases (simp_all add: protocol_def numeral_eq_Suc)
  next
    case False
    then show ?thesis using read [of "n - 5"] read [of "Suc n - 5"] by simp
  qed
qed

definition at_op :: "string \<Rightarrow> operation \<Rightarrow> client \<Rightarrow> bool" where
  "at_op msg p c \<longleftrightarrow> pending c = Some p \<and> subscribe_message c = msg \<and> errors c = [] \<and> buffer c = [] \<and> expires c = deadline p"

lemma complete_good: "at_op msg p c \<Longrightarrow> \<not> fails p e \<Longrightarrow> at_op msg (next_op msg p) (complete e c)"
  by (cases p) (simp_all add: at_op_def handler_defs fails_def deadline_def Let_def)

lemma complete_bad: "at_op msg p c \<Longrightarrow> fails p e \<Longrightarrow>
    pending (complete e c) = None \<and> length (errors (complete e c)) = 1"
  by (cases p) (auto simp: at_op_def handler_defs fails_def Let_def split: option.splits)

lemma after_idle: "pending c = None \<Longrightarrow> after_all es c = c"
  unfolding after_all_def by (induction es arbitrary: c) (simp_all add: complete_def)

lemma after_good:
  "\<forall>i < length es. \<not> fails (protocol msg i) (es ! i) \<Longrightarrow>
   at_op msg (protocol msg (length es)) (after_all es (run (new_client h p msg)))"
proof (induction es rule: rev_induct)
  case Nil
  then show ?case by (simp add: after_all_def run_def new_client_def at_op_def protocol_simps deadline_def)
next
  case (snoc e es)
  have "\<not> fails (protocol msg i) (es ! i)" if "i < length es" for i
    using snoc.prems [rule_format, of i] that by (simp add: nth_append)
  moreover have "\<not> fails (protocol msg (length es)) e" using snoc.prems [rule_format, of "length es"] by simp
  ultimately show ?case using complete_good [OF snoc.IH] by (simp add: after_all_def protocol_simps)
qed

text \<open>
  C28. The client follows one protocol: as long as every operation succeeds, the pending one is the next of
  resolve, connect, TLS handshake, WebSocket handshake, the subscription written once, and reads;
  nothing is reported, no received byte stays in the buffer, and the timeout of the connection is set
  exactly while it connects and does the TLS handshake. At the first failure one line is reported
  and the client stays idle, whatever completes later.
\<close>

theorem client_protocol:
  assumes "\<forall>i < length es. \<not> fails (protocol msg i) (es ! i)"
  shows "pending (after_all es (run (new_client h p msg))) = Some (protocol msg (length es)) \<and>
    errors (after_all es (run (new_client h p msg))) = [] \<and> buffer (after_all es (run (new_client h p msg))) = [] \<and>
    expires (after_all es (run (new_client h p msg))) = (if length es \<in> {1, 2} then Some 30 else None) \<and>
    (\<forall>e ds. fails (protocol msg (length es)) e \<longrightarrow>
      pending (after_all (es @ e # ds) (run (new_client h p msg))) = None \<and>
      length (errors (after_all (es @ e # ds) (run (new_client h p msg)))) = 1)"
proof -
  let ?c = "after_all es (run (new_client h p msg))"
  note at = after_good [OF assms, of h p]
  have dl: "deadline (protocol msg n) = (if n \<in> {1, 2} then Some 30 else None)" for n
  proof (cases "n < 5")
    case True
    then consider "n = 0" | "n = 1" | "n = 2" | "n = 3" | "n = 4" by linarith
    then show ?thesis by cases (simp_all add: protocol_def deadline_def numeral_eq_Suc)
  qed (simp add: protocol_def deadline_def nth_append)
  have "pending (after_all (es @ e # ds) (run (new_client h p msg))) = None \<and>
      length (errors (after_all (es @ e # ds) (run (new_client h p msg)))) = 1"
    if "fails (protocol msg (length es)) e" for e ds
    using complete_bad [OF at that] after_idle [of "complete e ?c" ds] by (simp add: after_all_def)
  with at dl show ?thesis by (simp add: at_op_def)
qed

theorem client_protocol_witness:
  "pending (after_all (replicate 6 \<lparr>code = None, sni_ok = True, received = ''tick''\<rparr>) (run (new_client ''h'' ''443'' ''sub''))) = Some Op_read"
proof -
  let ?es = "replicate 6 \<lparr>code = None, sni_ok = True, received = ''tick''\<rparr> :: completion list"
  have "\<forall>i < length ?es. \<not> fails (protocol ''sub'' i) (?es ! i)" by (simp add: fails_def)
  from client_protocol [OF this] show ?thesis by (simp add: protocol_def)
qed

end
