(* ===== verification/Producers.thy ===== *)
theory Producers
  imports RingBuffer
begin

text \<open>
  Several threads that push into one ring buffer. The order repository has one buffer, and the books
  of all instruments enqueue into it, each on its own worker thread (order_repository.cpp, line 60,
  exchange.cpp, line 95). The buffer is made for one producer: the theory says what several may do.
\<close>

section \<open>Interleaved producers\<close>

text \<open>
  A producer is idle, or in \<^verbatim>\<open>push\<close>: it has loaded the write position, or it has also written the slot. The
  local variable \<^verbatim>\<open>write_pos\<close> is part of its state.
\<close>

datatype 'a pusher = Idle | Loaded nat 'a | Stored nat 'a

record 'a producers =
  shared :: "'a ring"
  pushers :: "nat \<Rightarrow> 'a pusher"
  done_pushes :: "'a list"

definition producers_init :: "'a \<Rightarrow> nat \<Rightarrow> 'a producers" where
  "producers_init d c = \<lparr>shared = new_ring d c, pushers = (\<lambda>i. Idle), done_pushes = []\<rparr>"

definition wrap_pos :: "'a ring \<Rightarrow> nat \<Rightarrow> nat" where
  "wrap_pos r p = (if Suc p = capacity r then 0 else Suc p)"

text \<open>
  One step of one producer. With \<open>turns\<close>, a producer starts only while all others are idle; the code
  has no such lock.
\<close>

inductive push_step :: "bool \<Rightarrow> 'a producers \<Rightarrow> 'a producers \<Rightarrow> bool" for turns where
  load: "pushers s i = Idle \<Longrightarrow> push_try (shared s) = (r, True) \<Longrightarrow> turns \<longrightarrow> (\<forall>j. pushers s j = Idle) \<Longrightarrow>
    push_step turns s (s\<lparr>shared := r, pushers := (pushers s)(i := Loaded (write_pos r) v)\<rparr>)"
| wait: "pushers s i = Idle \<Longrightarrow> push_try (shared s) = (r, False) \<Longrightarrow>
    push_step turns s (s\<lparr>shared := r\<rparr>)"
| write_slot: "pushers s i = Loaded p v \<Longrightarrow> p < length (slots (shared s)) \<Longrightarrow>
    push_step turns s (s\<lparr>shared := (shared s)\<lparr>slots := (slots (shared s))[p := v]\<rparr>, pushers := (pushers s)(i := Stored p v)\<rparr>)"
| store_pos: "pushers s i = Stored p v \<Longrightarrow>
    push_step turns s (s\<lparr>shared := (shared s)\<lparr>write_pos := wrap_pos (shared s) p\<rparr>,
      pushers := (pushers s)(i := Idle), done_pushes := done_pushes s @ [v]\<rparr>)"

inductive push_run :: "bool \<Rightarrow> 'a \<Rightarrow> nat \<Rightarrow> 'a producers \<Rightarrow> bool" for turns d c where
  start: "push_run turns d c (producers_init d c)"
| step: "push_run turns d c s \<Longrightarrow> push_step turns s s' \<Longrightarrow> length (done_pushes s') < c \<Longrightarrow> push_run turns d c s'"

section \<open>Producers that take turns\<close>

text \<open>All are idle, or one is in \<^verbatim>\<open>push\<close> with the current write position.\<close>

definition one_at_a_time :: "'a producers \<Rightarrow> bool" where
  "one_at_a_time s \<longleftrightarrow> (\<forall>i. pushers s i = Idle) \<or>
     (\<exists>i v. (\<forall>j. j \<noteq> i \<longrightarrow> pushers s j = Idle) \<and>
       (pushers s i = Loaded (write_pos (shared s)) v \<or>
        pushers s i = Stored (write_pos (shared s)) v \<and> slots (shared s) ! write_pos (shared s) = v))"

lemma active_alone:
  assumes "one_at_a_time s" "pushers s i \<noteq> Idle"
  shows "(\<forall>j. j \<noteq> i \<longrightarrow> pushers s j = Idle) \<and> (\<exists>v. pushers s i = Loaded (write_pos (shared s)) v \<or>
    pushers s i = Stored (write_pos (shared s)) v \<and> slots (shared s) ! write_pos (shared s) = v)"
proof -
  from assms obtain k v where k: "\<forall>j. j \<noteq> k \<longrightarrow> pushers s j = Idle"
    "pushers s k = Loaded (write_pos (shared s)) v \<or>
     pushers s k = Stored (write_pos (shared s)) v \<and> slots (shared s) ! write_pos (shared s) = v"
    unfolding one_at_a_time_def by blast
  moreover have "k = i" using k(1) assms(2) by metis
  ultimately show ?thesis by blast
qed

definition turns_inv :: "nat \<Rightarrow> 'a producers \<Rightarrow> bool" where
  "turns_inv c s \<longleftrightarrow> ring_inv (shared s) \<and> capacity (shared s) = c \<and> read_pos (shared s) = 0 \<and>
     write_pos_cache (shared s) = 0 \<and> contents (shared s) = done_pushes s \<and> one_at_a_time s"

lemma turns_step:
  assumes I: "turns_inv c s" and st: "push_step True s s'" and len: "length (done_pushes s') < c"
  shows "turns_inv c s'"
proof -
  have R: "ring_inv (shared s)" "capacity (shared s) = c" "contents (shared s) = done_pushes s"
    "read_pos (shared s) = 0" "write_pos_cache (shared s) = 0" and O: "one_at_a_time s"
    using I by (simp_all add: turns_inv_def)
  have ready: "push_try (shared s) = (shared s, True)" using R(1) by (simp add: push_try_ready ring_inv_def)
  from st show ?thesis
  proof cases
    case (load i r v)
    with ready R show ?thesis by (auto simp: turns_inv_def one_at_a_time_def)
  next
    case (wait i r)
    with ready show ?thesis by simp
  next
    case (write_slot i p v)
    with active_alone [OF O, of i] have p: "p = write_pos (shared s)" and others: "\<forall>j. j \<noteq> i \<longrightarrow> pushers s j = Idle"
      by auto
    from push_write_inv [OF R(1), of v] p write_slot(3) R show ?thesis
      using others by (auto simp: turns_inv_def one_at_a_time_def push_write_def write_slot(1))
  next
    case (store_pos i p v)
    with active_alone [OF O, of i] have p: "p = write_pos (shared s)" "slots (shared s) ! write_pos (shared s) = v"
      and others: "\<forall>j. j \<noteq> i \<longrightarrow> pushers s j = Idle"
      by auto
    have c: "(shared s)\<lparr>write_pos := wrap_pos (shared s) p\<rparr> = push_commit (shared s)"
      using p by (simp add: push_commit_def wrap_pos_def)
    have same: "read_pos (push_commit (shared s)) = read_pos (shared s)"
      "write_pos_cache (push_commit (shared s)) = write_pos_cache (shared s)" by (simp_all add: push_commit_def)
    have "Suc (length (contents (shared s))) < capacity (shared s)" using len R store_pos(1) by simp
    from push_commit_contents [OF R(1) this] R p(2) others same show ?thesis
      by (auto simp: turns_inv_def one_at_a_time_def store_pos(1) c)
  qed
qed

lemma turns_run:
  assumes "push_run True d c s" "0 < c"
  shows "turns_inv c s"
  using assms
proof induction
  case start
  then show ?case
    by (simp add: producers_init_def turns_inv_def one_at_a_time_def new_ring_inv new_ring_contents new_ring_capacity)
       (simp add: new_ring_def)
qed (use turns_step in blast)

section \<open>Producers without a lock\<close>

lemma push_run_load:
  assumes "push_run False d c s" "pushers s i = Idle" "read_pos_cache (shared s) = 0" "length (done_pushes s) < c"
  shows "push_run False d c (s\<lparr>pushers := (pushers s)(i := Loaded (write_pos (shared s)) v)\<rparr>)"
  using push_run.step [OF assms(1) push_step.load [OF assms(2) push_try_ready [OF assms(3)]]] assms(4) by simp

lemma overlap:
  assumes "2 < c"
  shows "\<exists>s. push_run False d c s \<and> (\<forall>i. pushers s i = Idle) \<and> done_pushes s = [v, w] \<and> contents (shared s) = [w]"
proof -
  let ?s0 = "producers_init d c" let ?r0 = "new_ring d c"
  let ?s1 = "?s0\<lparr>pushers := (\<lambda>i. Idle)(0 := Loaded 0 v)\<rparr>"
  let ?s2 = "?s0\<lparr>pushers := (\<lambda>i. Idle)(0 := Loaded 0 v, 1 := Loaded 0 w)\<rparr>"
  let ?r3 = "?r0\<lparr>slots := v # replicate (c - 1) d\<rparr>" let ?r4 = "?r0\<lparr>slots := w # replicate (c - 1) d\<rparr>"
  let ?s3 = "?s0\<lparr>shared := ?r3, pushers := (\<lambda>i. Idle)(0 := Stored 0 v, 1 := Loaded 0 w)\<rparr>"
  let ?s4 = "?s0\<lparr>shared := ?r4, pushers := (\<lambda>i. Idle)(0 := Stored 0 v, 1 := Stored 0 w)\<rparr>"
  let ?s5 = "?s0\<lparr>shared := ?r4\<lparr>write_pos := 1\<rparr>, pushers := (\<lambda>i. Idle)(0 := Idle, 1 := Stored 0 w), done_pushes := [v]\<rparr>"
  let ?s6 = "?s0\<lparr>shared := ?r4\<lparr>write_pos := 1\<rparr>, pushers := (\<lambda>i. Idle)(0 := Idle, 1 := Idle), done_pushes := [v, w]\<rparr>"
  have c: "replicate c d = d # replicate (c - 1) d" using assms by (cases c) simp_all
  have "push_run False d c ?s0" by (rule push_run.start)
  from push_run_load [OF this, of 0 v] have "push_run False d c ?s1"
    using assms by (simp add: producers_init_def new_ring_def)
  from push_run_load [OF this, of 1 w] have s2: "push_run False d c ?s2"
    using assms by (simp add: producers_init_def new_ring_def fun_upd_twist)
  have "push_step False ?s2 ?s3"
    using push_step.write_slot [of ?s2 0 0 v False] assms c by (simp add: producers_init_def new_ring_def fun_upd_twist)
  from push_run.step [OF s2 this] have s3: "push_run False d c ?s3" using assms by (simp add: producers_init_def)
  have "push_step False ?s3 ?s4"
    using push_step.write_slot [of ?s3 1 0 w False] assms by (simp add: producers_init_def new_ring_def fun_upd_twist)
  from push_run.step [OF s3 this] have s4: "push_run False d c ?s4" using assms by (simp add: producers_init_def)
  have "push_step False ?s4 ?s5"
    using push_step.store_pos [of ?s4 0 0 v False] assms
    by (simp add: producers_init_def new_ring_def wrap_pos_def fun_upd_twist)
  from push_run.step [OF s4 this] have s5: "push_run False d c ?s5" using assms by (simp add: producers_init_def)
  have "push_step False ?s5 ?s6"
    using push_step.store_pos [of ?s5 1 0 w False] assms
    by (simp add: producers_init_def new_ring_def wrap_pos_def)
  from push_run.step [OF s5 this] have "push_run False d c ?s6" using assms by (simp add: producers_init_def)
  moreover have "contents (shared ?s6) = [w]"
    using assms by (simp add: contents_def segment_def span_def new_ring_def)
  ultimately show ?thesis by (intro exI [of _ ?s6]) (simp add: producers_init_def)
qed



end
