(* ===== verification/Instruments.thy ===== *)
theory Instruments
  imports Prelude
begin

text \<open>
  The instrument file (\<^verbatim>\<open>src/utils/file_utils.hpp\<close>): its lines, the extraction of a symbol and a
  \<^verbatim>\<open>float\<close> from a line as the stream operators of the standard library define it, and what is read back
  of a printed file.
\<close>

section \<open>Stream extraction\<close>

text \<open>The characters the standard library takes as white space, the digits, and the operator for strings.\<close>

definition newline :: char where
  "newline = CHR 0x0A"

definition is_space :: "char \<Rightarrow> bool" where
  "is_space c \<longleftrightarrow> c \<in> {CHR '' '', CHR 0x09, CHR 0x0A, CHR 0x0B, CHR 0x0C, CHR 0x0D}"

definition is_digit :: "char \<Rightarrow> bool" where
  "is_digit c \<longleftrightarrow> c \<in> set ''0123456789''"

definition digit_val :: "char \<Rightarrow> int" where
  "digit_val c = int (of_char c) - 48"

definition digits_val :: "string \<Rightarrow> int" where
  "digits_val = foldl (\<lambda>n c. 10 * n + digit_val c) 0"

definition skip_space :: "string \<Rightarrow> string" where
  "skip_space = dropWhile is_space"

definition read_word :: "string \<Rightarrow> (string \<times> string) option" where
  "read_word s =
     (let s = skip_space s in
      if s = [] then None else Some (takeWhile (\<lambda>c. \<not> is_space c) s, dropWhile (\<lambda>c. \<not> is_space c) s))"

text \<open>
  The operator for \<^verbatim>\<open>float\<close> first collects the longest prefix that looks like a number: a sign, digits, a
  point, digits and, when there has been a digit, an exponent. The collected text must then be a
  number as a whole.
\<close>

record numeral_text =
  negative :: bool
  int_digits :: string
  frac_digits :: string
  exponent :: "(bool \<times> string) option"

definition read_sign :: "string \<Rightarrow> bool \<times> string" where
  "read_sign s = (case s of [] \<Rightarrow> (False, s) | c # cs \<Rightarrow>
     if c = CHR ''-'' then (True, cs) else if c = CHR ''+'' then (False, cs) else (False, s))"

definition read_digits :: "string \<Rightarrow> string \<times> string" where
  "read_digits s = (takeWhile is_digit s, dropWhile is_digit s)"

definition read_fraction :: "string \<Rightarrow> string \<times> string" where
  "read_fraction s = (case s of [] \<Rightarrow> ([], s) | c # cs \<Rightarrow> if c = CHR ''.'' then read_digits cs else ([], s))"

definition read_exponent :: "string \<Rightarrow> (bool \<times> string) option" where
  "read_exponent s = (case s of [] \<Rightarrow> None | c # cs \<Rightarrow>
     if c = CHR ''e'' \<or> c = CHR ''E'' then
       (let (neg, cs) = read_sign cs in Some (neg, fst (read_digits cs)))
     else None)"

definition collect_number :: "string \<Rightarrow> numeral_text" where
  "collect_number s =
     (let (neg, s) = read_sign s; (ds, s) = read_digits s; (fs, s) = read_fraction s in
      \<lparr>negative = neg, int_digits = ds, frac_digits = fs,
       exponent = (if ds @ fs = [] then None else read_exponent s)\<rparr>)"

text \<open>
  The value: \<open>nearest32 n d\<close> is the \<^verbatim>\<open>float\<close> nearest to \<open>n / d\<close> units, ties to even. Without a digit, with an
  exponent that has none, and when the result is not below \<open>2^128\<close>, the extraction fails.
\<close>

definition nearest32 :: "int \<Rightarrow> int \<Rightarrow> f32" where
  "nearest32 n d = (let k = excess_bits 24 (n div d) in half_even n (d * 2 ^ k) * 2 ^ k)"

definition decimal_value :: "int \<Rightarrow> int \<Rightarrow> f32" where
  "decimal_value m e =
     (if 0 \<le> e then nearest32 (m * 10 ^ nat e * 2 ^ 149) 1 else nearest32 (m * 2 ^ 149) (10 ^ nat (- e)))"

definition exponent_value :: "(bool \<times> string) option \<Rightarrow> int" where
  "exponent_value x = (case x of None \<Rightarrow> 0 | Some (neg, es) \<Rightarrow> (if neg then - digits_val es else digits_val es))"

definition number_value :: "numeral_text \<Rightarrow> f32 option" where
  "number_value t =
     (let v = decimal_value (digits_val (int_digits t @ frac_digits t))
                (exponent_value (exponent t) - int (length (frac_digits t))) in
      if int_digits t @ frac_digits t = [] \<or> (\<exists>neg. exponent t = Some (neg, [])) \<or> 2 ^ 277 \<le> v then None
      else Some (if negative t then - v else v))"

definition read_float :: "string \<Rightarrow> f32 option" where
  "read_float s = number_value (collect_number (skip_space s))"

section \<open>Reading the file\<close>

definition parse_line :: "string \<Rightarrow> (string \<times> f32) option" where
  "parse_line line = do { (symbol, rest) \<leftarrow> read_word line; v \<leftarrow> read_float rest; Some (symbol, v) }"

definition getline :: "string \<Rightarrow> (string \<times> string) option" where
  "getline s = (if s = [] then None else Some (takeWhile (\<lambda>c. c \<noteq> newline) s, drop 1 (dropWhile (\<lambda>c. c \<noteq> newline) s)))"

lemma getline_shorter [dest]: "getline s = Some (line, rest) \<Longrightarrow> length rest < length s"
  using length_dropWhile_le [of "\<lambda>c. c \<noteq> newline" s] by (cases s) (auto simp: getline_def le_less_Suc_eq split: if_splits)

text \<open>The loop; its state is the instruments and the messages on the error stream.\<close>

definition line_error :: "string \<Rightarrow> string" where
  "line_error l = ''Error parsing line: '' @ l"

function read_lines :: "string \<Rightarrow> (string \<times> f32) list \<times> string list \<Rightarrow> (string \<times> f32) list \<times> string list" where
  "read_lines s (infos, errs) =
     (case getline s of
        None \<Rightarrow> (infos, errs)
      | Some (line, rest) \<Rightarrow>
          (case parse_line line of
             Some info \<Rightarrow> read_lines rest (infos @ [info], errs)
           | None \<Rightarrow> read_lines rest (infos, errs @ [line_error line])))"
  by pat_completeness auto
termination by (relation "measure (\<lambda>(s, _). length s)") auto

declare read_lines.simps [simp del]

text \<open>\<open>fs\<close> gives the content of a file, \<open>None\<close> for one that cannot be opened.\<close>

definition read_instrument_init_data_from_file ::
    "(string \<Rightarrow> string option) \<Rightarrow> string \<Rightarrow> (string \<times> f32) list \<times> string list" where
  "read_instrument_init_data_from_file fs file_path =
     (case fs file_path of
        None \<Rightarrow> ([], [''Error opening file: '' @ file_path])
      | Some s \<Rightarrow> read_lines s ([], []))"

section \<open>Rounding to nearest\<close>

lemma half_even_error:
  assumes "0 < d"
  shows "2 * \<bar>half_even m d * d - m\<bar> \<le> d"
proof -
  define q r where "q = m div d" and "r = m mod d"
  have m: "m = q * d + r" and r: "0 \<le> r" "r < d" using assms by (simp_all add: q_def r_def)
  have "half_even m d = q \<and> 2 * r \<le> d \<or> half_even m d = q + 1 \<and> d \<le> 2 * r"
    by (auto simp: half_even_def Let_def simp flip: q_def r_def)
  moreover have "q * d - m = - r" "(q + 1) * d - m = d - r" using m by (simp_all add: algebra_simps)
  ultimately show ?thesis using r by (elim disjE conjE) simp_all
qed

lemma half_even_nearest:
  assumes "0 < d"
  shows "\<bar>half_even m d * d - m\<bar> \<le> \<bar>c * d - m\<bar>"
proof (cases "c = half_even m d")
  case False
  have "1 * d \<le> \<bar>c - half_even m d\<bar> * d"
    using False assms by (intro mult_right_mono) auto
  also have "\<dots> = \<bar>c * d - half_even m d * d\<bar>"
    using assms by (simp add: abs_mult flip: left_diff_distrib)
  also have "\<dots> \<le> \<bar>c * d - m\<bar> + \<bar>half_even m d * d - m\<bar>"
    using abs_triangle_ineq4 [of "c * d - m" "half_even m d * d - m"] by simp
  finally have "d \<le> \<bar>c * d - m\<bar> + \<bar>half_even m d * d - m\<bar>" by simp
  moreover have "d \<le> x + y \<Longrightarrow> 2 * y \<le> d \<Longrightarrow> y \<le> x" for x y :: int by linarith
  ultimately show ?thesis using half_even_error [OF assms, of m] by blast
qed simp

lemma representable_multiple:
  assumes "rnd32 v = v" "2 ^ (23 + k) \<le> v"
  shows "2 ^ k dvd v"
proof -
  let ?j = "excess_bits 24 v"
  have v: "0 \<le> v" using assms(2) by (meson order_trans zero_le_numeral zero_le_power)
  have "(2::int) ^ (23 + k) < 2 ^ (24 + ?j)" using assms(2) excess_bits_upper [of v 24] by linarith
  then have "k \<le> ?j" by (subst (asm) power_strict_increasing_iff) auto
  then have "(2::int) ^ k dvd 2 ^ ?j" by (rule le_imp_power_dvd)
  moreover have "half_even v (2 ^ ?j) * 2 ^ ?j = v"
    using assms(1) v by (simp add: rnd32_def round_sig_nonneg_eq round_mag_def Let_def)
  ultimately show ?thesis by (metis dvd_triv_right dvd_trans)
qed

text \<open>No \<^verbatim>\<open>float\<close> is closer to the quotient than \<open>nearest32\<close>.\<close>

lemma nearest32_nearest:
  assumes "0 < d" "rnd32 v = v"
  shows "\<bar>nearest32 n d * d - n\<bar> \<le> \<bar>v * d - n\<bar>"
proof -
  let ?k = "excess_bits 24 (n div d)" let ?D = "d * 2 ^ ?k"
  have D: "0 < ?D" using assms(1) by simp
  have near: "\<bar>nearest32 n d * d - n\<bar> \<le> \<bar>c * ?D - n\<bar>" for c
    using half_even_nearest [OF D, of n c] by (simp add: nearest32_def Let_def ac_simps)
  show ?thesis
  proof (cases "?k = 0 \<or> 2 ^ (23 + ?k) \<le> v")
    case True
    then have "2 ^ ?k dvd v" using representable_multiple [OF assms(2)] by auto
    then obtain c where "v = 2 ^ ?k * c" ..
    with near [of c] show ?thesis by (simp add: ac_simps)
  next
    case False
    then have "2 ^ (23 + ?k) \<le> n div d" using excess_bits_lower [of 24 "n div d"] by simp
    then have "2 ^ (23 + ?k) * d \<le> n div d * d" using assms(1) by simp
    also have "\<dots> \<le> n" using assms(1) by (simp flip: minus_mod_eq_div_mult)
    finally have b: "2 ^ 23 * ?D \<le> n" by (simp add: power_add ac_simps)
    have "v * d \<le> 2 ^ (23 + ?k) * d" using False assms(1) by (intro mult_right_mono) auto
    then have "v * d \<le> 2 ^ 23 * ?D" by (simp add: power_add ac_simps)
    with b near [of "2 ^ 23"] show ?thesis by linarith
  qed
qed

lemma nearest32_float:
  assumes "0 < d" "0 \<le> n"
  shows "rnd32 (nearest32 n d) = nearest32 n d" "0 \<le> nearest32 n d"
proof -
  let ?k = "excess_bits 24 (n div d)" let ?D = "d * 2 ^ ?k" let ?q = "half_even n ?D"
  have D: "0 < ?D" using assms(1) by simp
  have r: "nearest32 n d = ?q * 2 ^ ?k" by (simp add: nearest32_def Let_def)
  have "n div d < 2 ^ (24 + ?k)" by (rule excess_bits_upper)
  then have "n < 2 ^ (24 + ?k) * d" 
    using assms(1) by (metis less_irrefl not_le zdiv_mono1 nonzero_mult_div_cancel_right)
  then have "?q \<le> half_even (2 ^ 24 * ?D) ?D" by (intro half_even_mono D) (simp add: power_add ac_simps)
  then have q: "?q \<le> 2 ^ 24" using half_even_exact [OF D] by simp
  have "half_even 0 ?D \<le> ?q" by (rule half_even_mono [OF D assms(2)])
  then have q0: "0 \<le> ?q" using half_even_exact [OF D, of 0] by simp
  show "0 \<le> nearest32 n d" using q0 r by simp
  show "rnd32 (nearest32 n d) = nearest32 n d"
  proof (cases "?q = 2 ^ 24")
    case True
    then have "nearest32 n d = 2 ^ 23 * 2 ^ Suc ?k" using r by simp
    then show ?thesis unfolding rnd32_def by (simp only:) (rule round_sig_multiple, simp)
  next
    case False
    then show ?thesis using q q0 round_sig_multiple [of ?q 24 ?k] by (simp add: rnd32_def r)
  qed
qed

lemma nearest32_exact: "0 < d \<Longrightarrow> rnd32 v = v \<Longrightarrow> v * d = n \<Longrightarrow> nearest32 n d = v"
  using nearest32_nearest [of d v n] by (metis abs_le_zero_iff diff_self eq_iff_diff_eq_0 less_irrefl mult_right_cancel abs_zero)

section \<open>Reading a decimal number\<close>

definition symbol_text :: "string \<Rightarrow> bool" where
  "symbol_text s \<longleftrightarrow> s \<noteq> [] \<and> (\<forall>c \<in> set s. \<not> is_space c)"

definition blanks :: "string \<Rightarrow> bool" where
  "blanks s \<longleftrightarrow> (\<forall>c \<in> set s. is_space c)"

definition numerals :: "string \<Rightarrow> bool" where
  "numerals s \<longleftrightarrow> (\<forall>c \<in> set s. is_digit c)"

definition ends_number :: "string \<Rightarrow> bool" where
  "ends_number s \<longleftrightarrow> (case s of [] \<Rightarrow> True | c # _ \<Rightarrow> \<not> is_digit c \<and> c \<noteq> CHR ''e'' \<and> c \<noteq> CHR ''E'')"

definition decimal_text :: "bool \<Rightarrow> string \<Rightarrow> string \<Rightarrow> string" where
  "decimal_text neg ds fs = (if neg then ''-'' else []) @ ds @ ''.'' @ fs"

lemma digit_facts:
  "is_digit c \<Longrightarrow> \<not> is_space c" "is_digit c \<Longrightarrow> c \<noteq> CHR ''-''" "is_digit c \<Longrightarrow> c \<noteq> CHR ''+''" "is_digit c \<Longrightarrow> c \<noteq> CHR ''.''"
  "\<not> is_space (CHR ''.'')" "\<not> is_space (CHR ''-'')" "\<not> is_digit (CHR ''.'')" "is_digit c \<Longrightarrow> c \<noteq> newline" "is_space newline"
  "CHR ''.'' \<noteq> newline" "CHR ''-'' \<noteq> newline"
  by (auto simp: is_digit_def is_space_def newline_def)

lemma skip_space_blanks: "blanks b \<Longrightarrow> skip_space (b @ s) = skip_space s"
  by (simp add: skip_space_def blanks_def dropWhile_append)

lemma skip_space_ready: "s \<noteq> [] \<Longrightarrow> \<not> is_space (hd s) \<Longrightarrow> skip_space (s @ r) = s @ r"
  by (cases s) (simp_all add: skip_space_def)

lemma read_word_symbol:
  assumes "symbol_text w" "is_space c"
  shows "read_word (w @ c # s) = Some (w, c # s)"
proof -
  have "skip_space (w @ c # s) = w @ c # s"
    using assms skip_space_ready [of w "c # s"] by (simp add: symbol_text_def)
  then show ?thesis using assms by (simp add: read_word_def symbol_text_def takeWhile_append dropWhile_append)
qed

lemma read_word_blanks: "blanks b \<Longrightarrow> read_word (b @ s) = read_word s"
  by (simp add: read_word_def skip_space_blanks)

lemma read_digits_append:
  assumes "numerals ds" "s = [] \<or> \<not> is_digit (hd s)"
  shows "read_digits (ds @ s) = (ds, s)"
  using assms by (cases s) (auto simp: read_digits_def numerals_def takeWhile_append dropWhile_append)

lemma read_sign_text:
  assumes "numerals ds"
  shows "read_sign ((if neg then ''-'' else []) @ ds @ CHR ''.'' # s) = (neg, ds @ CHR ''.'' # s)"
  using assms digit_facts(2,3) by (cases ds) (auto simp: read_sign_def numerals_def)

lemma collect_decimal:
  assumes "numerals ds" "numerals fs" "ds @ fs \<noteq> []" "ends_number rest"
  shows "collect_number (decimal_text neg ds fs @ rest) =
    \<lparr>negative = neg, int_digits = ds, frac_digits = fs, exponent = None\<rparr>"
proof -
  have "read_digits (ds @ CHR ''.'' # fs @ rest) = (ds, CHR ''.'' # fs @ rest)"
    using assms(1) digit_facts(7) by (intro read_digits_append) auto
  moreover have "read_digits (fs @ rest) = (fs, rest)"
    using assms(2,4) by (intro read_digits_append) (auto simp: ends_number_def split: list.splits)
  moreover have "read_exponent rest = None"
    using assms(4) by (auto simp: ends_number_def read_exponent_def split: list.splits)
  ultimately show ?thesis
    using assms(3) read_sign_text [OF assms(1), of neg "fs @ rest"]
    by (simp add: collect_number_def decimal_text_def read_fraction_def)
qed

lemma digits_val_append: "digits_val (a @ b) = digits_val a * 10 ^ length b + digits_val b"
proof (induction b rule: rev_induct)
  case (snoc c b)
  have "digits_val (x @ [c]) = 10 * digits_val x + digit_val c" for x by (simp add: digits_val_def)
  from this [of "a @ b"] this [of b] snoc show ?case by (simp add: algebra_simps)
qed (simp add: digits_val_def)

lemma digit_val_nonneg: "is_digit c \<Longrightarrow> 0 \<le> digit_val c"
  by (auto simp: is_digit_def digit_val_def)

lemma digits_val_nonneg: "numerals s \<Longrightarrow> 0 \<le> digits_val s"
proof (induction s rule: rev_induct)
  case (snoc c s)
  then show ?case using digits_val_append [of s "[c]"] digit_val_nonneg [of c]
    by (simp add: numerals_def) (simp add: digits_val_def)
qed (simp add: digits_val_def)

text \<open>A line with a symbol, white space and a decimal number; anything may follow.\<close>

definition read_price :: "bool \<Rightarrow> string \<Rightarrow> string \<Rightarrow> f32 option" where
  "read_price neg ds fs = (let v = nearest32 (digits_val (ds @ fs) * 2 ^ 149) (10 ^ length fs) in
     if 2 ^ 277 \<le> v then None else Some (if neg then - v else v))"

lemma parse_decimal_line:
  assumes "blanks b" "symbol_text w" "blanks gap" "gap \<noteq> []"
    and "numerals ds" "numerals fs" "ds @ fs \<noteq> []" "ends_number rest"
  shows "parse_line (b @ w @ gap @ decimal_text neg ds fs @ rest) = map_option (Pair w) (read_price neg ds fs)"
proof -
  obtain c g where g: "gap = c # g" "is_space c" using assms(3,4) by (cases gap) (auto simp: blanks_def)
  have "read_word (b @ w @ gap @ decimal_text neg ds fs @ rest) = Some (w, gap @ decimal_text neg ds fs @ rest)"
    using assms(1,2) g by (simp add: read_word_blanks read_word_symbol)
  moreover have "\<not> is_space (hd (decimal_text neg ds fs)) \<and> decimal_text neg ds fs \<noteq> []"
    using assms(5) digit_facts(1,5,6) by (cases ds) (auto simp: decimal_text_def numerals_def is_space_def)
  then have "skip_space (gap @ decimal_text neg ds fs @ rest) = decimal_text neg ds fs @ rest"
    using assms(3) skip_space_ready by (simp add: skip_space_blanks)
  then have "read_float (gap @ decimal_text neg ds fs @ rest) = read_price neg ds fs"
    using assms(7) by (auto simp: read_float_def collect_decimal [OF assms(5-8)] number_value_def read_price_def
      exponent_value_def decimal_value_def Let_def)
  ultimately show ?thesis by (cases "read_price neg ds fs") (simp_all add: parse_line_def)
qed

section \<open>Printing prices\<close>

text \<open>
  The exact decimal expansion of a \<^verbatim>\<open>float\<close>: \<open>p\<close> units are \<open>p * 5^149 / 10^149\<close>, so 149 digits after the point
  are enough.
\<close>

definition digit_char :: "nat \<Rightarrow> char" where
  "digit_char n = ''0123456789'' ! n"

fun show_nat :: "nat \<Rightarrow> string" where
  "show_nat n = (if n < 10 then [digit_char n] else show_nat (n div 10) @ [digit_char (n mod 10)])"

declare show_nat.simps [simp del]

primrec show_fraction :: "nat \<Rightarrow> nat \<Rightarrow> string" where
  "show_fraction 0 n = []"
| "show_fraction (Suc k) n = show_fraction k (n div 10) @ [digit_char (n mod 10)]"

definition show_price :: "f32 \<Rightarrow> string" where
  "show_price p = (let n = nat (\<bar>p\<bar> * 5 ^ 149) in
     decimal_text (p < 0) (show_nat (n div 10 ^ 149)) (show_fraction 149 (n mod 10 ^ 149)))"

definition show_instrument :: "string \<times> f32 \<Rightarrow> string" where
  "show_instrument i = fst i @ '' '' @ show_price (snd i)"

lemma digit_char: "n < 10 \<Longrightarrow> is_digit (digit_char n) \<and> digit_val (digit_char n) = int n"
proof -
  assume "n < 10"
  then have "n \<in> {0, 1, 2, 3, 4, 5, 6, 7, 8, 9}" by auto
  then show ?thesis by (elim insertE) (simp_all add: digit_char_def is_digit_def digit_val_def)
qed

lemma digits_val_snoc: "digits_val (s @ [c]) = 10 * digits_val s + digit_val c"
  by (simp add: digits_val_def)

lemma numerals_append [simp]: "numerals (a @ b) \<longleftrightarrow> numerals a \<and> numerals b"
  by (auto simp: numerals_def)

lemma show_nat_val: "digits_val (show_nat n) = int n \<and> numerals (show_nat n) \<and> show_nat n \<noteq> []"
proof (induction n rule: show_nat.induct)
  case (1 n)
  show ?case
  proof (cases "n < 10")
    case True
    then show ?thesis using digit_char [OF True] by (simp add: show_nat.simps [of n] numerals_def digits_val_def)
  next
    case False
    with 1 digit_char [of "n mod 10"] show ?thesis
      by (simp add: show_nat.simps [of n] numerals_def digits_val_snoc zdiv_int zmod_int)
  qed
qed

lemma show_fraction_val:
  "digits_val (show_fraction k n) = int (n mod 10 ^ k) \<and> numerals (show_fraction k n) \<and> length (show_fraction k n) = k"
proof (induction k arbitrary: n)
  case (Suc k)
  have "n mod (10 * 10 ^ k) = 10 * (n div 10 mod 10 ^ k) + n mod 10" by (simp add: mod_mult2_eq)
  with Suc [of "n div 10"] digit_char [of "n mod 10"] show ?case by (simp add: digits_val_snoc numerals_def)
qed (simp_all add: digits_val_def numerals_def)

text \<open>A finite \<^verbatim>\<open>float\<close>.\<close>

definition finite_float :: "f32 \<Rightarrow> bool" where
  "finite_float p \<longleftrightarrow> rnd32 p = p \<and> \<bar>p\<bar> < 2 ^ 277"

lemma read_exact_price:
  assumes p: "finite_float p" and v: "digits_val (ds @ fs) * 2 ^ 149 = \<bar>p\<bar> * 10 ^ length fs" and neg: "neg = (p < 0)"
  shows "read_price neg ds fs = Some p"
proof -
  have "rnd32 \<bar>p\<bar> = \<bar>p\<bar>" using p by (auto simp: finite_float_def abs_if f32.rnd_minus)
  then have "nearest32 (digits_val (ds @ fs) * 2 ^ 149) (10 ^ length fs) = \<bar>p\<bar>"
    by (intro nearest32_exact) (simp_all only: v, simp)
  then show ?thesis using p neg by (simp add: read_price_def finite_float_def Let_def)
qed

lemma read_shown_price:
  assumes "symbol_text w" "finite_float p" "ends_number rest"
  shows "parse_line (w @ '' '' @ show_price p @ rest) = Some (w, p)"
proof -
  define n where "n = nat (\<bar>p\<bar> * 5 ^ 149)"
  let ?ds = "show_nat (n div 10 ^ 149)" let ?fs = "show_fraction 149 (n mod 10 ^ 149)"
  have "digits_val (?ds @ ?fs) = int (n div 10 ^ 149 * 10 ^ 149 + n mod 10 ^ 149)"
    using show_nat_val show_fraction_val by (simp add: digits_val_append zdiv_int zmod_int)
  then have "digits_val (?ds @ ?fs) = \<bar>p\<bar> * 5 ^ 149" by (simp add: n_def)
  then have "digits_val (?ds @ ?fs) * 2 ^ 149 = \<bar>p\<bar> * 10 ^ length ?fs"
    using show_fraction_val [of 149] by (simp add: mult.assoc flip: power_mult_distrib)
  from read_exact_price [OF assms(2) this refl]
  show ?thesis
    using parse_decimal_line [of "[]" w "'' ''" ?ds ?fs rest "p < 0"] assms show_nat_val [of "n div 10 ^ 149"]
      show_fraction_val [of 149 "n mod 10 ^ 149"]
    by (simp add: show_price_def n_def Let_def blanks_def is_space_def)
qed

section \<open>Reading lines\<close>

definition file_text :: "string list \<Rightarrow> string" where
  "file_text ls = concat (map (\<lambda>l. l @ [newline]) ls)"

lemma getline_line: "newline \<notin> set l \<Longrightarrow> getline (l @ newline # s) = Some (l, s)"
  by (auto simp: getline_def takeWhile_append dropWhile_append)

lemma read_lines_text:
  assumes "\<forall>l \<in> set ls. newline \<notin> set l"
  shows "read_lines (file_text ls) (infos, errs) =
    (infos @ List.map_filter parse_line ls, errs @ map line_error (filter (\<lambda>l. parse_line l = None) ls))"
  using assms
proof (induction ls arbitrary: infos errs)
  case Nil
  then show ?case by (simp add: read_lines.simps file_text_def getline_def map_filter_simps)
next
  case (Cons l ls)
  then have "getline (file_text (l # ls)) = Some (l, file_text ls)" by (simp add: file_text_def getline_line)
  with Cons show ?case
    by (simp add: read_lines.simps [of "file_text (l # ls)"] map_filter_simps split: option.split)
qed

text \<open>A line without a price: white space, a symbol alone, or a symbol and a text that does not begin like a number.\<close>

definition starts_number :: "string \<Rightarrow> bool" where
  "starts_number s \<longleftrightarrow> (case s of [] \<Rightarrow> False | c # _ \<Rightarrow> is_digit c \<or> c \<in> {CHR ''+'', CHR ''-'', CHR ''.''})"

inductive lacks_price :: "string \<Rightarrow> bool" where
  blank: "blanks b \<Longrightarrow> lacks_price b"
| alone: "blanks b \<Longrightarrow> symbol_text w \<Longrightarrow> blanks gap \<Longrightarrow> lacks_price (b @ w @ gap)"
| other: "blanks b \<Longrightarrow> symbol_text w \<Longrightarrow> blanks gap \<Longrightarrow> gap \<noteq> [] \<Longrightarrow> symbol_text x \<Longrightarrow> \<not> starts_number x \<Longrightarrow>
    lacks_price (b @ w @ gap @ x @ rest)"

lemma read_float_none: "skip_space s = [] \<or> \<not> starts_number (skip_space s) \<Longrightarrow> read_float s = None"
  by (cases "skip_space s") (auto simp: read_float_def collect_number_def read_sign_def read_digits_def read_fraction_def
    starts_number_def number_value_def Let_def)

lemma read_word_last: "symbol_text w \<Longrightarrow> read_word w = Some (w, [])"
  using skip_space_ready [of w "[]"] by (auto simp: read_word_def symbol_text_def Let_def takeWhile_eq_all_conv)

lemma skip_space_all: "blanks b \<Longrightarrow> skip_space b = []"
  by (simp add: skip_space_def blanks_def)

lemma lacks_price_refused: "lacks_price l \<Longrightarrow> parse_line l = None"
proof (induction rule: lacks_price.induct)
  case (blank b)
  then show ?case by (simp add: parse_line_def read_word_def skip_space_all)
next
  case (alone b w gap)
  have "\<exists>r. read_word (w @ gap) = Some (w, r) \<and> blanks r"
  proof (cases gap)
    case (Cons c g)
    then show ?thesis using read_word_symbol [OF alone(2), of c g] alone(3) by (simp add: blanks_def)
  qed (use read_word_last alone in \<open>auto simp: blanks_def\<close>)
  then show ?case using alone by (auto simp: parse_line_def read_word_blanks read_float_none skip_space_all)
next
  case (other b w gap x rest)
  obtain c g where g: "gap = c # g" "is_space c" using other(3,4) by (cases gap) (auto simp: blanks_def)
  have "x \<noteq> []" "\<not> is_space (hd x)" using other(5) by (auto simp: symbol_text_def)
  then have "skip_space (gap @ x @ rest) = x @ rest" "\<not> starts_number (x @ rest)"
    using other skip_space_ready [of x rest] by (auto simp: skip_space_blanks starts_number_def neq_Nil_conv)
  then show ?case using other g read_word_symbol [OF other(2) g(2), of "g @ x @ rest"]
    by (simp add: parse_line_def read_word_blanks read_float_none)
qed

lemma numerals_no_newline: "numerals s \<Longrightarrow> newline \<notin> set s"
  using digit_facts(8) by (auto simp: numerals_def)

lemma show_instrument_line:
  assumes "symbol_text w"
  shows "newline \<notin> set (show_instrument (w, p))"
proof -
  have "newline \<notin> set w" using assms digit_facts(9) by (auto simp: symbol_text_def)
  then show ?thesis
    using show_nat_val [THEN conjunct2, THEN conjunct1, THEN numerals_no_newline]
      show_fraction_val [THEN conjunct2, THEN conjunct1, THEN numerals_no_newline]
    by (auto simp: show_instrument_def show_price_def decimal_text_def Let_def) (auto simp: newline_def)
qed

lemma largest_float: "rnd32 ((2 ^ 24 - 1) * 2 ^ 253) = (2 ^ 24 - 1) * 2 ^ 253"
  unfolding rnd32_def by (rule round_sig_multiple) simp

lemma read_price_nearest:
  fixes ds fs :: string
  defines "x \<equiv> digits_val (ds @ fs) * 2 ^ 149" and "d \<equiv> 10 ^ length fs"
  assumes "numerals ds" "numerals fs"
  shows "case read_price neg ds fs of
      None \<Rightarrow> (2 ^ 24 - 1) * 2 ^ 253 * d < x
    | Some p \<Rightarrow> rnd32 p = p \<and> (\<forall>v. rnd32 v = v \<longrightarrow> \<bar>p * d - (if neg then - x else x)\<bar> \<le> \<bar>v * d - (if neg then - x else x)\<bar>)"
proof -
  let ?r = "nearest32 x d"
  have d: "0 < d" and x: "0 \<le> x" using assms(3,4) by (simp_all add: d_def x_def digits_val_nonneg)
  note near = nearest32_nearest [OF d] and float = nearest32_float [OF d x]
  have rp: "read_price neg ds fs = (if 2 ^ 277 \<le> ?r then None else Some (if neg then - ?r else ?r))"
    by (simp add: read_price_def x_def d_def Let_def)
  have minus: "\<bar>- ?r * d - - x\<bar> \<le> \<bar>v * d - - x\<bar>" if "rnd32 v = v" for v
    using near [of "- v" x] that f32.rnd_minus [of v] by (simp add: abs_minus_commute)
  show ?thesis
  proof (cases "2 ^ 277 \<le> ?r")
    case True
    let ?L = "(2 ^ 24 - 1) * 2 ^ 253 :: int"
    have "?L * d < ?r * d" using True d by (intro mult_strict_right_mono) auto
    with near [OF largest_float, of x] have "?L * d < x" by arith
    then show ?thesis using True by (simp add: rp)
  next
    case False
    then show ?thesis using near minus float(1) f32.rnd_minus [of ?r] by (auto simp: rp)
  qed
qed

section \<open>Properties\<close>

text \<open>A line of an instrument file: a text without a price, or an instrument.\<close>

definition line_text :: "string + string \<times> f32 \<Rightarrow> string" where
  "line_text x = (case x of Inl l \<Rightarrow> l | Inr i \<Rightarrow> show_instrument i)"

lemma parse_line_text:
  assumes "case x of Inl l \<Rightarrow> newline \<notin> set l \<and> lacks_price l | Inr (w, p) \<Rightarrow> symbol_text w \<and> finite_float p"
  shows "newline \<notin> set (line_text x) \<and> parse_line (line_text x) = (case x of Inl l \<Rightarrow> None | Inr i \<Rightarrow> Some i)"
proof (cases x)
  case (Inl l)
  then show ?thesis using assms lacks_price_refused [of l] by (simp add: line_text_def)
next
  case (Inr i)
  then obtain w p where i: "x = Inr (w, p)" "symbol_text w" "finite_float p" using assms by (cases i) auto
  then show ?thesis using show_instrument_line [of w p] read_shown_price [of w p "[]"]
    by (simp add: line_text_def show_instrument_def ends_number_def)
qed

text \<open>
  C21. Reading the instrument file: of a file whose lines are printed instruments, in any order with blank lines,
  symbols without a price and symbols with a word for a price, exactly the instruments are read, in
  their order and with exactly their prices, for every finite \<^verbatim>\<open>float\<close>; each other line gives one message.
  A file that cannot be opened gives no instruments and one message.
\<close>

theorem instruments_read_back:
  assumes "\<forall>x \<in> set xs. case x of Inl l \<Rightarrow> newline \<notin> set l \<and> lacks_price l | Inr (w, p) \<Rightarrow> symbol_text w \<and> finite_float p"
  shows "read_instrument_init_data_from_file [path \<mapsto> file_text (map line_text xs)] path =
      ([i. Inr i \<leftarrow> xs], [line_error l. Inl l \<leftarrow> xs]) \<and>
    (other \<noteq> path \<longrightarrow> read_instrument_init_data_from_file [path \<mapsto> file_text (map line_text xs)] other =
      ([], [''Error opening file: '' @ other]))"
proof -
  have "\<forall>x \<in> set xs. newline \<notin> set (line_text x) \<and> parse_line (line_text x) = (case x of Inl l \<Rightarrow> None | Inr i \<Rightarrow> Some i)"
    using assms parse_line_text by blast
  then have "(\<forall>l \<in> set (map line_text xs). newline \<notin> set l) \<and>
    List.map_filter parse_line (map line_text xs) = [i. Inr i \<leftarrow> xs] \<and>
    map line_error (filter (\<lambda>l. parse_line l = None) (map line_text xs)) = [line_error l. Inl l \<leftarrow> xs]"
    by (induction xs) (auto simp: map_filter_simps line_text_def split: sum.splits)
  then show ?thesis
    using read_lines_text [of "map line_text xs" "[]" "[]"] by (simp add: read_instrument_init_data_from_file_def)
qed

lemma symbol_textI: "s \<noteq> [] \<Longrightarrow> list_all (\<lambda>c. \<not> is_space c) s \<Longrightarrow> symbol_text s"
  by (simp add: symbol_text_def list_all_iff)

theorem instruments_read_back_witness:
  "read_instrument_init_data_from_file
     [''f'' \<mapsto> file_text (map line_text [Inr (''AAPL'', fl 180), Inl ''IBM'', Inr (''GOOGL'', fl 150)])] ''f'' =
   ([(''AAPL'', fl 180), (''GOOGL'', fl 150)], [''Error parsing line: IBM''])"
proof -
  have "symbol_text ''AAPL''" "symbol_text ''GOOGL''" "symbol_text ''IBM''"
    by (rule symbol_textI; simp add: is_space_def)+
  moreover from this have "lacks_price ''IBM''"
    using lacks_price.alone [of "[]" "''IBM''" "[]"] by (simp add: blanks_def)
  moreover have "finite_float (fl 180)" "finite_float (fl 150)" by (simp_all add: finite_float_def rnd32_fl) (simp_all add: fl_def)
  moreover have "newline \<notin> set ''IBM''" by (simp add: newline_def)
  ultimately show ?thesis
    using instruments_read_back [of "[Inr (''AAPL'', fl 180), Inl ''IBM'', Inr (''GOOGL'', fl 150)]" "''f''" "[]"] by (simp add: line_error_def)
qed

text \<open>
  C22. The price of a line: whatever decimal number with a point follows the symbol, the price read is a \<^verbatim>\<open>float\<close> and
  no other \<^verbatim>\<open>float\<close> is closer to the number. A line is refused only when the number is larger than the
  largest \<^verbatim>\<open>float\<close>. White space around the symbol and text after the number do not matter.
\<close>

theorem price_nearest:
  fixes ds fs :: string
  assumes "blanks b" "symbol_text w" "blanks gap" "gap \<noteq> []"
    and "numerals ds" "numerals fs" "ds @ fs \<noteq> []" "ends_number rest"
    and d: "d = 10 ^ length fs" and x: "x = (if neg then - 1 else 1) * digits_val (ds @ fs) * 2 ^ 149"
  shows "case parse_line (b @ w @ gap @ decimal_text neg ds fs @ rest) of
      None \<Rightarrow> (2 ^ 24 - 1) * 2 ^ 253 * d < \<bar>x\<bar>
    | Some (symbol, p) \<Rightarrow> symbol = w \<and> rnd32 p = p \<and> (\<forall>v. rnd32 v = v \<longrightarrow> \<bar>p * d - x\<bar> \<le> \<bar>v * d - x\<bar>)"
  using read_price_nearest [OF assms(5,6), of neg] digits_val_nonneg [of "ds @ fs"]
  by (auto simp: parse_decimal_line [OF assms(1-8)] d x assms(5,6) abs_mult split: option.splits)

theorem price_nearest_witness:
  "\<exists>p. parse_line ''X -0.1'' = Some (''X'', p) \<and> p = - 13421773 * 2 ^ 122 \<and> \<bar>p * 10 + 2 ^ 149\<bar> \<le> \<bar>- 13421772 * 2 ^ 122 * 10 + 2 ^ 149\<bar>"
proof -
  have "symbol_text ''X''" by (simp add: symbol_text_def is_space_def)
  then have "case parse_line ''X -0.1'' of None \<Rightarrow> (2 ^ 24 - 1) * 2 ^ 253 * 10 < \<bar>- (2 ^ 149) :: int\<bar>
    | Some (symbol, p) \<Rightarrow> symbol = ''X'' \<and> rnd32 p = p \<and>
       (\<forall>v. rnd32 v = v \<longrightarrow> \<bar>p * 10 - - (2 ^ 149)\<bar> \<le> \<bar>v * 10 - - (2 ^ 149)\<bar>)"
    using price_nearest [of "[]" "''X''" "'' ''" "''0''" "''1''" "[]" 10 "- (2 ^ 149)" True]
    by (simp add: blanks_def is_space_def numerals_def is_digit_def ends_number_def decimal_text_def digits_val_def digit_val_def
      del: abs_minus_cancel)
  moreover have "rnd32 (- 13421772 * 2 ^ 122) = - 13421772 * 2 ^ 122" unfolding rnd32_def by (rule round_sig_multiple) simp
  moreover have "parse_line ''X -0.1'' = Some (''X'', - 13421773 * 2 ^ 122)" by code_simp
  ultimately show ?thesis by auto
qed

end
