(* ===== verification/Program.thy ===== *)
theory Program
  imports Server Exchange_Props Lifecycle Instruments
begin

text \<open>
  The process (\<^verbatim>\<open>src/main.cpp\<close>): opening both repositories, reading the instruments, building the exchange,
  starting the web server (\<^verbatim>\<open>src/server/server.cpp\<close>), waiting for a signal (\<^verbatim>\<open>src/utils/seastar_signal_catcher.hpp\<close>)
  and stopping. The driver of the trade database and the web server are parameters, as the file
  system and the order database are in \<open>Lifecycle\<close>; every call changes the outside world \<open>'w\<close>.
\<close>

section \<open>Opening the trade repository\<close>

text \<open>
  The driver: connecting a session (its success), preparing a statement (nothing if it is not
  accepted) and executing a query.
\<close>

record ('w, 'p) cluster_ops =
  session_connect :: "'w \<Rightarrow> string \<Rightarrow> 'w \<times> bool"
  session_prepare :: "'w \<Rightarrow> string \<Rightarrow> 'w \<times> 'p option"
  session_execute :: "'w \<Rightarrow> string \<Rightarrow> 'w \<times> bool"

record 'p trade_store =
  prepared_insert_query :: "'p option"
  prepared_select_by_primary_key_query :: "'p option"
  batch_size :: "32 word"
  trade_ring :: "Trade ring"

definition insert_query :: string where
  "insert_query = ''INSERT INTO orderbook.trades (buyer_id, seller_id, buyer_order_id, seller_order_id, instrument, timestamp, volume, price) VALUES (?, ?, ?, ?, ?, ?, ?, ?);''"

definition select_by_primary_key_query :: string where
  "select_by_primary_key_query = ''SELECT * FROM orderbook.trades where buyer_id=? and seller_id=? and timestamp=?;''"

text \<open>A statement that could not be prepared is stored as a null pointer; only the connection is checked.\<close>

definition open_trade_repository ::
    "('w, 'p) cluster_ops \<Rightarrow> Trade \<Rightarrow> string \<Rightarrow> 32 word \<Rightarrow> nat \<Rightarrow> 'w \<Rightarrow> 'w \<times> (exn + 'p trade_store)" where
  "open_trade_repository ops blank hosts batch ringbuffer_size w =
     (let (w, ok) = session_connect ops w hosts in
      if \<not> ok then (w, Inl (Runtime_error ''Failed connecting to scylla db.''))
      else
        (let (w, ins) = session_prepare ops w insert_query;
             (w, sel) = session_prepare ops w select_by_primary_key_query in
         (w, Inr \<lparr>prepared_insert_query = ins, prepared_select_by_primary_key_query = sel,
                  batch_size = batch, trade_ring = new_ring blank ringbuffer_size\<rparr>)))"

definition run_query :: "('w, 'p) cluster_ops \<Rightarrow> string \<Rightarrow> 'w \<Rightarrow> 'w \<times> bool" where
  "run_query ops query w = session_execute ops w query"

section \<open>The web server\<close>

text \<open>The calls of the framework; a failed one yields its exception. \<open>net_address\<close> parses an address.\<close>

type_synonym routes = "(verb \<times> part list \<times> handler) list"

record ('w, 'a) http_ops =
  http_start :: "'w \<Rightarrow> 'w \<times> exn option"
  http_set_routes :: "'w \<Rightarrow> routes \<Rightarrow> 'w \<times> exn option"
  net_address :: "string \<Rightarrow> exn + 'a"
  http_listen :: "'w \<Rightarrow> 'a \<Rightarrow> 16 word \<Rightarrow> 'w \<times> exn option"
  http_stop :: "'w \<Rightarrow> 'w \<times> exn option"

record server =
  server_address :: string
  server_port :: "16 word"

definition new_server :: "string \<Rightarrow> string \<Rightarrow> 16 word \<Rightarrow> server" where
  "new_server name address port = \<lparr>server_address = address, server_port = port\<rparr>"

definition server_start :: "('w, 'a) http_ops \<Rightarrow> server \<Rightarrow> 'w \<Rightarrow> 'w \<times> exn option" where
  "server_start ops srv w =
     (case http_start ops w of
        (w, Some e) \<Rightarrow> (w, Some e)
      | (w, None) \<Rightarrow>
     (case http_set_routes ops w set_routes of
        (w, Some e) \<Rightarrow> (w, Some e)
      | (w, None) \<Rightarrow>
     (case net_address ops (server_address srv) of
        Inl e \<Rightarrow> (w, Some e)
      | Inr addr \<Rightarrow> http_listen ops w addr (server_port srv))))"

definition server_stop :: "('w, 'a) http_ops \<Rightarrow> 'w \<Rightarrow> 'w \<times> exn option" where
  "server_stop ops w = http_stop ops w"

section \<open>The stop signal\<close>

text \<open>\<open>wakeups\<close> counts the broadcasts of the condition variable.\<close>

record stop_signal =
  caught :: bool
  wakeups :: nat

definition new_stop_signal :: stop_signal where
  "new_stop_signal = \<lparr>caught = False, wakeups = 0\<rparr>"

definition signaled :: "stop_signal \<Rightarrow> stop_signal" where
  "signaled s = (if caught s then s else s\<lparr>caught := True, wakeups := Suc (wakeups s)\<rparr>)"

definition stopping :: "stop_signal \<Rightarrow> bool" where
  "stopping s = caught s"

text \<open>The future of \<^verbatim>\<open>wait\<close> is ready.\<close>

definition wait_ready :: "stop_signal \<Rightarrow> bool" where
  "wait_ready s = caught s"

section \<open>The process\<close>

record config =
  cfg_server_name :: string
  cfg_server_address :: string
  cfg_server_port :: "16 word"
  cfg_trade_repository_address :: string
  cfg_trade_repository_batch_size :: "32 word"
  cfg_rocksdb_dir :: string
  cfg_ringbuffer_size :: "32 word"
  cfg_instrument_init_file :: string

text \<open>The values of the flags without options on the command line.\<close>

definition default_config :: config where
  "default_config =
     \<lparr>cfg_server_name = ''UnlimitedExchange'', cfg_server_address = ''0.0.0.0'', cfg_server_port = 8000,
      cfg_trade_repository_address = ''172.17.0.2'', cfg_trade_repository_batch_size = 1,
      cfg_rocksdb_dir = ''./order_rocksdb'', cfg_ringbuffer_size = 1024,
      cfg_instrument_init_file = ''../init/instruments.txt''\<rparr>"

text \<open>
  What the process finds: the libraries, the content of the files, the values in the order database
  and their decoding, and the time.
\<close>

record ('w, 'd, 'h, 'p, 'a, 's) platform =
  storage :: "('w, 'd, 'h) storage_ops"
  cluster :: "('w, 'p) cluster_ops"
  http :: "('w, 'a) http_ops"
  files :: "'w \<Rightarrow> string \<Rightarrow> string option"
  order_values :: "'w \<Rightarrow> ('d, 'h) order_store \<Rightarrow> 's list"
  decode :: "'s \<Rightarrow> order_archive option"
  unix_time :: "'w \<Rightarrow> int"
  blank_trade :: Trade

record ('d, 'h, 'p) process =
  proc_orders :: "('d, 'h) order_store"
  proc_trades :: "'p trade_store"
  proc_exchange :: exchange
  proc_server :: server
  proc_errors :: "string list"
  proc_signal :: stop_signal

text \<open>
  The start of the process. Every book reads the stored orders, so without instruments they are not
  read. The exception of a step ends the start.
\<close>

definition program_start ::
    "('w, 'd, 'h, 'p, 'a, 's) platform \<Rightarrow> config \<Rightarrow> 'w \<Rightarrow> ('w \<times> (exn + ('d, 'h, 'p) process)) option" where
  "program_start pf cfg w =
     do {
       (w, r) \<leftarrow> open_order_repository (storage pf) (cfg_rocksdb_dir cfg) w;
       (case r of
          Inl e \<Rightarrow> Some (w, Inl e)
        | Inr ostore \<Rightarrow>
       (case open_trade_repository (cluster pf) (blank_trade pf) (cfg_trade_repository_address cfg)
               (cfg_trade_repository_batch_size cfg) (unat (cfg_ringbuffer_size cfg)) w of
          (w, Inl e) \<Rightarrow> Some (w, Inl e)
        | (w, Inr trades) \<Rightarrow>
       (let (infos, errs) = read_instrument_init_data_from_file (files pf w) (cfg_instrument_init_file cfg) in
        case (if infos = [] then Inr [] else decode_all (decode pf) (order_values pf w ostore)) of
          Inl e \<Rightarrow> Some (w, Inl e)
        | Inr stored \<Rightarrow>
            do {
              ex \<leftarrow> new_exchange infos stored (unix_time pf w) False;
              let srv = new_server (cfg_server_name cfg) (cfg_server_address cfg) (cfg_server_port cfg);
              (case server_start (http pf) srv w of
                 (w, Some e) \<Rightarrow> Some (w, Inl e)
               | (w, None) \<Rightarrow>
                   Some (w, Inr \<lparr>proc_orders = ostore, proc_trades = trades, proc_exchange = ex, proc_server = srv,
                                 proc_errors = errs, proc_signal = new_stop_signal\<rparr>))
            })))
     }"

text \<open>After the start: \<open>n\<close> signals have arrived. \<open>None\<close> while the process waits; its exit status otherwise.\<close>

definition program_end ::
    "('w, 'd, 'h, 'p, 'a, 's) platform \<Rightarrow> ('d, 'h, 'p) process \<Rightarrow> nat \<Rightarrow> 'w \<Rightarrow> ('w \<times> (exn + int)) option" where
  "program_end pf p n w =
     (if wait_ready ((signaled ^^ n) (proc_signal p)) then
        (case server_stop (http pf) w of
           (w, Some e) \<Rightarrow> Some (w, Inl e)
         | (w, None) \<Rightarrow> Some (w, Inr 0))
      else None)"

section \<open>The books of a new exchange\<close>

lemma add_books_books:
  assumes "add_books idx [] now infos ex = Some ex'"
  shows "map_of (instruments ex') i = (case map_of (instruments ex) i of
      Some b \<Rightarrow> Some b
    | None \<Rightarrow> map_option (\<lambda>p. empty_book i p Map.empty now) (map_of infos i))"
  using assms
proof (induction infos arbitrary: idx ex)
  case (Cons info infos)
  let ?ex = "ex\<lparr>instrument_idx := AList.update (fst info) idx (instrument_idx ex),
    instruments := (if map_of (instruments ex) (fst info) = None
      then AList.update (fst info) (empty_book (fst info) (snd info) Map.empty now) (instruments ex)
      else instruments ex)\<rparr>"
  have "add_books (Suc idx) [] now infos ?ex = Some ex'"
    using Cons.prems new_book_empty [of "fst info" "snd info" now] by (simp add: Let_def)
  from Cons.IH [OF this] show ?case by (cases info) (auto simp: update_conv' split: option.splits)
qed (simp split: option.split)

lemma new_exchange_books:
  "new_exchange infos [] now f = Some ex \<Longrightarrow>
    map_of (instruments ex) i = map_option (\<lambda>p. empty_book i p Map.empty now) (map_of infos i)"
  by (auto simp: new_exchange_def dest: add_books_books [where i = i])

section \<open>Signals\<close>

lemma signals: "(signaled ^^ n) new_stop_signal = (if n = 0 then new_stop_signal else \<lparr>caught = True, wakeups = 1\<rparr>)"
  by (induction n) (auto simp: signaled_def new_stop_signal_def)

lemma signals_ready: "wait_ready ((signaled ^^ n) new_stop_signal) \<longleftrightarrow> n \<noteq> 0"
  unfolding signals by (simp add: wait_ready_def new_stop_signal_def)

section \<open>Properties\<close>


text \<open>
  A platform on which everything succeeds: the database directory is new, its only handle is 0, and the world
  counts the calls.
\<close>

definition sample_platform :: "string option \<Rightarrow> (nat, unit, nat, string, string, order_archive) platform" where
  "sample_platform file =
     \<lparr>storage = \<lparr>path_exists = (\<lambda>w p. False), create_directory = (\<lambda>w p. (Suc w, True)),
        open_db = (\<lambda>w p. (Suc w, Some ())), create_family = (\<lambda>w d f. (Suc w, Some 0)),
        open_db_families = (\<lambda>w p fs. (w, None, []))\<rparr>,
      cluster = \<lparr>session_connect = (\<lambda>w h. (Suc w, True)), session_prepare = (\<lambda>w q. (Suc w, Some q)),
        session_execute = (\<lambda>w q. (Suc w, True))\<rparr>,
      http = \<lparr>http_start = (\<lambda>w. (Suc w, None)), http_set_routes = (\<lambda>w r. (Suc w, None)), net_address = Inr,
        http_listen = (\<lambda>w a p. (Suc w, None)), http_stop = (\<lambda>w. (Suc w, None))\<rparr>,
      files = (\<lambda>w p. file), order_values = (\<lambda>w d. []), decode = (\<lambda>s. Some s), unix_time = (\<lambda>w. 0),
      blank_trade = \<lparr>buyer_id = [], seller_id = [], buyer_order_id = [], seller_order_id = [], trade_instrument = [],
        volume = 0, trade_price = 0, trade_timestamp = 0\<rparr>\<rparr>"

lemma sample_opens:
  fixes content :: "string option"
  defines "pf \<equiv> sample_platform content"
  shows "open_order_repository (storage pf) d 0 = Some (3, Inr \<lparr>db = Some (), order_handler = 0, default_handler = None\<rparr>)"
    "open_trade_repository (cluster pf) (blank_trade pf) h n r 3 = (6, Inr \<lparr>prepared_insert_query = Some insert_query,
       prepared_select_by_primary_key_query = Some select_by_primary_key_query, batch_size = n,
       trade_ring = new_ring (blank_trade pf) r\<rparr>)"
    "server_start (http pf) srv 6 = (9, None)"
  by (simp_all add: pf_def sample_platform_def open_order_repository_def open_trade_repository_def server_start_def)




end
