(* ===== verification/Serving.thy ===== *)
theory Serving
  imports Server_Props Program
begin

text \<open>
  The server over time: requests arrive one after the other and each is handled by the handler of its
  route (\<^verbatim>\<open>src/server/server.cpp\<close>, \<^verbatim>\<open>src/server/handlers\<close>). Every request to create or to read an order is
  answered, whatever came before, and no sequence of such requests leaves a crossed book.
\<close>

section \<open>Handling requests\<close>

text \<open>A request with the time of its arrival and the identifier that the generator would return.\<close>

record arrival =
  arr_time :: int
  arr_uuid :: string
  arr_handler :: handler
  arr_request :: request

definition handle ::
    "('d, 's) kv_ops \<Rightarrow> ('s \<Rightarrow> order_archive option) \<Rightarrow> 'd \<Rightarrow> arrival \<Rightarrow> exchange \<Rightarrow> outcome" where
  "handle ops dec d a ex =
     (case arr_handler a of
        H_create \<Rightarrow> create_order_handler (arr_time a) (arr_uuid a) (arr_request a) ex
      | H_update \<Rightarrow> update_order_handler (arr_time a) (arr_request a) ex
      | H_get \<Rightarrow> get_order_handler ops dec d (arr_request a) ex
      | H_cancel \<Rightarrow> cancel_order_handler (arr_request a) ex
      | H_snapshot \<Rightarrow> snapshot_handler (arr_request a) ex)"

text \<open>
  The framework turns an exception of a handler into an error reply. An exception of the mapper or the
  repository leaves the exchange as it was; \<open>requests_answered\<close> shows that these are the only ones.
\<close>

datatype answer = Reply reply | Error_reply exn

primrec serve ::
    "('d, 's) kv_ops \<Rightarrow> ('s \<Rightarrow> order_archive option) \<Rightarrow> 'd \<Rightarrow> arrival list \<Rightarrow> exchange \<Rightarrow> (exchange \<times> answer list) option" where
  "serve ops dec d [] ex = Some (ex, [])"
| "serve ops dec d (a # as) ex =
     (case handle ops dec d a ex of
        Some (Inr (ex, r)) \<Rightarrow> map_option (map_prod id (Cons (Reply r))) (serve ops dec d as ex)
      | Some (Inl (Thrown e)) \<Rightarrow> map_option (map_prod id (Cons (Error_reply e))) (serve ops dec d as ex)
      | _ \<Rightarrow> None)"

section \<open>Identifiers in use\<close>

definition ids_within :: "string set \<Rightarrow> exchange \<Rightarrow> bool" where
  "ids_within U ex \<longleftrightarrow> (\<forall>i b q ord. map_of (instruments ex) i = Some b \<longrightarrow> order_mem b q = Some ord \<longrightarrow> order_id ord \<in> U)"

lemma same_core_id: "same_core b b' \<Longrightarrow> map_option order_id (order_mem b' x) = map_option order_id (order_mem b x)"
  unfolding same_core_def by (cases "order_mem b x"; cases "order_mem b' x"; metis core_eqD(1) option.map option.distinct(1) option.inject)

text \<open>Adding an order changes no identifier.\<close>

lemma add_order_ids:
  assumes ok: "book_ok b bl al" and q: "arriving b q qo (bl @ al)" and add: "add_order q b = Some (Inr (b', st))"
  shows "map_option order_id (order_mem b' x) = map_option order_id (order_mem b x)"
proof (cases "parks (market_price b) qo")
  case True
  have "order_mem b q = Some qo" using q by (simp add: arriving_def incoming_def)
  from add_order_parks [OF ok this True] add show ?thesis by auto
next
  case False
  obtain own' opp' where "add_result q qo (side_of (is_buy qo) bl al) (side_of (\<not> is_buy qo) bl al) b st own' opp' b'"
    using add_order_book [OF ok q False] add by auto
  then obtain r b1 where m: "match_result (has_param (released qo) AON) (order_type qo) (is_buy qo) q
      (side_of (\<not> is_buy qo) bl al) (release q qo b) r opp' b1"
    and cs: "b' = b1 \<or> b' = b1\<lparr>order_mem := (order_mem b1)(q := map_option cancel (order_mem b1 q))\<rparr> \<or> same_core b1 b'"
    unfolding add_result_def by (auto split: if_splits)
  have "same_core (release q qo b) b1" using m by (simp add: match_result_def match_post_def)
  from same_core_id [OF this] have "map_option order_id (order_mem b1 x) = map_option order_id (order_mem b x)"
    using q by (auto simp: release_def arriving_def incoming_def)
  moreover have "map_option order_id (order_mem b' x) = map_option order_id (order_mem b1 x)"
    using cs
  proof (elim disjE)
    assume "same_core b1 b'" then show ?thesis by (rule same_core_id)
  qed (auto simp: option.map_comp comp_def cancel_def)
  ultimately show ?thesis by simp
qed

lemma unused_id:
  assumes "exchange_ok ex" "ids_within U ex" "map_of (instruments ex) i = Some b" "u \<notin> U"
  shows "map_of (orders b) u = None"
proof (rule ccontr)
  assume "map_of (orders b) u \<noteq> None"
  then obtain q where q: "map_of (orders b) u = Some q" by blast
  obtain bl al where "book_ok b bl al" using exchange_okD(1) [OF assms(1,3)] by blast
  from listed_order [OF this q] obtain ord where "order_mem b q = Some ord" "order_id ord = u" by (auto simp: order_at_def)
  then show False using assms(2-4) unfolding ids_within_def by blast
qed

text \<open>One order more: the exchange is one of its histories again, and one identifier more is in use.\<close>

lemma exchange_add_order_run:
  assumes run: "exchange_run ex" and b: "map_of (instruments ex) i = Some b" and ord: "fresh_order ord"
    and U: "ids_within U ex" and id: "order_id ord \<notin> U"
  shows "\<exists>ex' st. exchange_add_order now i ord ex = Some (Inr (ex', st)) \<and> exchange_run ex' \<and>
    st \<in> {ACCEPTED, MATCHED, NOT_MATCHED} \<and> working ex' = working ex \<and>
    dom (map_of (instruments ex')) = dom (map_of (instruments ex)) \<and> ids_within (insert (order_id ord) U) ex'"
proof -
  have ok: "exchange_ok ex" using exchange_run_ok [OF run] by blast
  have none: "map_of (orders b) (order_id ord) = None" by (rule unused_id [OF ok U b id])
  let ?q = "next_ptr ex"
  from exchange_add_order_ok [OF ok b ord none, of now] obtain ex' st b' where
    e: "exchange_add_order now i ord ex = Some (Inr (ex', st))" "st \<in> {ACCEPTED, MATCHED, NOT_MATCHED}"
      "working ex' = working ex" "add_order ?q (alloc_order ?q ord now b) = Some (Inr (b', st))"
      "map_of (instruments ex') i = Some b'" "\<forall>j. j \<noteq> i \<longrightarrow> map_of (instruments ex') j = map_of (instruments ex) j"
    by blast
  obtain bl al where B: "book_ok b bl al" "order_mem b ?q = None" "?q \<noteq> 0" using exchange_okD [OF ok b] by auto
  have ids: "map_option order_id (order_mem b' x) = (if x = ?q then Some (order_id ord) else map_option order_id (order_mem b x))" for x
    using add_order_ids [OF alloc_book [OF B ord none] e(4), of x] by (simp add: alloc_order_def)
  have "ids_within (insert (order_id ord) U) ex'"
    unfolding ids_within_def
  proof (intro allI impI)
    fix j c x o' assume c: "map_of (instruments ex') j = Some c" and o': "order_mem c x = Some o'"
    show "order_id o' \<in> insert (order_id ord) U"
    proof (cases "j = i")
      case True
      then have "map_option order_id (order_mem b' x) = Some (order_id o')" using c e(5) o' by simp
      moreover have "order_id z \<in> U" if "order_mem b x = Some z" for z
        using U b that unfolding ids_within_def by blast
      ultimately show ?thesis using ids [of x] by (auto split: if_splits)
    next
      case False
      then show ?thesis using c o' e(6) U unfolding ids_within_def by auto
    qed
  qed
  moreover have "dom (map_of (instruments ex')) = dom (map_of (instruments ex))"
    using e(5,6) b by (auto simp: dom_def)
  moreover have "exchange_run ex'" by (rule exchange_run.add [OF run b ord none e(1)])
  ultimately show ?thesis using e(1-3) by blast
qed

section \<open>Every request is answered\<close>

text \<open>
  The requests of the theorem: to create an order, whose quantity is positive if the body maps to an order,
  or to read one.
\<close>

definition plain_request :: "arrival \<Rightarrow> bool" where
  "plain_request a \<longleftrightarrow> arr_handler a = H_get \<or>
     arr_handler a = H_create \<and> (\<forall>ord. map_json_to_order (arr_time a) (content (arr_request a)) = Inr ord \<longrightarrow>
       good_qty (current_qty ord))"

text \<open>A create request that passes every check, on an open exchange with the instruments \<open>I\<close>.\<close>

definition valid_create :: "string set \<Rightarrow> arrival \<Rightarrow> bool" where
  "valid_create I a \<longleftrightarrow> arr_handler a = H_create \<and>
     (\<exists>i ord. map_of (path_params (arr_request a)) INSTRUMENT_KEY = Some i \<and> i \<in> I \<and>
        map_json_to_order (arr_time a) (content (arr_request a)) = Inr ord \<and> side ord \<noteq> UNKOWN)"

definition answers :: "string set \<Rightarrow> arrival \<Rightarrow> answer \<Rightarrow> bool" where
  "answers I a r \<longleftrightarrow> (valid_create I a \<longrightarrow> (\<exists>st \<in> {ACCEPTED, MATCHED, NOT_MATCHED}.
     r = Reply \<lparr>status = OK, reply_body = B_order_info (arr_uuid a, status_code st)\<rparr>))"

lemma get_keeps: "\<exists>r. get_order_handler ops dec d req ex = Some r \<and> (case r of Inl f \<Rightarrow> \<exists>e. f = Thrown e | Inr (ex', _) \<Rightarrow> ex' = ex)"
  by (auto simp: get_order_handler_def split: option.split sum.split)

lemma invalid_create_keeps:
  assumes "\<not> valid_create (dom (map_of (instruments ex))) a" "arr_handler a = H_create"
  shows "\<exists>r. create_order_handler (arr_time a) (arr_uuid a) (arr_request a) ex = Some r \<and>
    (case r of Inl f \<Rightarrow> \<exists>e. f = Thrown e | Inr (ex', _) \<Rightarrow> ex' = ex)"
  using assms
  by (auto simp: create_order_handler_def validate_instrument_parameter_def validate_parameter_def validate_order_side_def
    check_if_exchange_is_working_def instrument_exists_def valid_create_def get_path_param_def Let_def split: option.split sum.split)

text \<open>One request: an answer, and a history again, in which at most the identifier of the request is new.\<close>

lemma request_step:
  assumes run: "exchange_run ex" and op: "is_working ex" and U: "ids_within U ex" "arr_uuid a \<notin> U" and a: "plain_request a"
  shows "\<exists>ex' r. serve ops dec d (a # as) ex = map_option (map_prod id (Cons r)) (serve ops dec d as ex') \<and>
    exchange_run ex' \<and> is_working ex' \<and> dom (map_of (instruments ex')) = dom (map_of (instruments ex)) \<and>
    ids_within (insert (arr_uuid a) U) ex' \<and> answers (dom (map_of (instruments ex))) a r"
proof (cases "valid_create (dom (map_of (instruments ex))) a")
  case True
  then obtain i b ord where c: "arr_handler a = H_create" "map_of (path_params (arr_request a)) INSTRUMENT_KEY = Some i"
    "map_of (instruments ex) i = Some b" "map_json_to_order (arr_time a) (content (arr_request a)) = Inr ord" "side ord \<noteq> UNKOWN"
    unfolding valid_create_def by auto
  have good: "good_qty (current_qty ord)" using a c(1,4) by (simp add: plain_request_def)
  have "fresh_order (set_id (arr_uuid a) ord)" "order_id (set_id (arr_uuid a) ord) = arr_uuid a"
    using mapped_order [OF c(4)] good by (simp_all add: fresh_order_def set_id_def)
  with exchange_add_order_run [OF run c(3) _ U(1), of "set_id (arr_uuid a) ord" "arr_time a"] U(2) obtain ex' st where
    e: "exchange_add_order (arr_time a) i (set_id (arr_uuid a) ord) ex = Some (Inr (ex', st))" "exchange_run ex'"
      "st \<in> {ACCEPTED, MATCHED, NOT_MATCHED}" "working ex' = working ex"
      "dom (map_of (instruments ex')) = dom (map_of (instruments ex))" "ids_within (insert (arr_uuid a) U) ex'"
    by auto
  have ie: "instrument_exists i ex" using c(3) by (simp add: instrument_exists_def)
  let ?r = "\<lparr>status = OK, reply_body = B_order_info (arr_uuid a, status_code st)\<rparr>"
  have "handle ops dec d a ex = Some (Inr (ex', ?r))"
    using instrument_passes [OF c(2) ie] op c(1,4,5) e(1)
    by (simp add: handle_def create_order_handler_def validate_order_side_def check_if_exchange_is_working_def is_working_def
        ok_reply_def SeastarOrderInfoJson_def)
  then have "serve ops dec d (a # as) ex = map_option (map_prod id (Cons (Reply ?r))) (serve ops dec d as ex')" by simp
  moreover have "answers (dom (map_of (instruments ex))) a (Reply ?r)" using e(3) by (auto simp: answers_def)
  ultimately show ?thesis using e op by (auto simp: is_working_def)
next
  case False
  then have any: "answers (dom (map_of (instruments ex))) a r" for r by (simp add: answers_def)
  have "\<exists>r. handle ops dec d a ex = Some r \<and> (case r of Inl f \<Rightarrow> \<exists>e. f = Thrown e | Inr (ex', _) \<Rightarrow> ex' = ex)"
    using a invalid_create_keeps [OF False] get_keeps [of ops dec d "arr_request a" ex]
    by (auto simp: plain_request_def handle_def)
  then obtain x where "handle ops dec d a ex = Some x" "case x of Inl f \<Rightarrow> \<exists>e. f = Thrown e | Inr (ex', _) \<Rightarrow> ex' = ex" by blast
  then have "\<exists>r. serve ops dec d (a # as) ex = map_option (map_prod id (Cons r)) (serve ops dec d as ex)"
    by (auto split: sum.splits)
  moreover have "ids_within (insert (arr_uuid a) U) ex" using U(1) unfolding ids_within_def by blast
  ultimately show ?thesis using run op any by blast
qed

lemma requests_served:
  assumes "exchange_run ex" "is_working ex" "ids_within U ex" "distinct (map arr_uuid as)" "arr_uuid ` set as \<inter> U = {}"
    "\<forall>a \<in> set as. plain_request a"
  shows "\<exists>ex' rs. serve ops dec d as ex = Some (ex', rs) \<and> exchange_run ex' \<and>
    list_all2 (answers (dom (map_of (instruments ex)))) as rs"
  using assms
proof (induction as arbitrary: ex U)
  case (Cons a as)
  from request_step [OF Cons.prems(1-3), of a ops dec d as] Cons.prems(5,6) obtain ex1 r where
    s: "serve ops dec d (a # as) ex = map_option (map_prod id (Cons r)) (serve ops dec d as ex1)"
      "exchange_run ex1" "is_working ex1" "dom (map_of (instruments ex1)) = dom (map_of (instruments ex))"
      "ids_within (insert (arr_uuid a) U) ex1" "answers (dom (map_of (instruments ex))) a r" by auto
  have "distinct (map arr_uuid as)" "arr_uuid ` set as \<inter> insert (arr_uuid a) U = {}" "\<forall>a \<in> set as. plain_request a"
    using Cons.prems(4-6) by auto
  from Cons.IH [OF s(2,3,5) this] s(4) obtain ex' rs where
    r: "serve ops dec d as ex1 = Some (ex', rs)" "exchange_run ex'" "list_all2 (answers (dom (map_of (instruments ex)))) as rs"
    by auto
  show ?case
  proof (intro exI conjI)
    show "serve ops dec d (a # as) ex = Some (ex', r # rs)" by (simp only: s(1) r(1) option.map map_prod_simp id_apply)
    show "list_all2 (answers (dom (map_of (instruments ex)))) (a # as) (r # rs)" using s(6) r(3) by simp
  qed (rule r(2))
qed simp



end
